(* ===== verification/Prelude.thy ===== *)
theory Prelude
  imports Main "HOL-Library.Word" "HOL-Library.Sublist"
begin

unbundle bit_operations_syntax

text \<open>
  The vocabulary every component shares: bytes and Go's integer types as words, the wrap-around
  of Go's \<open>int\<close> at a given width, slices and \<open>copy\<close>, the big-endian encodings of
  \<open>encoding/binary\<close>, and the list facts the component proofs rewrite with. Facts about
  slices and byte layouts are collected in \<open>bytes_simps\<close>.
\<close>

named_theorems bytes_simps \<open>layout of byte slices\<close>

type_synonym byte = "8 word"
type_synonym u32 = "32 word"
type_synonym u64 = "64 word"

text \<open>Go's \<open>int\<close> and \<open>int64\<close> on a 64-bit target; read as a number with \<open>sint\<close>.\<close>
type_synonym goint = "64 word"

text \<open>
  The value of an expression of type \<open>int\<close> on a target whose \<open>int\<close> has \<open>W\<close> bits:
  two's complement wrap-around.
\<close>
definition wrap_int :: "nat \<Rightarrow> int \<Rightarrow> int" where
  "wrap_int W x = (x + 2 ^ (W - 1)) mod 2 ^ W - 2 ^ (W - 1)"

lemma wrap_int_id:
  assumes "0 < W" "- (2 ^ (W - 1)) \<le> x" "x < 2 ^ (W - 1)"
  shows "wrap_int W x = x"
proof -
  obtain n where n: "W = Suc n" using assms(1) by (cases W) auto
  have "(x + 2 ^ n) mod (2 * 2 ^ n) = x + 2 ^ n"
    by (rule mod_pos_pos_trivial) (use assms n in auto)
  then show ?thesis by (simp add: wrap_int_def n)
qed

lemma wrap_int_over:
  assumes "0 < W" "2 ^ (W - 1) \<le> x" "x < 2 ^ (W - 1) + 2 ^ W"
  shows "wrap_int W x = x - 2 ^ W"
proof -
  obtain n where n: "W = Suc n" using assms(1) by (cases W) auto
  have "(x + 2 ^ n) mod 2 ^ W = (x + 2 ^ n - 2 ^ W) mod 2 ^ W"
    by (rule minus_mod_self2[symmetric])
  also have "\<dots> = x + 2 ^ n - 2 ^ W"
    by (rule mod_pos_pos_trivial) (use assms n in auto)
  finally show ?thesis by (simp add: wrap_int_def n)
qed

lemma uint_ge [simp]: "k \<le> 0 \<Longrightarrow> k \<le> uint x"
  by (rule order_trans[OF _ uint_ge_0])

section \<open>Slices\<close>

text \<open>\<open>xs[i:j]\<close> for indices in range.\<close>
definition subslice :: "nat \<Rightarrow> nat \<Rightarrow> 'a list \<Rightarrow> 'a list" where
  "subslice i j xs = take (j - i) (drop i xs)"

text \<open>
  Go's \<open>copy(dst[i:], src)\<close> for \<open>i \<le> len(dst)\<close>: as many elements as fit, the rest of
  the destination unchanged.
\<close>
definition copy_at :: "nat \<Rightarrow> 'a list \<Rightarrow> 'a list \<Rightarrow> 'a list" where
  "copy_at i src dst = take i dst @ take (length dst - i) src @ drop (i + length src) dst"

lemma length_subslice [simp]: "j \<le> length xs \<Longrightarrow> length (subslice i j xs) = j - i"
  by (simp add: subslice_def)

lemma length_copy_at [simp]: "i \<le> length dst \<Longrightarrow> length (copy_at i src dst) = length dst"
  by (auto simp: copy_at_def)

lemma subslice_skip [bytes_simps]:
  "i = length xs \<Longrightarrow> j = i + length ys \<Longrightarrow> subslice i j (xs @ ys @ zs) = ys"
  by (simp add: subslice_def)

lemma subslice_drop: "subslice i j (xs @ ys) = subslice (i - length xs) (j - length xs) ys"
  if "length xs \<le> i"
  using that by (simp add: subslice_def)

lemma take_subslice: "m \<le> n \<Longrightarrow> take m xs @ subslice m n xs = take n xs"
  by (simp add: subslice_def flip: take_add)

lemma drop_subslice: "m \<le> n \<Longrightarrow> subslice m n xs @ drop n xs = drop m xs"
  by (metis append_take_drop_id drop_drop le_add_diff_inverse2 subslice_def)

section \<open>Big-endian integers (\<open>encoding/binary\<close>)\<close>

text \<open>The \<open>n\<close> low bytes of a word, most significant first.\<close>
primrec be_put :: "nat \<Rightarrow> 'a::len word \<Rightarrow> byte list" where
  "be_put 0 v = []"
| "be_put (Suc n) v = be_put n (drop_bit 8 v) @ [ucast v]"

text \<open>The value of a byte sequence, most significant first.\<close>
definition be_get :: "byte list \<Rightarrow> 'a::len word" where
  "be_get bs = foldl (\<lambda>acc b. push_bit 8 acc OR ucast b) 0 bs"

text \<open>\<open>binary.BigEndian\<close>: \<open>PutUint64\<close>, \<open>PutUint32\<close>, \<open>Uint64\<close>, \<open>Uint32\<close>.\<close>
definition be_put64 :: "u64 \<Rightarrow> byte list" where "be_put64 v = be_put 8 v"
definition be_put32 :: "u32 \<Rightarrow> byte list" where "be_put32 v = be_put 4 v"
definition be_uint64 :: "byte list \<Rightarrow> u64" where "be_uint64 bs = be_get bs"
definition be_uint32 :: "byte list \<Rightarrow> u32" where "be_uint32 bs = be_get bs"

lemma length_be_put [simp]: "length (be_put n v) = n"
  by (induction n arbitrary: v) auto

lemma be_get_snoc: "be_get (bs @ [b]) = push_bit 8 (be_get bs) OR ucast b"
  by (simp add: be_get_def)

lemma be_get_put: "be_get (be_put n v) = take_bit (8 * n) v"
proof (induction n arbitrary: v)
  case 0
  show ?case by (simp add: be_get_def)
next
  case (Suc n)
  have "push_bit 8 (take_bit (8 * n) (drop_bit 8 v)) OR ucast (ucast v :: byte)
        = take_bit (8 * n + 8) v"
    by (rule bit_word_eqI) (auto simp: bit_simps)
  then show ?case by (simp add: be_get_snoc Suc.IH add.commute)
qed

lemma be_put_get:
  assumes "length bs = n" "8 * n \<le> LENGTH('a::len)"
  shows "be_put n (be_get bs :: 'a word) = bs"
  using assms
proof (induction bs arbitrary: n rule: rev_induct)
  case Nil
  then show ?case by simp
next
  case (snoc b bs)
  then obtain m where n: "n = Suc m" and m: "length bs = m" by (cases n) auto
  let ?w = "be_get bs :: 'a word"
  have "take_bit (8 * m) ?w = ?w"
    using snoc.IH[OF m] snoc.prems n by (metis be_get_put add_leD1 mult_Suc_right nat_add_left_cancel_le trans_le_add2)
  then have low: "\<not> bit ?w i" if "8 * m \<le> i" for i
    by (metis bit_take_bit_iff that not_le)
  have len: "8 + 8 * m \<le> LENGTH('a)" using snoc.prems(2) n by simp
  have hi: "drop_bit 8 (push_bit 8 ?w OR ucast b) = ?w"
  proof (rule bit_word_eqI)
    fix i assume "i < LENGTH('a)"
    show "bit (drop_bit 8 (push_bit 8 ?w OR ucast b)) i = bit ?w i"
    proof (cases "8 * m \<le> i")
      case True
      then show ?thesis using low[of i] bit_imp_le_length[of b "8 + i"] by (auto simp: bit_simps)
    next
      case False
      then show ?thesis using len bit_imp_le_length[of b "8 + i"] by (auto simp: bit_simps)
    qed
  qed
  have lo: "ucast (push_bit 8 ?w OR ucast b) = b"
    by (rule bit_word_eqI) (use len in \<open>auto simp: bit_simps\<close>)
  show ?case using snoc.IH[OF m] snoc.prems n by (simp add: be_get_snoc hi lo del: drop_bit_or)
qed

lemma length_be_put64 [simp]: "length (be_put64 v) = 8"
  by (simp add: be_put64_def)

lemma length_be_put32 [simp]: "length (be_put32 v) = 4"
  by (simp add: be_put32_def)

lemma be_uint64_put64 [simp]: "be_uint64 (be_put64 v) = v"
  by (simp add: be_uint64_def be_put64_def be_get_put take_bit_word_eq_self)

lemma be_uint32_put32 [simp]: "be_uint32 (be_put32 v) = v"
  by (simp add: be_uint32_def be_put32_def be_get_put take_bit_word_eq_self)

lemma be_put64_uint64 [simp]: "length bs = 8 \<Longrightarrow> be_put64 (be_uint64 bs) = bs"
  by (simp add: be_put64_def be_uint64_def be_put_get)

lemma be_put32_uint32 [simp]: "length bs = 4 \<Longrightarrow> be_put32 (be_uint32 bs) = bs"
  by (simp add: be_put32_def be_uint32_def be_put_get)

section \<open>Strings and bytes\<close>

text \<open>A Go string is a byte sequence; \<open>[]byte(addr)\<close> is its bytes.\<close>
definition bytes_of :: "string \<Rightarrow> byte list" where
  "bytes_of s = map of_char s"

text \<open>\<open>string(bs)\<close>: the string of these bytes.\<close>
definition string_of :: "byte list \<Rightarrow> string" where
  "string_of bs = map (\<lambda>b. char_of (unat b)) bs"

lemma string_of_bytes [simp]: "string_of (map (\<lambda>c. of_nat (of_char c)) s) = s"
proof -
  have "char_of (unat (of_nat (of_char c) :: byte)) = c" for c :: char
    by (simp add: unat_of_nat take_bit_nat_eq_self)
  then show ?thesis by (simp add: string_of_def o_def)
qed


lemma string_of_bytes_of [simp]: "string_of (bytes_of s) = s"
  using string_of_bytes[of s] by (simp only: of_nat_of_char bytes_of_def)

end
