(* ===== verification/Protocol.thy ===== *)
theory Protocol
  imports Prelude
begin

text \<open>
  The tunnel's wire format, \<open>src/wormhole/tunnel/protocol.go\<close>: a record is one type byte, the
  connection id as eight big-endian bytes, the payload length as four, then the payload. The
  encoder is translated with its buffer and its in-place stores; \<open>encodeMsg_eq\<close> gives the
  layout. The decoder takes the width \<open>W\<close> of the target's \<open>int\<close>, because its length check is
  computed at that width, and keeps a panic apart from an error return.
\<close>

definition MsgOpen :: byte where "MsgOpen = 0x01"
definition MsgData :: byte where "MsgData = 0x02"
definition MsgClose :: byte where "MsgClose = 0x03"

definition headerSize :: nat where "headerSize = 1 + 8 + 4"

record Message =
  Type :: byte
  ConnID :: u64
  Payload :: "byte list"

text \<open>How \<open>Decode\<close> can fail: its three error returns, and a run-time panic.\<close>
datatype decode_error =
    TooShort nat
  | Incomplete nat int
  | UnknownType byte
  | DecodePanic

section \<open>Encoding\<close>

definition encodeMsg :: "byte \<Rightarrow> u64 \<Rightarrow> byte list \<Rightarrow> byte list" where
  "encodeMsg msgType connID payload =
     (let buf = replicate (headerSize + length payload) 0;
          buf = buf[0 := msgType];
          buf = copy_at 1 (be_put64 connID) buf;
          buf = copy_at 9 (be_put32 (of_nat (length payload))) buf
      in copy_at headerSize payload buf)"

definition EncodeOpen :: "u64 \<Rightarrow> string \<Rightarrow> byte list" where
  "EncodeOpen connID addr = encodeMsg MsgOpen connID (bytes_of addr)"

definition EncodeData :: "u64 \<Rightarrow> byte list \<Rightarrow> byte list" where
  "EncodeData connID data = encodeMsg MsgData connID data"

definition EncodeClose :: "u64 \<Rightarrow> byte list" where
  "EncodeClose connID = encodeMsg MsgClose connID []"

section \<open>Decoding\<close>

text \<open>
  \<open>make([]byte, payloadLen)\<close> panics when the length does not fit the target's \<open>int\<close>, and the
  slice expression that follows it when its upper bound is below \<open>headerSize\<close>.
\<close>
definition Decode :: "nat \<Rightarrow> byte list \<Rightarrow> decode_error + Message" where
  "Decode W raw =
     (if length raw < headerSize then Inl (TooShort (length raw))
      else
        let msgType = raw ! 0;
            connID = be_uint64 (subslice 1 9 raw);
            payloadLen = be_uint32 (subslice 9 13 raw);
            need = wrap_int W (int headerSize + wrap_int W (uint payloadLen))
        in if int (length raw) < need then Inl (Incomplete (length raw) need)
           else if 2 ^ (W - 1) \<le> uint payloadLen \<or> need < int headerSize then Inl DecodePanic
           else
             let payload = copy_at 0 (subslice headerSize (nat need) raw)
                             (replicate (unat payloadLen) 0)
             in if msgType \<notin> {MsgOpen, MsgData, MsgClose} then Inl (UnknownType msgType)
                else Inr \<lparr>Type = msgType, ConnID = connID, Payload = payload\<rparr>)"

definition valid_type :: "byte \<Rightarrow> bool" where
  "valid_type t \<longleftrightarrow> t \<in> {MsgOpen, MsgData, MsgClose}"

section \<open>Layout\<close>

lemma header_fields [bytes_simps]:
  "length h = 8 \<Longrightarrow> length l = 4 \<Longrightarrow> subslice (Suc 0) 9 (t # h @ l @ p) = h"
  "length h = 8 \<Longrightarrow> length l = 4 \<Longrightarrow> subslice 9 13 (t # h @ l @ p) = l"
  by (simp_all add: subslice_def numeral_eq_Suc)

lemma encodeMsg_eq:
  "encodeMsg t cid p = t # be_put64 cid @ be_put32 (of_nat (length p)) @ p"
proof -
  have "(replicate (13 + length p) 0)[0 := t] = t # replicate (12 + length p) (0 :: byte)"
    by (simp add: numeral_eq_Suc)
  moreover have "copy_at 1 (be_put64 cid) (t # replicate (12 + length p) 0)
        = t # be_put64 cid @ replicate (4 + length p) 0"
    by (simp add: copy_at_def)
  moreover have "copy_at 9 l (t # be_put64 cid @ replicate (4 + length p) 0)
        = t # be_put64 cid @ l @ replicate (length p) 0" if "length l = 4" for l
    using that by (simp add: copy_at_def)
  moreover have "copy_at 13 p (t # be_put64 cid @ l @ replicate (length p) 0)
        = t # be_put64 cid @ l @ p" if "length l = 4" for l
    using that by (simp add: copy_at_def)
  ultimately show ?thesis
    by (simp add: encodeMsg_def headerSize_def Let_def)
qed

lemma length_encodeMsg [simp]: "length (encodeMsg t cid p) = headerSize + length p"
  by (simp add: encodeMsg_eq headerSize_def)

section \<open>Decoding is the inverse of encoding\<close>

lemma uint_less_2p31: "uint (x :: u32) < 2 ^ 32"
  using uint_lt2p[of x] by simp

lemma wrap64_payload [simp]:
  "wrap_int 64 (uint (x :: u32)) = uint x"
  "wrap_int 64 (int headerSize + uint x) = int headerSize + uint x"
  using uint_lt2p[of x]
  by (auto intro!: wrap_int_id simp: headerSize_def)

text \<open>On a 64-bit target the decoder is the following case distinction, without a panic.\<close>

lemma Decode64_eq:
  "Decode 64 raw =
     (if length raw < headerSize then Inl (TooShort (length raw))
      else if length raw < headerSize + unat (be_uint32 (subslice 9 13 raw))
      then Inl (Incomplete (length raw) (int headerSize + uint (be_uint32 (subslice 9 13 raw))))
      else if \<not> valid_type (raw ! 0) then Inl (UnknownType (raw ! 0))
      else Inr \<lparr>Type = raw ! 0, ConnID = be_uint64 (subslice 1 9 raw),
                Payload = take (unat (be_uint32 (subslice 9 13 raw))) (drop headerSize raw)\<rparr>)"
proof -
  let ?l = "be_uint32 (subslice 9 13 raw)"
  have l: "uint ?l < 2 ^ 32" by (rule uint_less_2p31)
  have u: "uint ?l = int (unat ?l)" by simp
  have "int (length raw) < int headerSize + uint ?l \<longleftrightarrow> length raw < headerSize + unat ?l"
    unfolding u by linarith
  moreover have "copy_at 0 (subslice headerSize (nat (int headerSize + uint ?l)) raw)
      (replicate (unat ?l) 0) = take (unat ?l) (drop headerSize raw)"
    if "headerSize + unat ?l \<le> length raw"
    using that by (simp add: copy_at_def subslice_def nat_add_distrib)
  ultimately show ?thesis
    using l by (auto simp: Decode_def Let_def valid_type_def)
qed

lemma encodeMsg_parts [bytes_simps]:
  "encodeMsg t c p ! 0 = t"
  "(encodeMsg t c p @ r) ! 0 = t"
  "be_uint64 (subslice (Suc 0) 9 (encodeMsg t c p @ r)) = c"
  "be_uint32 (subslice 9 13 (encodeMsg t c p @ r)) = of_nat (length p)"
  "drop headerSize (encodeMsg t c p) = p"
  by (simp_all add: encodeMsg_eq bytes_simps headerSize_def)

text \<open>
  A record built by any encoder decodes to exactly its type, connection id and payload; bytes
  that follow it are ignored.
\<close>
theorem Decode_encodeMsg:
  assumes "valid_type t" and "length p < 2 ^ 32"
  shows "Decode 64 (encodeMsg t cid p @ rest) = Inr \<lparr>Type = t, ConnID = cid, Payload = p\<rparr>"
proof -
  have "unat (of_nat (length p) :: u32) = length p"
    using assms(2) by (simp add: unat_of_nat)
  then show ?thesis
    using assms(1) by (simp add: Decode64_eq bytes_simps)
qed

theorem Decode_encodeMsg_witness:
  "Decode 64 (encodeMsg MsgData 7 [104, 105] @ [255])
   = Inr \<lparr>Type = MsgData, ConnID = 7, Payload = [104, 105]\<rparr>"
  by (rule Decode_encodeMsg) (simp_all add: valid_type_def)

text \<open>
  C32. On a 64-bit target \<open>Decode\<close> accepts exactly the records that start with an encoding of the
  message it returns: it is the inverse of \<open>encodeMsg\<close> up to trailing bytes.
\<close>
theorem Decode_Inr_iff:
  "Decode 64 raw = Inr m \<longleftrightarrow>
     valid_type (Type m) \<and> length (Payload m) < 2 ^ 32 \<and>
     (\<exists>rest. raw = encodeMsg (Type m) (ConnID m) (Payload m) @ rest)"
  (is "?L \<longleftrightarrow> ?R")
proof
  assume ?R
  then obtain rest where "raw = encodeMsg (Type m) (ConnID m) (Payload m) @ rest"
    and "valid_type (Type m)" "length (Payload m) < 2 ^ 32" by blast
  then show ?L using Decode_encodeMsg[of "Type m" "Payload m" "ConnID m" rest] by simp
next
  assume L: ?L
  let ?l = "be_uint32 (subslice 9 13 raw)"
  from L have len: "headerSize + unat ?l \<le> length raw" "valid_type (raw ! 0)"
    and m: "m = \<lparr>Type = raw ! 0, ConnID = be_uint64 (subslice 1 9 raw),
                Payload = take (unat ?l) (drop headerSize raw)\<rparr>"
    by (auto simp: Decode64_eq split: if_splits)
  have len': "length raw \<ge> 13" using len(1) by (simp add: headerSize_def)
  have "raw = take 1 raw @ subslice 1 9 raw @ subslice 9 13 raw @ drop 13 raw"
    by (simp add: drop_subslice)
  also have "take 1 raw = [raw ! 0]" using len' by (cases raw) auto
  finally have raw: "raw = raw ! 0 # subslice 1 9 raw @ subslice 9 13 raw @ drop 13 raw" by simp
  have lp: "length (Payload m) = unat ?l" using len(1) by (simp add: m)
  have "encodeMsg (Type m) (ConnID m) (Payload m)
        = raw ! 0 # subslice 1 9 raw @ subslice 9 13 raw @ take (unat ?l) (drop 13 raw)"
    using len' lp by (simp add: encodeMsg_eq m headerSize_def)
  then have "raw = encodeMsg (Type m) (ConnID m) (Payload m) @ drop (unat ?l) (drop 13 raw)"
    by (subst raw) (simp del: drop_drop)
  moreover have "length (Payload m) < 2 ^ 32" using lp unsigned_less[of ?l] by simp
  ultimately show ?R using len(2) m by auto
qed

text \<open>
  C33. On a 64-bit target no byte sequence makes \<open>Decode\<close> panic, and it returns an error exactly when
  the header is incomplete, the payload is shorter than announced, or the type is unknown, in that
  order.
\<close>
theorem Decode_errors:
  "Decode 64 raw \<noteq> Inl DecodePanic \<and>
   ((\<exists>e. Decode 64 raw = Inl e) \<longleftrightarrow>
     length raw < headerSize
     \<or> length raw < headerSize + unat (be_uint32 (subslice 9 13 raw))
     \<or> \<not> valid_type (raw ! 0))"
  by (auto simp: Decode64_eq)

theorem Decode_errors_witness: "\<exists>e. Decode 64 [1, 0] = Inl e"
  using Decode_errors[of "[1, 0]"] by (simp add: headerSize_def)

text \<open>
  On a target with a 32-bit \<open>int\<close> the length check overflows: every record whose announced length
  is at least \<open>2^31 - headerSize\<close> makes \<open>Decode\<close> panic, whatever else it holds. A peer can so stop
  the process with a single 13-byte record.
\<close>
theorem Decode32_panics:
  assumes "headerSize \<le> length raw"
    and "2 ^ 31 - int headerSize \<le> uint (be_uint32 (subslice 9 13 raw))"
  shows "Decode 32 raw = Inl DecodePanic"
proof -
  let ?l = "uint (be_uint32 (subslice 9 13 raw))"
  let ?need = "wrap_int 32 (int headerSize + wrap_int 32 ?l)"
  have l: "?l < 2 ^ 32" by (rule uint_less_2p31)
  have "?need < int headerSize"
  proof (cases "?l < 2 ^ 31")
    case True
    then have "wrap_int 32 ?l = ?l" by (intro wrap_int_id) simp_all
    moreover have "wrap_int 32 (int headerSize + ?l) = int headerSize + ?l - 2 ^ 32"
      using assms(2) True by (subst wrap_int_over) (simp_all add: headerSize_def)
    ultimately show ?thesis using l by simp
  next
    case False
    then have w: "wrap_int 32 ?l = ?l - 2 ^ 32" using l by (subst wrap_int_over) simp_all
    have "wrap_int 32 (int headerSize + (?l - 2 ^ 32)) = int headerSize + (?l - 2 ^ 32)"
      using l False by (intro wrap_int_id) (auto simp: headerSize_def)
    then show ?thesis using l w by simp
  qed
  then show ?thesis
    using assms(1) by (auto simp: Decode_def Let_def)
qed

theorem Decode32_panics_witness:
  "Decode 32 ([2] @ replicate 8 0 @ [255, 255, 255, 255]) = Inl DecodePanic"
  by (rule Decode32_panics) (simp_all add: headerSize_def subslice_def be_uint32_def be_get_def)

end
