(* ===== verification/GoStrings.thy ===== *)
theory GoStrings
  imports Prelude "HOL-Library.Char_ord"
begin

text \<open>
  The parts of Go's \<open>strings\<close>, \<open>strconv\<close>, \<open>fmt\<close>, \<open>unicode/utf8\<close> and \<open>encoding/binary\<close>
  packages the sources call. A Go string is a byte sequence, here a \<^typ>\<open>string\<close>, whose
  characters are exactly the bytes; functions that look at runes decode UTF-8 first, an ill-formed
  byte being the rune U+FFFD of width one. Facts about strings of plain ASCII are collected in
  \<open>ascii_simps\<close>.
\<close>

named_theorems ascii_simps \<open>string functions on ASCII strings\<close>

abbreviation byte_val :: "char \<Rightarrow> nat" where
  "byte_val c \<equiv> of_char c"

definition is_ascii :: "char \<Rightarrow> bool" where
  "is_ascii c \<longleftrightarrow> byte_val c < 128"

section \<open>UTF-8\<close>

definition cont_in :: "nat \<Rightarrow> nat \<Rightarrow> char \<Rightarrow> bool" where
  "cont_in lo hi c \<longleftrightarrow> lo \<le> byte_val c \<and> byte_val c \<le> hi"

abbreviation cont :: "char \<Rightarrow> bool" where "cont \<equiv> cont_in 128 191"

text \<open>The number of bytes of the well-formed sequence at the start of \<open>s\<close>; 1 when ill-formed.\<close>
definition rune_width :: "string \<Rightarrow> nat" where
  "rune_width s =
     (case s of [] \<Rightarrow> 0 | c # r \<Rightarrow>
       let b = byte_val c;
           ok = (\<lambda>n lo hi. n \<le> length r \<and> cont_in lo hi (r ! 0) \<and> list_all cont (take n r))
       in if 194 \<le> b \<and> b \<le> 223 \<and> ok 1 128 191 then 2
          else if b = 224 \<and> ok 2 160 191 then 3
          else if b = 237 \<and> ok 2 128 159 then 3
          else if 225 \<le> b \<and> b \<le> 239 \<and> b \<noteq> 237 \<and> ok 2 128 191 then 3
          else if b = 240 \<and> ok 3 144 191 then 4
          else if b = 244 \<and> ok 3 128 143 then 4
          else if 241 \<le> b \<and> b \<le> 243 \<and> ok 3 128 191 then 4
          else 1)"

text \<open>The rune that a chunk of \<open>rune_width\<close> bytes encodes.\<close>
definition rune_of :: "string \<Rightarrow> nat" where
  "rune_of s = (case map byte_val s of
       [a] \<Rightarrow> if a < 128 then a else 65533
     | [a, b] \<Rightarrow> (a mod 32) * 64 + b mod 64
     | [a, b, c] \<Rightarrow> (a mod 16) * 4096 + (b mod 64) * 64 + c mod 64
     | [a, b, c, d] \<Rightarrow> (a mod 8) * 262144 + (b mod 64) * 4096 + (c mod 64) * 64 + d mod 64
     | _ \<Rightarrow> 65533)"

lemma rune_width_pos: "s \<noteq> [] \<Longrightarrow> 0 < rune_width s"
  by (cases s) (auto simp: rune_width_def Let_def)

text \<open>The chunks a \<open>range\<close> loop over the string visits.\<close>
function chunks :: "string \<Rightarrow> string list" where
  "chunks s = (if s = [] then [] else take (rune_width s) s # chunks (drop (rune_width s) s))"
  by pat_completeness auto
termination
  by (relation "measure length") (auto simp: rune_width_pos)

declare chunks.simps [simp del]

definition runes :: "string \<Rightarrow> nat list" where
  "runes s = map rune_of (chunks s)"

lemma rune_width_ascii: "is_ascii c \<Longrightarrow> rune_width (c # s) = 1"
  by (simp add: rune_width_def is_ascii_def Let_def)

lemma chunks_Nil [simp]: "chunks [] = []"
  by (subst chunks.simps) simp

lemma chunks_ascii [ascii_simps]: "is_ascii c \<Longrightarrow> chunks (c # s) = [c] # chunks s"
  by (subst chunks.simps) (simp add: rune_width_ascii)

lemma rune_of_ascii [ascii_simps]: "is_ascii c \<Longrightarrow> rune_of [c] = byte_val c"
  by (simp add: rune_of_def is_ascii_def)

lemma runes_ascii [ascii_simps]: "list_all is_ascii s \<Longrightarrow> runes s = map byte_val s"
  by (induction s) (simp_all add: runes_def ascii_simps)

section \<open>\<open>strings.Fields\<close>, \<open>ReplaceAll\<close>, \<open>Join\<close>, \<open>Split\<close>, \<open>HasPrefix\<close>\<close>

text \<open>\<open>unicode.IsSpace\<close>.\<close>
definition is_space :: "nat \<Rightarrow> bool" where
  "is_space r \<longleftrightarrow> r \<in> {9, 10, 11, 12, 13, 32, 133, 160, 5760, 8232, 8233, 8239, 8287, 12288}
     \<or> (8192 \<le> r \<and> r \<le> 8202)"

text \<open>The fields of a chunk sequence; \<open>cur\<close> is the field being read.\<close>
fun fields_loop :: "string list \<Rightarrow> string \<Rightarrow> string list" where
  "fields_loop [] cur = (if cur = [] then [] else [cur])"
| "fields_loop (ch # chs) cur =
     (if is_space (rune_of ch)
      then (if cur = [] then fields_loop chs [] else cur # fields_loop chs [])
      else fields_loop chs (cur @ ch))"

definition Fields :: "string \<Rightarrow> string list" where
  "Fields s = fields_loop (chunks s) []"

text \<open>\<open>strings.ReplaceAll\<close> where both patterns are one ASCII byte.\<close>
definition ReplaceAll1 :: "char \<Rightarrow> char \<Rightarrow> string \<Rightarrow> string" where
  "ReplaceAll1 a b s = map (\<lambda>c. if c = a then b else c) s"

fun Join :: "string list \<Rightarrow> string \<Rightarrow> string" where
  "Join [] sep = []"
| "Join [w] sep = w"
| "Join (w # v # ws) sep = w @ sep @ Join (v # ws) sep"

text \<open>\<open>strings.Split\<close> at a one-byte separator: always at least one piece.\<close>
fun Split1 :: "char \<Rightarrow> string \<Rightarrow> string list" where
  "Split1 a [] = [[]]"
| "Split1 a (c # s) =
     (if c = a then [] # Split1 a s
      else (case Split1 a s of [] \<Rightarrow> [[c]] | w # ws \<Rightarrow> (c # w) # ws))"

definition HasPrefix :: "string \<Rightarrow> string \<Rightarrow> bool" where
  "HasPrefix s pre \<longleftrightarrow> length pre \<le> length s \<and> take (length pre) s = pre"

lemma HasPrefix_iff: "HasPrefix s pre \<longleftrightarrow> prefix pre s"
  unfolding HasPrefix_def
  by (metis append_eq_conv_conj append_take_drop_id prefix_def prefix_length_le)

definition ascii_space :: "char \<Rightarrow> bool" where
  "ascii_space c \<longleftrightarrow> is_ascii c \<and> is_space (byte_val c)"

definition ascii_word :: "string \<Rightarrow> bool" where
  "ascii_word w \<longleftrightarrow> w \<noteq> [] \<and> list_all (\<lambda>c. is_ascii c \<and> \<not> is_space (byte_val c)) w"

lemma fields_loop_word:
  assumes "list_all (\<lambda>c. is_ascii c \<and> \<not> is_space (byte_val c)) w"
  shows "fields_loop (chunks (w @ s)) cur = fields_loop (chunks s) (cur @ w)"
  using assms by (induction w arbitrary: cur) (simp_all add: ascii_simps)

lemma fields_loop_space:
  assumes "ascii_space c"
  shows "fields_loop (chunks (c # s)) cur = (if cur = [] then Fields s else cur # Fields s)"
  using assms by (simp add: ascii_space_def ascii_simps Fields_def)

lemma Fields_word_end: "ascii_word w \<Longrightarrow> Fields w = [w]"
  using fields_loop_word[of w "[]" "[]"] by (simp add: Fields_def ascii_word_def)

lemma Fields_word:
  "ascii_word w \<Longrightarrow> ascii_space c \<Longrightarrow> Fields (w @ c # s) = w # Fields s"
  using fields_loop_word[of w "c # s" "[]"]
  by (simp add: Fields_def ascii_word_def fields_loop_space)

lemma Fields_Nil [simp]: "Fields [] = []"
  by (simp add: Fields_def)

section \<open>\<open>strings.EqualFold\<close>\<close>

text \<open>
  Equality of two runes under simple case folding, for a second rune that is ASCII, which every
  letter of the word tables is. Beside the two cases of an ASCII letter, U+017F folds to \<open>s\<close> and
  U+212A (the Kelvin sign) to \<open>k\<close>.
\<close>
definition rune_fold_eq :: "nat \<Rightarrow> nat \<Rightarrow> bool" where
  "rune_fold_eq a b \<longleftrightarrow> a = b
     \<or> (65 \<le> a \<and> a \<le> 90 \<and> b = a + 32)
     \<or> (65 \<le> b \<and> b \<le> 90 \<and> a = b + 32)
     \<or> (a = 383 \<and> b \<in> {83, 115})
     \<or> (a = 8490 \<and> b \<in> {75, 107})"

definition EqualFold :: "string \<Rightarrow> string \<Rightarrow> bool" where
  "EqualFold s t = list_all2 rune_fold_eq (runes s) (runes t)"

text \<open>The table words are strings of lower-case ASCII letters.\<close>
definition is_lower :: "char \<Rightarrow> bool" where
  "is_lower c \<longleftrightarrow> 97 \<le> byte_val c \<and> byte_val c \<le> 122"

definition lower_word :: "string \<Rightarrow> bool" where
  "lower_word w \<longleftrightarrow> w \<noteq> [] \<and> list_all is_lower w"

lemma is_lower_ascii [simp]: "is_lower c \<Longrightarrow> is_ascii c"
  by (simp add: is_lower_def is_ascii_def)

lemma lower_word_ascii: "lower_word w \<Longrightarrow> list_all is_ascii w"
  by (auto simp: lower_word_def list_all_iff)

lemma lower_not_space: "is_lower c \<Longrightarrow> \<not> is_space (byte_val c)"
  by (auto simp: is_lower_def is_space_def)

lemma lower_word_ascii_word: "lower_word w \<Longrightarrow> ascii_word w"
  by (auto simp: lower_word_def ascii_word_def list_all_iff lower_not_space)

text \<open>A letter in either case.\<close>
definition case_variant :: "char \<Rightarrow> char \<Rightarrow> bool" where
  "case_variant c d \<longleftrightarrow> c = d \<or> (is_lower d \<and> byte_val c + 32 = byte_val d)"

lemma case_variant_refl [simp]: "case_variant c c"
  by (simp add: case_variant_def)

lemma rune_fold_eq_variant:
  "case_variant c d \<Longrightarrow> is_lower d \<Longrightarrow> is_lower e
   \<Longrightarrow> rune_fold_eq (byte_val c) (byte_val e) \<longleftrightarrow> d = e"
  by (auto simp: case_variant_def rune_fold_eq_def is_lower_def dest: injD[OF inj_of_char])

lemma variant_ascii: "list_all2 case_variant v w \<Longrightarrow> list_all is_ascii w \<Longrightarrow> list_all is_ascii v"
  by (induction rule: list_all2_induct) (auto simp: case_variant_def is_ascii_def is_lower_def)

text \<open>A word in any mix of cases equals exactly the lower-case word it is a variant of.\<close>
lemma EqualFold_variant_iff:
  assumes "list_all2 case_variant v w" "list_all is_lower w" "list_all is_lower u"
  shows "EqualFold v u \<longleftrightarrow> w = u"
proof -
  have a: "list_all is_ascii w" "list_all is_ascii u" using assms(2,3) by (auto simp: list_all_iff)
  have "list_all2 (\<lambda>c d. rune_fold_eq (byte_val c) (byte_val d)) v u \<longleftrightarrow> w = u"
    using assms
  proof (induction arbitrary: u rule: list_all2_induct)
    case Nil
    then show ?case by auto
  next
    case (Cons c v d w)
    then show ?case by (cases u) (auto simp: rune_fold_eq_variant)
  qed
  then show ?thesis
    using variant_ascii[OF assms(1) a(1)] a by (simp add: EqualFold_def runes_ascii list.rel_map)
qed

section \<open>Numbers: \<open>strconv\<close> and \<open>fmt\<close>\<close>

definition digit_char :: "nat \<Rightarrow> char" where
  "digit_char d = char_of (if d < 10 then 48 + d else 87 + d)"

fun nat_digits :: "nat \<Rightarrow> nat \<Rightarrow> string" where
  "nat_digits b n =
     (if b < 2 \<or> n < b then [digit_char n] else nat_digits b (n div b) @ [digit_char (n mod b)])"

declare nat_digits.simps [simp del]

text \<open>\<open>strconv.FormatInt\<close>: the verbs \<open>%d\<close> and \<open>%o\<close> of \<open>fmt\<close> on a signed integer.\<close>
definition FormatInt :: "nat \<Rightarrow> int \<Rightarrow> string" where
  "FormatInt b x = (if x < 0 then CHR ''-'' # nat_digits b (nat (- x)) else nat_digits b (nat x))"

definition Itoa :: "goint \<Rightarrow> string" where
  "Itoa x = FormatInt 10 (sint x)"

text \<open>The verb \<open>%03o\<close> on a number that is not negative.\<close>
definition Format03o :: "nat \<Rightarrow> string" where
  "Format03o n = (let ds = nat_digits 8 n in replicate (3 - length ds) (CHR ''0'') @ ds)"

definition digit_val :: "char \<Rightarrow> nat option" where
  "digit_val c = (let b = byte_val c in
     if 48 \<le> b \<and> b \<le> 57 then Some (b - 48)
     else if 97 \<le> b \<and> b \<le> 122 then Some (b - 87)
     else if 65 \<le> b \<and> b \<le> 90 then Some (b - 55)
     else None)"

fun parse_digits :: "nat \<Rightarrow> nat \<Rightarrow> string \<Rightarrow> nat option" where
  "parse_digits b acc [] = Some acc"
| "parse_digits b acc (c # cs) =
     (case digit_val c of None \<Rightarrow> None
      | Some d \<Rightarrow> if d < b then parse_digits b (acc * b + d) cs else None)"

text \<open>
  \<open>strconv.ParseInt(s, base, bitSize)\<close> for an explicit base; \<open>None\<close> stands for an error
  (syntax or range). \<open>strconv.Atoi(s)\<close> is \<open>ParseInt(s, 10, 64)\<close> on a 64-bit target.
\<close>
definition ParseInt :: "nat \<Rightarrow> nat \<Rightarrow> string \<Rightarrow> int option" where
  "ParseInt base bits s =
     (let neg = (case s of [] \<Rightarrow> False | c # _ \<Rightarrow> c = CHR ''-'');
          ds = (case s of [] \<Rightarrow> [] | c # cs \<Rightarrow> if c = CHR ''-'' \<or> c = CHR ''+'' then cs else s)
      in if ds = [] then None
         else case parse_digits base 0 ds of None \<Rightarrow> None
         | Some n \<Rightarrow>
             if \<not> neg \<and> 2 ^ (bits - 1) \<le> n then None
             else if neg \<and> 2 ^ (bits - 1) < n then None
             else Some (if neg then - int n else int n))"

definition Atoi :: "string \<Rightarrow> goint option" where
  "Atoi s = map_option of_int (ParseInt 10 64 s)"

lemma of_char_digit [simp]: "d < 36 \<Longrightarrow> byte_val (digit_char d) = (if d < 10 then 48 + d else 87 + d)"
  by (simp add: digit_char_def)

lemma digit_val_digit_char [simp]: "d < 36 \<Longrightarrow> digit_val (digit_char d) = Some d"
  by (simp add: digit_val_def Let_def)

lemma parse_digits_append:
  "parse_digits b a (xs @ ys)
   = (case parse_digits b a xs of None \<Rightarrow> None | Some n \<Rightarrow> parse_digits b n ys)"
  by (induction xs arbitrary: a) (auto split: option.splits)

lemma parse_digits_zeros: "0 < b \<Longrightarrow> parse_digits b 0 (replicate k (CHR ''0'') @ ds) = parse_digits b 0 ds"
  by (induction k) (auto simp: digit_val_def Let_def)

lemma parse_nat_digits:
  assumes "2 \<le> b" "b \<le> 36"
  shows "parse_digits b 0 (nat_digits b n) = Some n"
  using assms
proof (induction b n rule: nat_digits.induct)
  case (1 b n)
  show ?case
  proof (cases "n < b")
    case True
    with 1 show ?thesis by (subst nat_digits.simps) simp
  next
    case False
    with 1 have "parse_digits b 0 (nat_digits b (n div b)) = Some (n div b)" by simp
    moreover have "n mod b < 36" using 1(3) mod_less_divisor[of b n] 1(2) by linarith
    ultimately show ?thesis
      using 1 False by (subst nat_digits.simps) (simp add: parse_digits_append)
  qed
qed

definition is_digit :: "char \<Rightarrow> bool" where
  "is_digit c \<longleftrightarrow> 48 \<le> byte_val c \<and> byte_val c \<le> 57"

lemma nat_digits_digit: "2 \<le> b \<Longrightarrow> b \<le> 10 \<Longrightarrow> list_all is_digit (nat_digits b n)"
proof (induction b n rule: nat_digits.induct)
  case (1 b n)
  then have "is_digit (digit_char d)" if "d < b" for d
    using that by (simp add: is_digit_def)
  with 1 show ?case by (subst nat_digits.simps) simp
qed

lemma nat_digits_nonempty [simp]: "nat_digits b n \<noteq> []"
  by (subst nat_digits.simps) simp

lemma digits_ascii_word: "list_all is_digit ds \<Longrightarrow> ds \<noteq> [] \<Longrightarrow> ascii_word ds"
  by (auto simp: ascii_word_def list_all_iff is_digit_def is_ascii_def is_space_def)

lemma is_digit_not_sign: "is_digit c \<Longrightarrow> c \<noteq> CHR ''-'' \<and> c \<noteq> CHR ''+''"
  by (auto simp: is_digit_def)

lemma ParseInt_digits:
  assumes "list_all is_digit ds" "ds \<noteq> []" "parse_digits b 0 ds = Some n" "n < 2 ^ (bits - 1)"
  shows "ParseInt b bits ds = Some (int n)"
  using assms is_digit_not_sign by (cases ds) (auto simp: ParseInt_def Let_def)

lemma ParseInt_nat_digits:
  assumes "2 \<le> b" "b \<le> 10" "n < 2 ^ (bits - 1)"
  shows "ParseInt b bits (nat_digits b n) = Some (int n)"
  using assms by (intro ParseInt_digits) (simp_all add: nat_digits_digit parse_nat_digits)

lemma nat_sint_less: "0 \<le> sint (x :: goint) \<Longrightarrow> nat (sint x) < 2 ^ 63"
  using sint_lt[of x] by simp

lemma FormatInt_nonneg: "0 \<le> x \<Longrightarrow> FormatInt b x = nat_digits b (nat x)"
  by (simp add: FormatInt_def)

lemma Atoi_Itoa: "0 \<le> sint x \<Longrightarrow> Atoi (Itoa x) = Some x"
  using nat_sint_less[of x] by (simp add: Atoi_def Itoa_def FormatInt_nonneg ParseInt_nat_digits)

lemma ParseInt8_FormatInt:
  "0 \<le> sint (x :: goint) \<Longrightarrow> ParseInt 8 64 (FormatInt 8 (sint x)) = Some (sint x)"
  using nat_sint_less[of x] by (simp add: FormatInt_nonneg ParseInt_nat_digits)

lemma Format03o_digits: "list_all is_digit (Format03o n)" "Format03o n \<noteq> []"
  using nat_digits_digit[of 8 n]
  by (auto simp: Format03o_def Let_def is_digit_def list_all_iff)

lemma ParseInt_Format03o: "n < 2 ^ 15 \<Longrightarrow> ParseInt 8 16 (Format03o n) = Some (int n)"
  using Format03o_digits[of n]
  by (intro ParseInt_digits) (simp_all add: Format03o_def Let_def parse_digits_zeros parse_nat_digits)

section \<open>Varints: \<open>encoding/binary\<close>\<close>

text \<open>\<open>binary.PutUvarint\<close>: the bytes it stores; \<open>MaxVarintLen64\<close> is 10.\<close>
function PutUvarint :: "u64 \<Rightarrow> byte list" where
  "PutUvarint x =
     (if 0x80 \<le> x then (ucast x OR 0x80) # PutUvarint (drop_bit 7 x) else [ucast x])"
  by pat_completeness auto
termination
proof (relation "measure unat")
  fix x :: u64 assume "0x80 \<le> x"
  then have "0 < unat x" by (simp add: word_le_nat_alt)
  then have "unat x div 2 ^ 7 < unat x" by simp
  then show "(drop_bit 7 x, x) \<in> measure unat"
    by (simp add: drop_bit_eq_div unat_div)
qed simp

declare PutUvarint.simps [simp del]

text \<open>
  The loop of \<open>binary.Uvarint\<close>: index \<open>i\<close>, accumulator \<open>x\<close> and shift \<open>s\<close> as in the library. The
  result is the value and the number of bytes read; the number is 0 when the buffer ends early and
  negative when the value overflows 64 bits.
\<close>
fun uvarint_loop :: "nat \<Rightarrow> u64 \<Rightarrow> nat \<Rightarrow> byte list \<Rightarrow> u64 \<times> int" where
  "uvarint_loop i x s [] = (0, 0)"
| "uvarint_loop i x s (b # bs) =
     (if i = 10 then (0, - (int i + 1))
      else if b < 0x80 then
        (if i = 9 \<and> 1 < b then (0, - (int i + 1)) else (x OR push_bit s (ucast b), int i + 1))
      else uvarint_loop (i + 1) (x OR push_bit s (ucast (b AND 0x7f))) (s + 7) bs)"

definition Uvarint :: "byte list \<Rightarrow> u64 \<times> int" where
  "Uvarint buf = uvarint_loop 0 0 0 buf"

lemma continuation_byte:
  fixes v :: u64
  shows "\<not> (ucast v OR 0x80 :: byte) < 0x80"
    and "(ucast v OR 0x80 :: byte) AND 0x7f = ucast (take_bit 7 v)"
proof -
  have m: "(0x7f :: byte) = mask 7" by (simp add: mask_eq_exp_minus_1)
  obtain k :: byte where k: "k = 0x80" and e: "bit k n \<longleftrightarrow> n = 7" for n
    using bit_push_bit_iff[of 7 "1 :: byte"] by (force simp: bit_simps)
  have "(0x80 :: byte) \<le> ucast v OR 0x80"
    by (rule le_word_or1)
  then show "\<not> (ucast v OR 0x80 :: byte) < 0x80" by simp
  show "(ucast v OR 0x80 :: byte) AND 0x7f = ucast (take_bit 7 v)"
    unfolding m k[symmetric] by (rule bit_word_eqI) (auto simp: bit_simps e)
qed

lemma push_bit_septets:
  fixes v :: u64
  shows "push_bit s (ucast (ucast (take_bit 7 v) :: byte)) OR push_bit (s + 7) (drop_bit 7 v)
         = push_bit s v"
proof (rule bit_word_eqI)
  fix n assume "n < LENGTH(64)"
  then show "bit (push_bit s (ucast (ucast (take_bit 7 v) :: byte))
                  OR push_bit (s + 7) (drop_bit 7 v)) n = bit (push_bit s v) n"
    by (cases "n < s + 7") (auto simp: bit_simps)
qed

lemma uvarint_loop_put:
  assumes "i \<le> 9" "unat v < 2 ^ (64 - 7 * i)"
  shows "uvarint_loop i x (7 * i) (PutUvarint v @ rest)
         = (x OR push_bit (7 * i) v, int (i + length (PutUvarint v)))"
  using assms
proof (induction v arbitrary: i x rule: PutUvarint.induct)
  case (1 v)
  show ?case
  proof (cases "0x80 \<le> v")
    case False
    then have v: "unat v < 128" by (simp add: word_le_nat_alt)
    then have "ucast (ucast v :: byte) = v"
      by (intro word_unat_eq_iff[THEN iffD2]) (simp add: unsigned_ucast_eq take_bit_eq_mod unat_mod)
    moreover have "(ucast v :: byte) < 0x80"
      using v by (simp add: word_less_nat_alt unsigned_ucast_eq take_bit_eq_mod)
    moreover have "\<not> (1 < (ucast v :: byte))" if "i = 9"
      using that 1(3) by (simp add: word_less_nat_alt unsigned_ucast_eq take_bit_eq_mod)
    ultimately show ?thesis
      using False 1(2) by (subst (1 2) PutUvarint.simps) auto
  next
    case True
    then have big: "128 \<le> unat v" by (simp add: word_le_nat_alt)
    have i: "i \<le> 8"
    proof (rule ccontr)
      assume "\<not> i \<le> 8"
      then have "i = 9" using 1(2) by simp
      then show False using big 1(3) by simp
    qed
    have "unat v < 2 ^ (64 - 7 * (i + 1)) * 2 ^ 7"
    proof -
      have "64 - 7 * i = (64 - 7 * (i + 1)) + 7" using i by simp
      then have "(2::nat) ^ (64 - 7 * i) = 2 ^ (64 - 7 * (i + 1)) * 2 ^ 7"
        by (simp only: power_add)
      then show ?thesis using 1(3) by simp
    qed
    then have lt: "unat (drop_bit 7 v) < 2 ^ (64 - 7 * (i + 1))"
      by (simp add: drop_bit_eq_div unat_div less_mult_imp_div_less)
    have s: "7 * i + 7 = 7 * Suc i" by simp
    show ?thesis
      using True i "1.IH"[OF True, of "i + 1"] lt
      by (subst (1 2) PutUvarint.simps)
        (simp add: continuation_byte s or.assoc push_bit_septets[of "7 * i", unfolded s]
          del: mult_Suc_right)
  qed
qed

lemma Uvarint_PutUvarint: "Uvarint (PutUvarint x @ rest) = (x, int (length (PutUvarint x)))"
  using uvarint_loop_put[of 0 x 0 rest] unsigned_less[of x] by (simp add: Uvarint_def)

lemma PutUvarint_nonempty [simp]: "PutUvarint x \<noteq> []"
  by (subst PutUvarint.simps) simp

end
