(* ===== verification/Conn.thy ===== *)
theory Conn
  imports Protocol GoStrings
begin

text \<open>
  One virtual connection of a tunnel, the type \<open>tunnelConn\<close> of \<open>src/wormhole/tunnel/session.go\<close>.
  An operation that waits in a \<open>select\<close> is the list of its possible outcomes, one for each case that
  is ready; the empty list means that it blocks. A closed channel is \<open>True\<close>. What the two ends
  of a connection rely on is the locale \<open>byte_stream\<close>: bytes come out in the order they went in.
\<close>

datatype io_error = EOF | ErrClosed | WriteError

text \<open>\<open>sync.Once\<close>: a call that finds the first one still running waits for it.\<close>
datatype once_state = Unstarted | Running | Finished

record tunnelConn =
  tc_id :: u64
  readBuf :: "byte list"
  readCh :: "byte list list"
  closeCh :: bool
  once :: once_state
  tc_closed :: bool

definition readChCap :: nat where "readChCap = 64"

definition newTunnelConn :: "u64 \<Rightarrow> tunnelConn" where
  "newTunnelConn cid = \<lparr>tc_id = cid, readBuf = [], readCh = [], closeCh = False,
                        once = Unstarted, tc_closed = False\<rparr>"

text \<open>\<open>c.readBuf.Read(p)\<close> with \<open>n = len(p)\<close> and a buffer that is not empty.\<close>
definition buf_read :: "nat \<Rightarrow> tunnelConn \<Rightarrow> (io_error + byte list) \<times> tunnelConn" where
  "buf_read n c = (Inr (take n (readBuf c)), c\<lparr>readBuf := drop n (readBuf c)\<rparr>)"

text \<open>
  \<open>Read\<close>: the loop runs a second time only after it filled the buffer, and then returns.
\<close>
definition tc_Read :: "nat \<Rightarrow> tunnelConn \<Rightarrow> ((io_error + byte list) \<times> tunnelConn) list" where
  "tc_Read n c =
     (if readBuf c \<noteq> [] then [buf_read n c]
      else
        (case readCh c of [] \<Rightarrow> []
         | data # rest \<Rightarrow>
             let c = c\<lparr>readCh := rest\<rparr>
             in if data = [] then [(Inl EOF, c)]
                else [buf_read n (c\<lparr>readBuf := readBuf c @ data\<rparr>)])
        @ (if closeCh c then [(Inl EOF, c)] else []))"

definition push_data :: "byte list \<Rightarrow> tunnelConn \<Rightarrow> tunnelConn" where
  "push_data data c = c\<lparr>readCh := readCh c @ [data]\<rparr>"

text \<open>\<open>deliverData\<close>; the flag tells whether the data went into the channel.\<close>
definition deliverData :: "byte list \<Rightarrow> tunnelConn \<Rightarrow> (bool \<times> tunnelConn) list" where
  "deliverData data c =
     (if length (readCh c) < readChCap then [(True, push_data data c)] else [])
     @ (if closeCh c then [(False, c)] else [])"

text \<open>What both \<open>Close\<close> and \<open>remoteClose\<close> do to the connection inside \<open>c.once.Do\<close>.\<close>
definition shut :: "once_state \<Rightarrow> tunnelConn \<Rightarrow> tunnelConn" where
  "shut o1 c = c\<lparr>once := o1, tc_closed := True, closeCh := True\<rparr>"

text \<open>The bytes that were delivered and not yet read.\<close>
definition pending :: "tunnelConn \<Rightarrow> byte list" where
  "pending c = readBuf c @ concat (readCh c)"

text \<open>The three marks of a closed connection agree, and the channel keeps its capacity.\<close>
definition conn_ok :: "tunnelConn \<Rightarrow> bool" where
  "conn_ok c \<longleftrightarrow> closeCh c = tc_closed c \<and> tc_closed c = (once c \<noteq> Unstarted)
     \<and> length (readCh c) \<le> readChCap"

text \<open>The addresses of a connection; its three \<open>SetDeadline\<close> methods do nothing and return \<open>nil\<close>.\<close>
definition tunnelAddr_Network :: string where "tunnelAddr_Network = ''tunnel''"

definition tunnelAddr_String :: "u64 \<Rightarrow> string" where
  "tunnelAddr_String cid = ''tunnel:'' @ nat_digits 10 (unat cid)"

definition LocalAddr :: "tunnelConn \<Rightarrow> u64" where "LocalAddr c = tc_id c"

definition RemoteAddr :: "tunnelConn \<Rightarrow> u64" where "RemoteAddr c = tc_id c"

definition SetDeadline :: "int \<Rightarrow> tunnelConn \<Rightarrow> io_error option \<times> tunnelConn" where
  "SetDeadline t c = (None, c)"

section \<open>The stream contract\<close>

text \<open>
  A buffer that hands out what was put in, in order: \<open>view\<close> is what is still inside, \<open>put\<close> appends,
  and \<open>get\<close> lists what a read may return, an error leaving the contents alone.
\<close>
locale byte_stream =
  fixes view :: "'c \<Rightarrow> byte list"
    and put :: "byte list \<Rightarrow> 'c \<Rightarrow> 'c"
    and get :: "nat \<Rightarrow> 'c \<Rightarrow> ((io_error + byte list) \<times> 'c) list"
  assumes view_put: "view (put d c) = view c @ d"
    and view_get: "(Inr b, c') \<in> set (get n c) \<Longrightarrow> view c = b @ view c'"
    and view_fail: "(Inl e, c') \<in> set (get n c) \<Longrightarrow> view c' = view c"
    and get_length: "(Inr b, c') \<in> set (get n c) \<Longrightarrow> length b \<le> n"
begin

text \<open>A use of the buffer: each item is a put or a read with its result.\<close>
inductive uses :: "'c \<Rightarrow> (byte list + byte list) list \<Rightarrow> 'c \<Rightarrow> bool" where
  uses_nil: "uses c [] c"
| uses_put: "uses c us c' \<Longrightarrow> uses c (us @ [Inl d]) (put d c')"
| uses_get: "uses c us c' \<Longrightarrow> (Inr b, c'') \<in> set (get n c') \<Longrightarrow> uses c (us @ [Inr b]) c''"
| uses_fail: "uses c us c' \<Longrightarrow> (Inl e, c'') \<in> set (get n c') \<Longrightarrow> uses c us c''"

definition ins :: "(byte list + byte list) list \<Rightarrow> byte list" where
  "ins us = concat (map (case_sum id (\<lambda>_. [])) us)"

definition outs :: "(byte list + byte list) list \<Rightarrow> byte list" where
  "outs us = concat (map (case_sum (\<lambda>_. []) id) us)"

lemma uses_balance: "uses c us c' \<Longrightarrow> view c @ ins us = outs us @ view c'"
  by (induction rule: uses.induct) (simp_all add: ins_def outs_def view_put view_get view_fail)

text \<open>What was read is a prefix of what was there and was put in.\<close>
lemma uses_prefix: "uses c us c' \<Longrightarrow> prefix (outs us) (view c @ ins us)"
  using uses_balance by (metis prefixI)

end

lemma buf_read_view: "buf_read n c = (Inr b, c') \<Longrightarrow> pending c = b @ pending c' \<and> length b \<le> n"
  by (auto simp: buf_read_def pending_def)

interpretation conn_stream: byte_stream pending push_data tc_Read
proof
  show "pending (push_data d c) = pending c @ d" for d c
    by (simp add: pending_def push_data_def)
next
  fix b c' n c assume r: "(Inr b, c') \<in> set (tc_Read n c)"
  have "pending c = b @ pending c' \<and> length b \<le> n"
  proof (cases "readBuf c = []")
    case False
    with r show ?thesis using buf_read_view[of n c b c'] by (simp add: tc_Read_def)
  next
    case True
    show ?thesis
    proof (cases "readCh c")
      case Nil
      with r True show ?thesis by (simp add: tc_Read_def split: if_splits)
    next
      case (Cons d ds)
      with r True have b: "buf_read n (c\<lparr>readCh := ds, readBuf := d\<rparr>) = (Inr b, c')"
        by (auto simp: tc_Read_def Let_def split: if_splits)
      show ?thesis using buf_read_view[OF b] True Cons by (simp add: pending_def)
    qed
  qed
  then show "pending c = b @ pending c'" "length b \<le> n" by auto
next
  show "pending c' = pending c" if "(Inl e, c') \<in> set (tc_Read n c)" for e c' n c
    using that by (auto simp: tc_Read_def buf_read_def pending_def Let_def split: list.splits if_splits)
qed

section \<open>Single operations\<close>

lemma conn_ok_new [simp]: "conn_ok (newTunnelConn cid)"
  by (simp add: conn_ok_def newTunnelConn_def readChCap_def)

lemma conn_ok_shut [simp]: "conn_ok c \<Longrightarrow> o1 \<noteq> Unstarted \<Longrightarrow> conn_ok (shut o1 c)"
  by (auto simp: conn_ok_def shut_def)

lemma conn_ok_read: "conn_ok c \<Longrightarrow> (r, c') \<in> set (tc_Read n c) \<Longrightarrow> conn_ok c'"
  by (auto simp: conn_ok_def tc_Read_def buf_read_def Let_def split: list.splits if_splits)

lemma conn_ok_deliver: "conn_ok c \<Longrightarrow> (p, c') \<in> set (deliverData d c) \<Longrightarrow> conn_ok c'"
  by (auto simp: conn_ok_def deliverData_def push_data_def split: if_splits)

end
