(* ===== verification/Session.thy ===== *)
theory Session
  imports Conn "HOL-Library.AList"
begin

text \<open>
  The multiplexing session of a tunnel, the type \<open>Session\<close> of
  \<open>src/wormhole/tunnel/session.go\<close>, as a step relation over its goroutines: any number of
  callers of the API, the read loop and the write loop. Connections and write requests live in
  two heaps and are named by their index. A \<open>select\<close> is the list of the cases that are ready
  (empty: it blocks), so every choice of the run-time is a choice of the relation; a stretch of
  code between two points where it can block or be observed half way is one step. The record
  transport \<open>RecordIO\<close> is the environment: any record may be received at any time, and any
  read or write of a record may fail. The target's \<open>int\<close> has 64 bits.
\<close>

section \<open>State\<close>

text \<open>\<open>wr_err\<close> is the request's channel of capacity one.\<close>
record writeRequest =
  wr_data :: "byte list"
  wr_err :: "io_error option option"

datatype prio = Control | Data

record session =
  conns :: "(u64 \<times> nat) list"
  nextID :: u64
  stopCh :: bool
  controlCh :: "nat list"
  dataCh :: "nat list"
  connCh :: "nat list"
  ln_closed :: bool
  rw_closed :: bool
  heap :: "tunnelConn list"
  reqs :: "writeRequest list"
  owned :: "nat list"

definition controlCap :: nat where "controlCap = 64"
definition dataCap :: nat where "dataCap = 256"
definition connChCap :: nat where "connChCap = 64"

definition NewSession :: session where
  "NewSession = \<lparr>conns = [], nextID = 0, stopCh = False, controlCh = [], dataCh = [],
     connCh = [], ln_closed = False, rw_closed = False, heap = [], reqs = [], owned = []\<rparr>"

definition chan :: "prio \<Rightarrow> session \<Rightarrow> nat list" where
  "chan ch s = (case ch of Control \<Rightarrow> controlCh s | Data \<Rightarrow> dataCh s)"

definition set_chan :: "prio \<Rightarrow> nat list \<Rightarrow> session \<Rightarrow> session" where
  "set_chan ch qs s =
     (case ch of Control \<Rightarrow> s\<lparr>controlCh := qs\<rparr> | Data \<Rightarrow> s\<lparr>dataCh := qs\<rparr>)"

definition chan_cap :: "prio \<Rightarrow> nat" where
  "chan_cap ch = (case ch of Control \<Rightarrow> controlCap | Data \<Rightarrow> dataCap)"

definition set_conn :: "nat \<Rightarrow> tunnelConn \<Rightarrow> session \<Rightarrow> session" where
  "set_conn r c s = s\<lparr>heap := (heap s)[r := c]\<rparr>"

definition conns_Delete :: "u64 \<Rightarrow> session \<Rightarrow> session" where
  "conns_Delete cid s = s\<lparr>conns := AList.delete cid (conns s)\<rparr>"

text \<open>\<open>conn := newTunnelConn(id, s); s.conns.Store(id, conn)\<close>\<close>
definition conns_Store :: "u64 \<Rightarrow> session \<Rightarrow> session" where
  "conns_Store cid s = s\<lparr>heap := heap s @ [newTunnelConn cid],
     conns := AList.update cid (length (heap s)) (conns s)\<rparr>"

text \<open>What an observer sees of a step; \<open>Routed\<close> is the look-up of a data message's connection.\<close>
datatype event =
    Tau
  | NextID u64
  | Stored nat u64
  | Queued prio nat
  | Took prio nat
  | Wrote nat "byte list"
  | WriteFailed nat
  | Recv "byte list"
  | RecvFailed
  | Routed u64 "byte list"
  | Delivered nat "byte list"
  | Dropped nat "byte list"
  | ReadOk nat "byte list"
  | ReadErr nat io_error
  | DialOk nat
  | DialErr
  | WriteOk nat "byte list"
  | WriteErr nat io_error
  | CloseStart nat
  | CloseDone nat
  | Accepted nat
  | AcceptErr
  | Stopped
  | RwClosed
  | SessClosed

section \<open>Sending a record\<close>

text \<open>
  A goroutine inside \<open>sendControl\<close> or \<open>enqueueData\<close>: at the first \<open>select\<close> with its message, or
  at the second one, waiting for the answer to its request.
\<close>
datatype sender = Sending prio "byte list" | Waiting nat

definition sendControl :: "byte list \<Rightarrow> sender" where "sendControl msg = Sending Control msg"
definition enqueueData :: "byte list \<Rightarrow> sender" where "enqueueData msg = Sending Data msg"
definition sendData :: "u64 \<Rightarrow> byte list \<Rightarrow> sender" where
  "sendData connID data = enqueueData (EncodeData connID data)"
definition sendClose :: "u64 \<Rightarrow> sender" where
  "sendClose connID = sendControl (EncodeClose connID)"

definition enqueue :: "prio \<Rightarrow> byte list \<Rightarrow> session \<Rightarrow> session" where
  "enqueue ch msg s = set_chan ch (chan ch s @ [length (reqs s)])
     (s\<lparr>reqs := reqs s @ [\<lparr>wr_data = msg, wr_err = None\<rparr>]\<rparr>)"

definition set_reply :: "nat \<Rightarrow> io_error option option \<Rightarrow> session \<Rightarrow> session" where
  "set_reply q e s = s\<lparr>reqs := (reqs s)[q := (reqs s ! q)\<lparr>wr_err := e\<rparr>]\<rparr>"

text \<open>The two \<open>select\<close>s: the sender goes on (\<open>Inl\<close>) or returns its error (\<open>Inr\<close>).\<close>
definition send_steps :: "sender \<Rightarrow> session \<Rightarrow> (event \<times> (sender + io_error option) \<times> session) list" where
  "send_steps sn s =
     (case sn of
        Sending ch msg \<Rightarrow>
          if length (chan ch s) < chan_cap ch
          then [(Queued ch (length (reqs s)), Inl (Waiting (length (reqs s))), enqueue ch msg s)]
          else []
      | Waiting q \<Rightarrow>
          (case wr_err (reqs s ! q) of
             None \<Rightarrow> []
           | Some e \<Rightarrow> [(Tau, Inr e, set_reply q None s)]))
     @ (if stopCh s then [(Tau, Inr (Some ErrClosed), s)] else [])"

section \<open>Closing\<close>

text \<open>\<open>remoteClose\<close>: no outcome while another goroutine is inside the same \<open>once\<close>.\<close>
definition remoteClose :: "nat \<Rightarrow> session \<Rightarrow> session list" where
  "remoteClose r s =
     (let c = heap s ! r
      in case once c of
           Unstarted \<Rightarrow> [conns_Delete (tc_id c) (set_conn r (shut Finished c) s)]
         | Running \<Rightarrow> []
         | Finished \<Rightarrow> [s])"

text \<open>\<open>Range\<close> with the entries it visits, in any order.\<close>
primrec closeAll :: "nat list \<Rightarrow> session \<Rightarrow> session list" where
  "closeAll [] s = [s]"
| "closeAll (r # rs) s = concat (map (closeAll rs) (remoteClose r s))"

text \<open>\<open>Session.close\<close>; a stopped session has run its \<open>closeOnce\<close>.\<close>
definition session_close :: "session \<Rightarrow> session list" where
  "session_close s =
     (if stopCh s then [s] else closeAll (map snd (conns s)) (s\<lparr>stopCh := True\<rparr>))"

section \<open>The callers of the API\<close>

datatype api =
    ADial string
  | AWrite nat "byte list"
  | AClose nat
  | ARead nat nat
  | AAccept
  | AListenerClose
  | ASessionClose

text \<open>What a caller does with the result of its sending.\<close>
datatype cont = KDial nat u64 | KWrite nat "byte list" | KClose nat

datatype user =
    UIdle
  | UDialing string
  | UDialed u64 string
  | USend sender cont
  | URwClose
  | UWait

definition Dial :: "string \<Rightarrow> session \<Rightarrow> (event \<times> user \<times> session) list" where
  "Dial addr s = (if stopCh s then [(DialErr, UIdle, s)] else [(Tau, UDialing addr, s)])"

text \<open>\<open>id := atomic.AddUint64(&s.nextID, 1)\<close>\<close>
definition Dial_next :: "string \<Rightarrow> session \<Rightarrow> (event \<times> user \<times> session) list" where
  "Dial_next addr s =
     (let cid = nextID s + 1 in [(NextID cid, UDialed cid addr, s\<lparr>nextID := cid\<rparr>)])"

definition Dial_register :: "u64 \<Rightarrow> string \<Rightarrow> session \<Rightarrow> (event \<times> user \<times> session) list" where
  "Dial_register cid addr s =
     [(Stored (length (heap s)) cid,
       USend (sendControl (EncodeOpen cid addr)) (KDial (length (heap s)) cid), conns_Store cid s)]"

definition tc_Write :: "nat \<Rightarrow> byte list \<Rightarrow> session \<Rightarrow> (event \<times> user \<times> session) list" where
  "tc_Write r p s =
     (if tc_closed (heap s ! r) then [(WriteErr r ErrClosed, UIdle, s)]
      else [(Tau, USend (sendData (tc_id (heap s ! r)) p) (KWrite r p), s)])"

definition tc_Close :: "nat \<Rightarrow> session \<Rightarrow> (event \<times> user \<times> session) list" where
  "tc_Close r s =
     (let c = heap s ! r
      in case once c of
           Unstarted \<Rightarrow> [(CloseStart r, USend (sendClose (tc_id c)) (KClose r),
                          conns_Delete (tc_id c) (set_conn r (shut Running c) s))]
         | Running \<Rightarrow> []
         | Finished \<Rightarrow> [(CloseDone r, UIdle, s)])"

definition conn_Read :: "nat \<Rightarrow> nat \<Rightarrow> session \<Rightarrow> (event \<times> user \<times> session) list" where
  "conn_Read r n s =
     map (\<lambda>(res, c). (case res of Inr b \<Rightarrow> ReadOk r b | Inl e \<Rightarrow> ReadErr r e, UIdle, set_conn r c s))
       (tc_Read n (heap s ! r))"

definition Accept :: "session \<Rightarrow> (event \<times> user \<times> session) list" where
  "Accept s =
     (case connCh s of [] \<Rightarrow> []
      | r # rs \<Rightarrow> [(Accepted r, UIdle, s\<lparr>connCh := rs, owned := r # owned s\<rparr>)])
     @ (if ln_closed s \<or> stopCh s then [(AcceptErr, UIdle, s)] else [])"

definition listener_Close :: "session \<Rightarrow> (event \<times> user \<times> session) list" where
  "listener_Close s = [(Tau, UIdle, s\<lparr>ln_closed := True\<rparr>)]"

text \<open>A call is made on a connection that the caller was given.\<close>
definition api_steps :: "api \<Rightarrow> session \<Rightarrow> (event \<times> user \<times> session) list" where
  "api_steps a s =
     (case a of
        ADial addr \<Rightarrow> Dial addr s
      | AWrite r p \<Rightarrow> if r \<in> set (owned s) then tc_Write r p s else []
      | AClose r \<Rightarrow> if r \<in> set (owned s) then tc_Close r s else []
      | ARead r n \<Rightarrow> if r \<in> set (owned s) then conn_Read r n s else []
      | AAccept \<Rightarrow> Accept s
      | AListenerClose \<Rightarrow> listener_Close s
      | ASessionClose \<Rightarrow> map (\<lambda>s'. (Stopped, URwClose, s')) (session_close s))"

definition resume :: "cont \<Rightarrow> io_error option \<Rightarrow> session \<Rightarrow> event \<times> user \<times> session" where
  "resume k err s =
     (case k of
        KDial r cid \<Rightarrow>
          (case err of None \<Rightarrow> (DialOk r, UIdle, s\<lparr>owned := r # owned s\<rparr>)
           | Some _ \<Rightarrow> (DialErr, UIdle, conns_Delete cid s))
      | KWrite r p \<Rightarrow>
          (case err of None \<Rightarrow> (WriteOk r p, UIdle, s) | Some e \<Rightarrow> (WriteErr r e, UIdle, s))
      | KClose r \<Rightarrow>
          (CloseDone r, UIdle, set_conn r ((heap s ! r)\<lparr>once := Finished\<rparr>) s))"

definition user_steps :: "user \<Rightarrow> session \<Rightarrow> (event \<times> user \<times> session) list" where
  "user_steps u s =
     (case u of
        UIdle \<Rightarrow> []
      | UDialing addr \<Rightarrow> Dial_next addr s
      | UDialed cid addr \<Rightarrow> Dial_register cid addr s
      | USend sn k \<Rightarrow>
          map (\<lambda>(e, res, s'). case res of Inl sn' \<Rightarrow> (e, USend sn' k, s')
                                        | Inr err \<Rightarrow> resume k err s')
            (send_steps sn s)
      | URwClose \<Rightarrow> [(RwClosed, UWait, s\<lparr>rw_closed := True\<rparr>)]
      | UWait \<Rightarrow> [])"

section \<open>The read loop\<close>

datatype rloop =
    RLRead
  | RLHandle Message
  | RLOpened nat u64
  | RLReject sender u64
  | RLDeliver nat "byte list"
  | RLRemoteClose nat
  | RLClosing
  | RLDone

definition on_record :: "byte list \<Rightarrow> rloop" where
  "on_record rec = (case Decode 64 rec of Inl _ \<Rightarrow> RLRead | Inr msg \<Rightarrow> RLHandle msg)"

definition handleOpen :: "Message \<Rightarrow> session \<Rightarrow> (event \<times> rloop \<times> session) list" where
  "handleOpen msg s =
     [(Stored (length (heap s)) (ConnID msg), RLOpened (length (heap s)) (ConnID msg),
       conns_Store (ConnID msg) s)]"

text \<open>The \<open>select\<close> of \<open>handleOpen\<close>; its last two cases do the same.\<close>
definition handleOpen_offer :: "nat \<Rightarrow> u64 \<Rightarrow> session \<Rightarrow> (event \<times> rloop \<times> session) list" where
  "handleOpen_offer r cid s =
     (let room = length (connCh s) < connChCap
      in (if room then [(Tau, RLRead, s\<lparr>connCh := connCh s @ [r]\<rparr>)] else [])
         @ (if stopCh s then [(Tau, RLReject (sendClose cid) cid, s)] else [])
         @ (if \<not> room \<and> \<not> stopCh s then [(Tau, RLReject (sendClose cid) cid, s)] else []))"

definition handleData :: "Message \<Rightarrow> session \<Rightarrow> (event \<times> rloop \<times> session) list" where
  "handleData msg s =
     (case map_of (conns s) (ConnID msg) of
        None \<Rightarrow> [(Routed (ConnID msg) (Payload msg), RLRead, s)]
      | Some r \<Rightarrow> [(Routed (ConnID msg) (Payload msg), RLDeliver r (Payload msg), s)])"

definition handleData_deliver :: "nat \<Rightarrow> byte list \<Rightarrow> session \<Rightarrow> (event \<times> rloop \<times> session) list" where
  "handleData_deliver r d s =
     map (\<lambda>(put, c). (if put then Delivered r d else Dropped r d, RLRead, set_conn r c s))
       (deliverData d (heap s ! r))"

definition handleClose :: "Message \<Rightarrow> session \<Rightarrow> (event \<times> rloop \<times> session) list" where
  "handleClose msg s =
     (case map_of (conns s) (ConnID msg) of
        None \<Rightarrow> [(Tau, RLRead, s)]
      | Some r \<Rightarrow> [(Tau, RLRemoteClose r, s)])"

definition rl_steps :: "rloop \<Rightarrow> session \<Rightarrow> (event \<times> rloop \<times> session) list" where
  "rl_steps l s =
     (case l of
        RLRead \<Rightarrow> []
      | RLHandle msg \<Rightarrow>
          if Type msg = MsgOpen then handleOpen msg s
          else if Type msg = MsgData then handleData msg s
          else if Type msg = MsgClose then handleClose msg s
          else [(Tau, RLRead, s)]
      | RLOpened r cid \<Rightarrow> handleOpen_offer r cid s
      | RLReject sn cid \<Rightarrow>
          map (\<lambda>(e, res, s'). case res of Inl sn' \<Rightarrow> (e, RLReject sn' cid, s')
                                        | Inr err \<Rightarrow> (e, RLRead, conns_Delete cid s'))
            (send_steps sn s)
      | RLDeliver r d \<Rightarrow> handleData_deliver r d s
      | RLRemoteClose r \<Rightarrow> map (\<lambda>s'. (Tau, RLRead, s')) (remoteClose r s)
      | RLClosing \<Rightarrow> map (\<lambda>s'. (Stopped, RLDone, s')) (session_close s)
      | RLDone \<Rightarrow> [])"

section \<open>The write loop\<close>

text \<open>
  \<open>WLPoll\<close> is the first \<open>select\<close>, \<open>WLSelect\<close> the second one; \<open>WLWrite True q\<close> writes the record of
  a request taken by the first, after which the second follows.
\<close>
datatype wloop = WLPoll | WLSelect | WLWrite bool nat | WLDone

definition wl_take :: "prio \<Rightarrow> bool \<Rightarrow> session \<Rightarrow> (event \<times> wloop \<times> session) list" where
  "wl_take ch polled s =
     (case chan ch s of [] \<Rightarrow> []
      | q # qs \<Rightarrow> [(Took ch q, WLWrite polled q, set_chan ch qs s)])"

text \<open>\<open>req.err <- s.rw.WriteRecord(req.data)\<close>, for a write that succeeds and one that fails.\<close>
definition wl_write :: "bool \<Rightarrow> nat \<Rightarrow> session \<Rightarrow> (event \<times> wloop \<times> session) list" where
  "wl_write polled q s =
     (let next = (if polled then WLSelect else WLPoll)
      in [(Wrote q (wr_data (reqs s ! q)), next, set_reply q (Some None) s),
          (WriteFailed q, next, set_reply q (Some (Some WriteError)) s)])"

definition wl_steps :: "wloop \<Rightarrow> session \<Rightarrow> (event \<times> wloop \<times> session) list" where
  "wl_steps w s =
     (case w of
        WLPoll \<Rightarrow>
          let ready = (if stopCh s then [(Tau, WLDone, s)] else []) @ wl_take Control True s
          in if ready = [] then [(Tau, WLSelect, s)] else ready
      | WLSelect \<Rightarrow>
          (if stopCh s then [(Tau, WLDone, s)] else [])
          @ wl_take Control False s @ wl_take Data False s
      | WLWrite polled q \<Rightarrow> wl_write polled q s
      | WLDone \<Rightarrow> [])"

section \<open>The system\<close>

record sys =
  sess :: session
  users :: "user list"
  rl :: rloop
  wl :: wloop

definition start :: "nat \<Rightarrow> sys" where
  "start n = \<lparr>sess = NewSession, users = replicate n UIdle, rl = RLRead, wl = WLPoll\<rparr>"

inductive step :: "sys \<Rightarrow> event \<Rightarrow> sys \<Rightarrow> bool" where
  step_api: "u < length (users S) \<Longrightarrow> users S ! u = UIdle \<Longrightarrow>
     (e, us, s') \<in> set (api_steps a (sess S)) \<Longrightarrow>
     step S e (S\<lparr>sess := s', users := (users S)[u := us]\<rparr>)"
| step_user: "u < length (users S) \<Longrightarrow> (e, us, s') \<in> set (user_steps (users S ! u) (sess S)) \<Longrightarrow>
     step S e (S\<lparr>sess := s', users := (users S)[u := us]\<rparr>)"
| step_wait: "u < length (users S) \<Longrightarrow> users S ! u = UWait \<Longrightarrow> rl S = RLDone \<Longrightarrow> wl S = WLDone \<Longrightarrow>
     step S SessClosed (S\<lparr>users := (users S)[u := UIdle]\<rparr>)"
| step_recv: "rl S = RLRead \<Longrightarrow> step S (Recv rec) (S\<lparr>rl := on_record rec\<rparr>)"
| step_recv_failed: "rl S = RLRead \<Longrightarrow> step S RecvFailed (S\<lparr>rl := RLClosing\<rparr>)"
| step_rl: "(e, l, s') \<in> set (rl_steps (rl S) (sess S)) \<Longrightarrow> step S e (S\<lparr>sess := s', rl := l\<rparr>)"
| step_wl: "(e, w, s') \<in> set (wl_steps (wl S) (sess S)) \<Longrightarrow> step S e (S\<lparr>sess := s', wl := w\<rparr>)"

inductive run :: "sys \<Rightarrow> event list \<Rightarrow> sys \<Rightarrow> bool" where
  run_nil: "run S [] S"
| run_snoc: "run S tr S' \<Longrightarrow> step S' e S'' \<Longrightarrow> run S (tr @ [e]) S''"

inductive_cases step_E: "step S e S'"

section \<open>Runs from a schedule\<close>

text \<open>
  Who moves next, and which of the ready cases it takes: an executable presentation of the
  relation, for concrete runs.
\<close>
datatype move =
    MApi nat api nat
  | MUser nat nat
  | MWait nat
  | MRecv "byte list"
  | MRecvFailed
  | MRead nat
  | MWrite nat

definition pick :: "nat \<Rightarrow> 'a list \<Rightarrow> 'a option" where
  "pick i xs = (if i < length xs then Some (xs ! i) else None)"

definition put_user :: "nat \<Rightarrow> sys \<Rightarrow> event \<times> user \<times> session \<Rightarrow> event \<times> sys" where
  "put_user u S o1 = (case o1 of (e, us, s') \<Rightarrow> (e, S\<lparr>sess := s', users := (users S)[u := us]\<rparr>))"

definition do_move :: "move \<Rightarrow> sys \<Rightarrow> (event \<times> sys) option" where
  "do_move mv S = (case mv of
     MApi u a i \<Rightarrow>
       if u < length (users S) \<and> users S ! u = UIdle
       then map_option (put_user u S) (pick i (api_steps a (sess S))) else None
   | MUser u i \<Rightarrow>
       if u < length (users S)
       then map_option (put_user u S) (pick i (user_steps (users S ! u) (sess S))) else None
   | MWait u \<Rightarrow>
       if u < length (users S) \<and> users S ! u = UWait \<and> rl S = RLDone \<and> wl S = WLDone
       then Some (SessClosed, S\<lparr>users := (users S)[u := UIdle]\<rparr>) else None
   | MRecv rec \<Rightarrow> if rl S = RLRead then Some (Recv rec, S\<lparr>rl := on_record rec\<rparr>) else None
   | MRecvFailed \<Rightarrow> if rl S = RLRead then Some (RecvFailed, S\<lparr>rl := RLClosing\<rparr>) else None
   | MRead i \<Rightarrow> map_option (\<lambda>(e, l, s'). (e, S\<lparr>sess := s', rl := l\<rparr>)) (pick i (rl_steps (rl S) (sess S)))
   | MWrite i \<Rightarrow> map_option (\<lambda>(e, w, s'). (e, S\<lparr>sess := s', wl := w\<rparr>)) (pick i (wl_steps (wl S) (sess S))))"

fun play :: "move list \<Rightarrow> event list \<Rightarrow> sys \<Rightarrow> (event list \<times> sys) option" where
  "play [] tr S = Some (tr, S)"
| "play (mv # mvs) tr S = (case do_move mv S of None \<Rightarrow> None | Some (e, S') \<Rightarrow> play mvs (tr @ [e]) S')"

lemma pick_set: "pick i xs = Some x \<Longrightarrow> x \<in> set xs"
  by (auto simp: pick_def split: if_splits)

lemma do_move_step: "do_move mv S = Some (e, S') \<Longrightarrow> step S e S'"
  by (auto simp: do_move_def put_user_def split: move.splits if_splits prod.splits
      intro: step.intros dest!: pick_set)

lemma play_run: "play mvs tr S = Some (tr', S') \<Longrightarrow> run S0 tr S \<Longrightarrow> run S0 tr' S'"
proof (induction mvs arbitrary: tr S)
  case (Cons mv mvs)
  then show ?case by (auto split: option.splits dest!: do_move_step intro: run_snoc)
qed simp

lemma play_start: "play mvs [] (start n) = Some (tr, S) \<Longrightarrow> run (start n) tr S"
  by (rule play_run[OF _ run_nil])

lemma play_witness:
  "(case play mvs [] (start n) of None \<Rightarrow> False | Some (tr, S) \<Rightarrow> P tr S)
     \<Longrightarrow> \<exists>tr S. run (start n) tr S \<and> P tr S"
  by (auto split: option.splits dest: play_start)

text \<open>A peer opens connection 1, a caller accepts it, and five bytes arrive in two records.\<close>
definition inbound :: "move list" where
  "inbound = [MRecv (EncodeOpen 1 ''''), MRead 0, MRead 0, MApi 0 AAccept 0,
     MRecv (EncodeData 1 [1, 2, 3]), MRead 0, MRead 0, MRecv (EncodeData 1 [4, 5]), MRead 0, MRead 0]"

text \<open>A caller dials, and the record is written.\<close>
definition outbound :: "move list" where
  "outbound = [MApi 0 (ADial ''a'') 0, MUser 0 0, MUser 0 0, MUser 0 0, MWrite 0, MWrite 0, MUser 0 0]"

lemma run_append: "run S' tr' S'' \<Longrightarrow> run S tr S' \<Longrightarrow> run S (tr @ tr') S''"
  by (induction rule: run.induct) (auto simp flip: append_assoc intro: run_snoc)

end
