(* ===== verification/Threads.thy ===== *)
theory Threads
  imports Session
begin

text \<open>
  Invariants of a session under every interleaving of its goroutines. The locale \<open>rely\<close> is the
  rely-guarantee contract between them: an invariant of the shared state and the events so far,
  one condition per kind of goroutine, and the changes a goroutine of each kind promises to keep
  to. The locale \<open>relative\<close> builds an invariant on top of another. The basic invariant
  \<open>session_ok\<close> is its first interpretation.
\<close>

datatype thread = User | Reader | Writer

locale rely =
  fixes G :: "event list \<Rightarrow> session \<Rightarrow> bool"
    and U :: "event list \<Rightarrow> session \<Rightarrow> user \<Rightarrow> bool"
    and R :: "event list \<Rightarrow> session \<Rightarrow> rloop \<Rightarrow> bool"
    and L :: "event list \<Rightarrow> session \<Rightarrow> wloop \<Rightarrow> bool"
    and T :: "thread \<Rightarrow> event \<Rightarrow> session \<Rightarrow> session \<Rightarrow> bool"
  assumes init: "G [] NewSession \<and> U [] NewSession UIdle \<and> R [] NewSession RLRead
      \<and> L [] NewSession WLPoll"
    and api: "G tr s \<Longrightarrow> (e, us, s') \<in> set (api_steps a s)
      \<Longrightarrow> G (tr @ [e]) s' \<and> U (tr @ [e]) s' us \<and> T User e s s'"
    and user: "G tr s \<Longrightarrow> U tr s u \<Longrightarrow> (e, us, s') \<in> set (user_steps u s)
      \<Longrightarrow> G (tr @ [e]) s' \<and> U (tr @ [e]) s' us \<and> T User e s s'"
    and waited: "G tr s \<Longrightarrow> G (tr @ [SessClosed]) s \<and> U (tr @ [SessClosed]) s UIdle
      \<and> T User SessClosed s s"
    and recv: "G tr s \<Longrightarrow> R tr s RLRead
      \<Longrightarrow> G (tr @ [Recv rec]) s \<and> R (tr @ [Recv rec]) s (on_record rec) \<and> T Reader (Recv rec) s s"
    and recv_failed: "G tr s \<Longrightarrow> R tr s RLRead
      \<Longrightarrow> G (tr @ [RecvFailed]) s \<and> R (tr @ [RecvFailed]) s RLClosing \<and> T Reader RecvFailed s s"
    and rl: "G tr s \<Longrightarrow> R tr s l \<Longrightarrow> (e, l', s') \<in> set (rl_steps l s)
      \<Longrightarrow> G (tr @ [e]) s' \<and> R (tr @ [e]) s' l' \<and> T Reader e s s'"
    and wl: "G tr s \<Longrightarrow> L tr s w \<Longrightarrow> (e, w', s') \<in> set (wl_steps w s)
      \<Longrightarrow> G (tr @ [e]) s' \<and> L (tr @ [e]) s' w' \<and> T Writer e s s'"
    and stable_user: "G tr s \<Longrightarrow> G (tr @ [e]) s' \<Longrightarrow> T t e s s' \<Longrightarrow> U tr s u \<Longrightarrow> U (tr @ [e]) s' u"
    and stable_reader: "G tr s \<Longrightarrow> G (tr @ [e]) s' \<Longrightarrow> T t e s s' \<Longrightarrow> t \<noteq> Reader
      \<Longrightarrow> R tr s l \<Longrightarrow> R (tr @ [e]) s' l"
    and stable_writer: "G tr s \<Longrightarrow> G (tr @ [e]) s' \<Longrightarrow> T t e s s' \<Longrightarrow> t \<noteq> Writer
      \<Longrightarrow> L tr s w \<Longrightarrow> L (tr @ [e]) s' w"
begin

definition holds :: "event list \<Rightarrow> sys \<Rightarrow> bool" where
  "holds tr S \<longleftrightarrow> G tr (sess S) \<and> (\<forall>u \<in> set (users S). U tr (sess S) u)
     \<and> R tr (sess S) (rl S) \<and> L tr (sess S) (wl S)"

lemma holds_user:
  assumes h: "holds tr S" and u: "u < length (users S)"
    and s': "G (tr @ [e]) s'" "U (tr @ [e]) s' us" "T User e (sess S) s'"
  shows "holds (tr @ [e]) (S\<lparr>sess := s', users := (users S)[u := us]\<rparr>)"
proof -
  from h have g: "G tr (sess S)" by (simp add: holds_def)
  have "\<forall>v \<in> set ((users S)[u := us]). U (tr @ [e]) s' v"
  proof
    fix v assume "v \<in> set ((users S)[u := us])"
    then have "v = us \<or> v \<in> set (users S)" using set_update_subset_insert by fastforce
    then show "U (tr @ [e]) s' v"
      using stable_user[OF g s'(1,3)] h s'(2) by (auto simp: holds_def)
  qed
  with h s' show ?thesis
    using stable_reader[OF g s'(1,3)] stable_writer[OF g s'(1,3)] by (simp add: holds_def)
qed

lemma holds_step:
  assumes "step S e S'" and h: "holds tr S"
  shows "holds (tr @ [e]) S'"
  using assms(1)
proof cases
  case (step_api u us s' a)
  have "G tr (sess S)" using h by (simp add: holds_def)
  from api[OF this step_api(4)] show ?thesis using holds_user[OF h step_api(2)] step_api(1) by simp
next
  case (step_user u us s')
  have "G tr (sess S)" "U tr (sess S) (users S ! u)" using h step_user(2) by (simp_all add: holds_def)
  from user[OF this step_user(3)] show ?thesis using holds_user[OF h step_user(2)] step_user(1) by simp
next
  case (step_wait u)
  have "holds (tr @ [e]) (S\<lparr>sess := sess S, users := (users S)[u := UIdle]\<rparr>)"
    using waited[of tr "sess S"] h step_wait holds_user[OF h step_wait(3), of e "sess S" UIdle]
    by (simp add: holds_def)
  with step_wait show ?thesis by simp
next
  case (step_recv rec)
  then have r: "G (tr @ [e]) (sess S) \<and> R (tr @ [e]) (sess S) (on_record rec) \<and> T Reader e (sess S) (sess S)"
    using h recv[of tr "sess S" rec] by (simp add: holds_def)
  with h step_recv show ?thesis
    using stable_user[of tr "sess S" e "sess S" Reader] stable_writer[of tr "sess S" e "sess S" Reader]
    by (simp add: holds_def)
next
  case step_recv_failed
  then have r: "G (tr @ [e]) (sess S) \<and> R (tr @ [e]) (sess S) RLClosing \<and> T Reader e (sess S) (sess S)"
    using h recv_failed[of tr "sess S"] by (simp add: holds_def)
  with h step_recv_failed show ?thesis
    using stable_user[of tr "sess S" e "sess S" Reader] stable_writer[of tr "sess S" e "sess S" Reader]
    by (simp add: holds_def)
next
  case (step_rl l s')
  then have "G (tr @ [e]) s' \<and> R (tr @ [e]) s' l \<and> T Reader e (sess S) s'"
    using h rl[of tr "sess S" "rl S" e l s'] by (simp add: holds_def)
  with h step_rl show ?thesis
    using stable_user[of tr "sess S" e s' Reader] stable_writer[of tr "sess S" e s' Reader]
    by (simp add: holds_def)
next
  case (step_wl w s')
  then have "G (tr @ [e]) s' \<and> L (tr @ [e]) s' w \<and> T Writer e (sess S) s'"
    using h wl[of tr "sess S" "wl S" e w s'] by (simp add: holds_def)
  with h step_wl show ?thesis
    using stable_user[of tr "sess S" e s' Writer] stable_reader[of tr "sess S" e s' Writer]
    by (simp add: holds_def)
qed

lemma holds_start: "holds [] (start n)"
  using init by (auto simp: holds_def start_def)

lemma holds_run: "run S tr S' \<Longrightarrow> S = start n \<Longrightarrow> holds tr S'"
  by (induction rule: run.induct) (auto intro: holds_start holds_step)

lemma global: "run (start n) tr S \<Longrightarrow> G tr (sess S)"
  using holds_run[of "start n" tr S n] by (simp add: holds_def)

lemma reader: "run (start n) tr S \<Longrightarrow> R tr (sess S) (rl S)"
  using holds_run[of "start n" tr S n] by (simp add: holds_def)

lemma writer: "run (start n) tr S \<Longrightarrow> L tr (sess S) (wl S)"
  using holds_run[of "start n" tr S n] by (simp add: holds_def)

lemma caller: "run (start n) tr S \<Longrightarrow> u \<in> set (users S) \<Longrightarrow> U tr (sess S) u"
  using holds_run[of "start n" tr S n] by (simp add: holds_def)

end

text \<open>An invariant that rests on another one: every obligation may use the facts of the first.\<close>

locale relative = rely G U R L T for G U R L T +
  fixes G2 :: "event list \<Rightarrow> session \<Rightarrow> bool"
    and U2 :: "event list \<Rightarrow> session \<Rightarrow> user \<Rightarrow> bool"
    and R2 :: "event list \<Rightarrow> session \<Rightarrow> rloop \<Rightarrow> bool"
    and L2 :: "event list \<Rightarrow> session \<Rightarrow> wloop \<Rightarrow> bool"
    and T2 :: "thread \<Rightarrow> event \<Rightarrow> session \<Rightarrow> session \<Rightarrow> bool"
  assumes init2: "G2 [] NewSession \<and> U2 [] NewSession UIdle \<and> R2 [] NewSession RLRead
      \<and> L2 [] NewSession WLPoll"
    and api2: "G tr s \<Longrightarrow> G (tr @ [e]) s' \<Longrightarrow> T User e s s' \<Longrightarrow> U (tr @ [e]) s' us \<Longrightarrow> G2 tr s
      \<Longrightarrow> (e, us, s') \<in> set (api_steps a s)
      \<Longrightarrow> G2 (tr @ [e]) s' \<and> U2 (tr @ [e]) s' us \<and> T2 User e s s'"
    and user2: "G tr s \<Longrightarrow> G (tr @ [e]) s' \<Longrightarrow> T User e s s' \<Longrightarrow> U tr s u \<Longrightarrow> G2 tr s \<Longrightarrow> U2 tr s u
      \<Longrightarrow> (e, us, s') \<in> set (user_steps u s)
      \<Longrightarrow> G2 (tr @ [e]) s' \<and> U2 (tr @ [e]) s' us \<and> T2 User e s s'"
    and waited2: "G tr s \<Longrightarrow> G2 tr s \<Longrightarrow> G2 (tr @ [SessClosed]) s \<and> U2 (tr @ [SessClosed]) s UIdle
      \<and> T2 User SessClosed s s"
    and recv2: "G tr s \<Longrightarrow> G2 tr s \<Longrightarrow> R2 tr s RLRead
      \<Longrightarrow> G2 (tr @ [Recv rec]) s \<and> R2 (tr @ [Recv rec]) s (on_record rec) \<and> T2 Reader (Recv rec) s s"
    and recv_failed2: "G tr s \<Longrightarrow> G2 tr s \<Longrightarrow> R2 tr s RLRead
      \<Longrightarrow> G2 (tr @ [RecvFailed]) s \<and> R2 (tr @ [RecvFailed]) s RLClosing \<and> T2 Reader RecvFailed s s"
    and rl2: "G tr s \<Longrightarrow> G (tr @ [e]) s' \<Longrightarrow> T Reader e s s' \<Longrightarrow> R tr s l \<Longrightarrow> G2 tr s \<Longrightarrow> R2 tr s l
      \<Longrightarrow> (e, l', s') \<in> set (rl_steps l s)
      \<Longrightarrow> G2 (tr @ [e]) s' \<and> R2 (tr @ [e]) s' l' \<and> T2 Reader e s s'"
    and wl2: "G tr s \<Longrightarrow> G (tr @ [e]) s' \<Longrightarrow> T Writer e s s' \<Longrightarrow> L tr s w \<Longrightarrow> G2 tr s \<Longrightarrow> L2 tr s w
      \<Longrightarrow> (e, w', s') \<in> set (wl_steps w s)
      \<Longrightarrow> G2 (tr @ [e]) s' \<and> L2 (tr @ [e]) s' w' \<and> T2 Writer e s s'"
    and stable_user2: "G tr s \<Longrightarrow> T t e s s' \<Longrightarrow> U tr s u \<Longrightarrow> G2 tr s \<Longrightarrow> G2 (tr @ [e]) s'
      \<Longrightarrow> T2 t e s s' \<Longrightarrow> U2 tr s u \<Longrightarrow> U2 (tr @ [e]) s' u"
    and stable_reader2: "G tr s \<Longrightarrow> T t e s s' \<Longrightarrow> R tr s l \<Longrightarrow> G2 tr s \<Longrightarrow> G2 (tr @ [e]) s'
      \<Longrightarrow> T2 t e s s' \<Longrightarrow> t \<noteq> Reader \<Longrightarrow> R2 tr s l \<Longrightarrow> R2 (tr @ [e]) s' l"
    and stable_writer2: "G tr s \<Longrightarrow> T t e s s' \<Longrightarrow> L tr s w \<Longrightarrow> G2 tr s \<Longrightarrow> G2 (tr @ [e]) s'
      \<Longrightarrow> T2 t e s s' \<Longrightarrow> t \<noteq> Writer \<Longrightarrow> L2 tr s w \<Longrightarrow> L2 (tr @ [e]) s' w"

sublocale relative \<subseteq> both: rely "\<lambda>tr s. G tr s \<and> G2 tr s" "\<lambda>tr s u. U tr s u \<and> U2 tr s u"
  "\<lambda>tr s l. R tr s l \<and> R2 tr s l" "\<lambda>tr s w. L tr s w \<and> L2 tr s w"
  "\<lambda>t e s s'. T t e s s' \<and> T2 t e s s'"
proof
  fix tr s e us s' a
  assume "G tr s \<and> G2 tr s" "(e, us, s') \<in> set (api_steps a s)"
  then show "(G (tr @ [e]) s' \<and> G2 (tr @ [e]) s') \<and> (U (tr @ [e]) s' us \<and> U2 (tr @ [e]) s' us)
      \<and> T User e s s' \<and> T2 User e s s'"
    using api[of tr s e us s' a] api2[of tr s e s' us a] by blast
next
  fix tr s e u us s'
  assume "G tr s \<and> G2 tr s" "U tr s u \<and> U2 tr s u" "(e, us, s') \<in> set (user_steps u s)"
  then show "(G (tr @ [e]) s' \<and> G2 (tr @ [e]) s') \<and> (U (tr @ [e]) s' us \<and> U2 (tr @ [e]) s' us)
      \<and> T User e s s' \<and> T2 User e s s'"
    using user[of tr s u e us s'] user2[of tr s e s' u us] by blast
next
  fix tr s e l l' s'
  assume "G tr s \<and> G2 tr s" "R tr s l \<and> R2 tr s l" "(e, l', s') \<in> set (rl_steps l s)"
  then show "(G (tr @ [e]) s' \<and> G2 (tr @ [e]) s') \<and> (R (tr @ [e]) s' l' \<and> R2 (tr @ [e]) s' l')
      \<and> T Reader e s s' \<and> T2 Reader e s s'"
    using rl[of tr s l e l' s'] rl2[of tr s e s' l l'] by blast
next
  fix tr s e w w' s'
  assume "G tr s \<and> G2 tr s" "L tr s w \<and> L2 tr s w" "(e, w', s') \<in> set (wl_steps w s)"
  then show "(G (tr @ [e]) s' \<and> G2 (tr @ [e]) s') \<and> (L (tr @ [e]) s' w' \<and> L2 (tr @ [e]) s' w')
      \<and> T Writer e s s' \<and> T2 Writer e s s'"
    using wl[of tr s w e w' s'] wl2[of tr s e s' w w'] by blast
next
  show "G tr s \<and> G2 tr s \<Longrightarrow> (G (tr @ [SessClosed]) s \<and> G2 (tr @ [SessClosed]) s)
      \<and> (U (tr @ [SessClosed]) s UIdle \<and> U2 (tr @ [SessClosed]) s UIdle)
      \<and> T User SessClosed s s \<and> T2 User SessClosed s s" for tr s
    using waited[of tr s] waited2[of tr s] by blast
next
  show "G tr s \<and> G2 tr s \<Longrightarrow> R tr s RLRead \<and> R2 tr s RLRead
      \<Longrightarrow> (G (tr @ [Recv rec]) s \<and> G2 (tr @ [Recv rec]) s)
      \<and> (R (tr @ [Recv rec]) s (on_record rec) \<and> R2 (tr @ [Recv rec]) s (on_record rec))
      \<and> T Reader (Recv rec) s s \<and> T2 Reader (Recv rec) s s" for tr s rec
    using recv[of tr s rec] recv2[of tr s rec] by blast
next
  show "G tr s \<and> G2 tr s \<Longrightarrow> R tr s RLRead \<and> R2 tr s RLRead
      \<Longrightarrow> (G (tr @ [RecvFailed]) s \<and> G2 (tr @ [RecvFailed]) s)
      \<and> (R (tr @ [RecvFailed]) s RLClosing \<and> R2 (tr @ [RecvFailed]) s RLClosing)
      \<and> T Reader RecvFailed s s \<and> T2 Reader RecvFailed s s" for tr s
    using recv_failed[of tr s] recv_failed2[of tr s] by blast
next
  show "(G [] NewSession \<and> G2 [] NewSession) \<and> (U [] NewSession UIdle \<and> U2 [] NewSession UIdle)
      \<and> (R [] NewSession RLRead \<and> R2 [] NewSession RLRead) \<and> (L [] NewSession WLPoll \<and> L2 [] NewSession WLPoll)"
    using init init2 by blast
next
  show "G tr s \<and> G2 tr s \<Longrightarrow> G (tr @ [e]) s' \<and> G2 (tr @ [e]) s' \<Longrightarrow> T t e s s' \<and> T2 t e s s'
      \<Longrightarrow> U tr s u \<and> U2 tr s u \<Longrightarrow> U (tr @ [e]) s' u \<and> U2 (tr @ [e]) s' u" for tr s e s' t u
    using stable_user[of tr s e s' t u] stable_user2[of tr s t e s' u] by blast
next
  show "G tr s \<and> G2 tr s \<Longrightarrow> G (tr @ [e]) s' \<and> G2 (tr @ [e]) s' \<Longrightarrow> T t e s s' \<and> T2 t e s s'
      \<Longrightarrow> t \<noteq> Reader \<Longrightarrow> R tr s l \<and> R2 tr s l \<Longrightarrow> R (tr @ [e]) s' l \<and> R2 (tr @ [e]) s' l" for tr s e s' t l
    using stable_reader[of tr s e s' t l] stable_reader2[of tr s t e s' l] by blast
next
  show "G tr s \<and> G2 tr s \<Longrightarrow> G (tr @ [e]) s' \<and> G2 (tr @ [e]) s' \<Longrightarrow> T t e s s' \<and> T2 t e s s'
      \<Longrightarrow> t \<noteq> Writer \<Longrightarrow> L tr s w \<and> L2 tr s w \<Longrightarrow> L (tr @ [e]) s' w \<and> L2 (tr @ [e]) s' w" for tr s e s' t w
    using stable_writer[of tr s e s' t w] stable_writer2[of tr s t e s' w] by blast
qed

section \<open>The basic invariant\<close>

text \<open>
  The table maps an id to the one open connection with that id that was stored last; the channels
  keep their capacities; every reference in use is allocated.
\<close>
definition session_ok :: "session \<Rightarrow> bool" where
  "session_ok s \<longleftrightarrow> distinct (map fst (conns s))
     \<and> (\<forall>k r. (k, r) \<in> set (conns s) \<longrightarrow> r < length (heap s) \<and> tc_id (heap s ! r) = k
          \<and> once (heap s ! r) = Unstarted)
     \<and> (\<forall>r < length (heap s). conn_ok (heap s ! r))
     \<and> length (controlCh s) \<le> controlCap \<and> length (dataCh s) \<le> dataCap
     \<and> length (connCh s) \<le> connChCap
     \<and> (\<forall>q \<in> set (controlCh s) \<union> set (dataCh s). q < length (reqs s))
     \<and> (\<forall>r \<in> set (owned s) \<union> set (connCh s). r < length (heap s))"

text \<open>What every step keeps: objects stay allocated, a closed connection stays closed.\<close>
definition grows :: "session \<Rightarrow> session \<Rightarrow> bool" where
  "grows s s' \<longleftrightarrow> length (heap s) \<le> length (heap s') \<and> length (reqs s) \<le> length (reqs s')
     \<and> (stopCh s \<longrightarrow> stopCh s')
     \<and> (\<forall>r < length (heap s). tc_id (heap s' ! r) = tc_id (heap s ! r)
          \<and> (once (heap s ! r) \<noteq> Unstarted \<longrightarrow> once (heap s' ! r) \<noteq> Unstarted))
     \<and> (\<forall>q < length (reqs s). wr_data (reqs s' ! q) = wr_data (reqs s ! q))
     \<and> (\<forall>k r. (k, r) \<in> set (conns s') \<longrightarrow> r < length (heap s) \<longrightarrow> (k, r) \<in> set (conns s))"

definition sender_ok :: "session \<Rightarrow> sender \<Rightarrow> bool" where
  "sender_ok s sn \<longleftrightarrow> (case sn of Sending _ _ \<Rightarrow> True | Waiting q \<Rightarrow> q < length (reqs s))"

definition user_ok :: "session \<Rightarrow> user \<Rightarrow> bool" where
  "user_ok s u \<longleftrightarrow> (case u of
     USend sn k \<Rightarrow> sender_ok s sn \<and>
       (case k of KDial r cid \<Rightarrow> r < length (heap s) \<and> tc_id (heap s ! r) = cid
        | KWrite r p \<Rightarrow> r < length (heap s)
        | KClose r \<Rightarrow> r < length (heap s) \<and> once (heap s ! r) \<noteq> Unstarted)
   | _ \<Rightarrow> True)"

definition rl_ok :: "session \<Rightarrow> rloop \<Rightarrow> bool" where
  "rl_ok s l \<longleftrightarrow> (case l of
     RLOpened r cid \<Rightarrow> r < length (heap s) \<and> tc_id (heap s ! r) = cid
   | RLReject sn cid \<Rightarrow> sender_ok s sn
   | RLDeliver r d \<Rightarrow> r < length (heap s)
   | RLRemoteClose r \<Rightarrow> r < length (heap s)
   | _ \<Rightarrow> True)"

definition wl_ok :: "session \<Rightarrow> wloop \<Rightarrow> bool" where
  "wl_ok s w \<longleftrightarrow> (case w of WLWrite polled q \<Rightarrow> q < length (reqs s) | _ \<Rightarrow> True)"

lemma idle_ok [simp]: "user_ok s UIdle" "rl_ok s RLRead" "rl_ok s RLClosing" "rl_ok s RLDone"
  by (simp_all add: user_ok_def rl_ok_def)

lemma grows_refl [simp]: "grows s s"
  by (auto simp: grows_def)

lemma grows_trans: "grows s s' \<Longrightarrow> grows s' s'' \<Longrightarrow> grows s s''"
  unfolding grows_def by (smt (verit) case_prodD case_prodI2 le_trans less_le_trans)

lemma sender_ok_grows: "sender_ok s sn \<Longrightarrow> grows s s' \<Longrightarrow> sender_ok s' sn"
  by (auto simp: sender_ok_def grows_def split: sender.splits)

lemma user_ok_grows: "user_ok s u \<Longrightarrow> grows s s' \<Longrightarrow> user_ok s' u"
  using sender_ok_grows
  by (fastforce simp: user_ok_def grows_def split: user.splits cont.splits)

lemma rl_ok_grows: "rl_ok s l \<Longrightarrow> grows s s' \<Longrightarrow> rl_ok s' l"
  using sender_ok_grows by (fastforce simp: rl_ok_def grows_def split: rloop.splits)

lemma wl_ok_grows: "wl_ok s w \<Longrightarrow> grows s s' \<Longrightarrow> wl_ok s' w"
  by (auto simp: wl_ok_def grows_def split: wloop.splits)

section \<open>The primitives keep the basic invariant\<close>

lemma session_ok_conn:
  assumes "session_ok s" "r < length (heap s)"
  shows "conn_ok (heap s ! r)"
  using assms by (simp add: session_ok_def)

lemma session_ok_mapped:
  assumes "session_ok s" "map_of (conns s) k = Some r"
  shows "r < length (heap s)" "tc_id (heap s ! r) = k" "once (heap s ! r) = Unstarted"
  using assms map_of_SomeD[of "conns s" k r] unfolding session_ok_def by blast+

lemma set_delete: "set (AList.delete k xs) = {p \<in> set xs. fst p \<noteq> k}"
  by (auto simp: AList.delete_eq)

lemma heap_set_conn:
  "r < length (heap s) \<Longrightarrow> heap (set_conn r c s) ! i = (if i = r then c else heap s ! i)"
  by (simp add: set_conn_def nth_list_update)

lemma set_conn_simps [simp]:
  "length (heap (set_conn r c s)) = length (heap s)" "conns (set_conn r c s) = conns s"
  "controlCh (set_conn r c s) = controlCh s" "dataCh (set_conn r c s) = dataCh s"
  "connCh (set_conn r c s) = connCh s" "reqs (set_conn r c s) = reqs s"
  "owned (set_conn r c s) = owned s" "stopCh (set_conn r c s) = stopCh s"
  by (simp_all add: set_conn_def)

lemma ok_set_conn:
  assumes "session_ok s" "r < length (heap s)" "tc_id c = tc_id (heap s ! r)" "conn_ok c"
    "once (heap s ! r) = Unstarted \<longleftrightarrow> once c = Unstarted"
  shows "session_ok (set_conn r c s)" "grows s (set_conn r c s)"
proof -
  note h = heap_set_conn[OF assms(2), of c]
  show "grows s (set_conn r c s)" using assms(3,5) by (simp add: grows_def h)
  have "r' < length (heap s) \<and> tc_id (heap (set_conn r c s) ! r') = k
      \<and> once (heap (set_conn r c s) ! r') = Unstarted" if "(k, r') \<in> set (conns s)" for k r'
    using assms(1,3,5) that by (auto simp: session_ok_def h)
  moreover have "conn_ok (heap (set_conn r c s) ! r')" if "r' < length (heap s)" for r'
    using assms(1,4) that by (auto simp: session_ok_def h)
  ultimately show "session_ok (set_conn r c s)" using assms(1) by (simp add: session_ok_def)
qed

lemma ok_Delete:
  assumes "session_ok s"
  shows "session_ok (conns_Delete cid s)" "grows s (conns_Delete cid s)"
  using assms
  by (auto simp: session_ok_def grows_def conns_Delete_def set_delete distinct_delete)

lemma ok_shut:
  assumes "session_ok s" "r < length (heap s)" "o1 \<noteq> Unstarted"
  shows "session_ok (conns_Delete (tc_id (heap s ! r)) (set_conn r (shut o1 (heap s ! r)) s))"
    "grows s (conns_Delete (tc_id (heap s ! r)) (set_conn r (shut o1 (heap s ! r)) s))"
proof -
  have "conn_ok (shut o1 (heap s ! r))" using assms session_ok_conn by simp
  moreover have "tc_id (shut o1 c) = tc_id c" "once (shut o1 c) = o1" for c by (simp_all add: shut_def)
  ultimately show "session_ok (conns_Delete (tc_id (heap s ! r)) (set_conn r (shut o1 (heap s ! r)) s))"
    "grows s (conns_Delete (tc_id (heap s ! r)) (set_conn r (shut o1 (heap s ! r)) s))"
    using assms
    by (auto simp: session_ok_def grows_def heap_set_conn conns_Delete_def set_delete distinct_delete)
qed

lemma ok_Store:
  assumes "session_ok s"
  shows "session_ok (conns_Store cid s)" "grows s (conns_Store cid s)"
proof -
  have new: "(k, r) = (cid, length (heap s)) \<or> (k, r) \<in> set (conns s)"
    if "(k, r) \<in> set (conns (conns_Store cid s))" for k r
  proof -
    have dist: "distinct (map fst (conns s))" using assms by (simp add: session_ok_def)
    have "map_of (AList.update cid (length (heap s)) (conns s)) k = Some r"
      using that map_of_eq_Some_iff[OF distinct_update[OF dist]] by (simp add: conns_Store_def)
    then show ?thesis using map_of_eq_Some_iff[OF dist] by (auto simp: update_conv split: if_splits)
  qed
  have h: "heap (conns_Store cid s) = heap s @ [newTunnelConn cid]" by (simp add: conns_Store_def)
  show "grows s (conns_Store cid s)"
    using new by (auto simp: grows_def h nth_append) (simp_all add: conns_Store_def)
  have "r < Suc (length (heap s)) \<and> tc_id (heap (conns_Store cid s) ! r) = k
      \<and> once (heap (conns_Store cid s) ! r) = Unstarted"
    if "(k, r) \<in> set (conns (conns_Store cid s))" for k r
    using new[OF that] assms by (auto simp: h nth_append session_ok_def newTunnelConn_def less_SucI)
  then show "session_ok (conns_Store cid s)"
    using assms by (auto simp: session_ok_def h nth_append less_Suc_eq)
      (auto simp: conns_Store_def distinct_update)
qed

lemma ok_nextID:
  "session_ok s \<Longrightarrow> session_ok (s\<lparr>nextID := n\<rparr>)" "grows s (s\<lparr>nextID := n\<rparr>)"
  by (auto simp: session_ok_def grows_def)

lemma ok_set_reply:
  assumes "session_ok s"
  shows "session_ok (set_reply q e s)" "grows s (set_reply q e s)"
  using assms by (cases "q < length (reqs s)";
      auto simp: session_ok_def grows_def set_reply_def nth_list_update)+

lemma ok_enqueue:
  assumes "session_ok s" "length (chan ch s) < chan_cap ch"
  shows "session_ok (enqueue ch msg s)" "grows s (enqueue ch msg s)"
  using assms
  by (auto simp: session_ok_def grows_def enqueue_def chan_def set_chan_def chan_cap_def
      nth_append less_SucI split: prio.splits)

lemma ok_take:
  assumes "session_ok s" "chan ch s = q # qs"
  shows "session_ok (set_chan ch qs s)" "grows s (set_chan ch qs s)" "q < length (reqs s)"
  using assms
  by (auto simp: session_ok_def grows_def chan_def set_chan_def split: prio.splits)

section \<open>Every step keeps the basic invariant\<close>

lemma send_ok:
  assumes "session_ok s" "sender_ok s sn" "(e, res, s') \<in> set (send_steps sn s)"
  shows "session_ok s'" "grows s s'" "\<And>sn'. res = Inl sn' \<Longrightarrow> sender_ok s' sn'"
proof -
  have q: "q < length (reqs s) \<Longrightarrow> sender_ok s' (Waiting q)" if "grows s s'" for q
    using that by (simp add: sender_ok_def grows_def)
  have l: "length (reqs s) < length (reqs (enqueue ch m s))" for ch m
    by (simp add: enqueue_def set_chan_def split: prio.split)
  from assms show "session_ok s'" "grows s s'" "\<And>sn'. res = Inl sn' \<Longrightarrow> sender_ok s' sn'"
    using l by (auto simp: send_steps_def sender_ok_def ok_enqueue ok_set_reply
        split: sender.splits if_splits option.splits)
qed

lemma remoteClose_ok:
  assumes "session_ok s" "r < length (heap s)" "s' \<in> set (remoteClose r s)"
  shows "session_ok s'" "grows s s'"
  using assms by (auto simp: remoteClose_def Let_def ok_shut split: once_state.splits)

lemma closeAll_ok:
  "session_ok s \<Longrightarrow> \<forall>r \<in> set rs. r < length (heap s) \<Longrightarrow> s' \<in> set (closeAll rs s)
     \<Longrightarrow> session_ok s' \<and> grows s s'"
proof (induction rs arbitrary: s)
  case (Cons r rs)
  then obtain t where t: "t \<in> set (remoteClose r s)" "s' \<in> set (closeAll rs t)" by auto
  have "session_ok t" "grows s t" using Cons.prems t(1) remoteClose_ok by auto
  moreover then have "\<forall>r \<in> set rs. r < length (heap t)" using Cons.prems(2) by (force simp: grows_def)
  ultimately show ?case using Cons.IH[OF _ _ t(2)] grows_trans by blast
qed simp

lemma ok_stop: "session_ok s \<Longrightarrow> session_ok (s\<lparr>stopCh := True\<rparr>)" "grows s (s\<lparr>stopCh := True\<rparr>)"
  by (auto simp: session_ok_def grows_def)

lemma session_close_ok:
  assumes "session_ok s" "s' \<in> set (session_close s)"
  shows "session_ok s'" "grows s s'"
proof -
  have "\<forall>r \<in> set (map snd (conns s)). r < length (heap s)"
    using assms(1) by (auto simp: session_ok_def)
  with assms show "session_ok s'" "grows s s'"
    using closeAll_ok[of "s\<lparr>stopCh := True\<rparr>" "map snd (conns s)" s'] ok_stop[of s] grows_trans
    by (auto simp: session_close_def split: if_splits)
qed

lemma tc_Read_same:
  "(res, c') \<in> set (tc_Read n c) \<Longrightarrow> tc_id c' = tc_id c \<and> once c' = once c
     \<and> tc_closed c' = tc_closed c \<and> closeCh c' = closeCh c"
  by (auto simp: tc_Read_def buf_read_def Let_def split: list.splits if_splits)

lemma deliverData_same:
  "(put, c') \<in> set (deliverData d c) \<Longrightarrow> tc_id c' = tc_id c \<and> once c' = once c
     \<and> tc_closed c' = tc_closed c \<and> closeCh c' = closeCh c"
  by (auto simp: deliverData_def push_data_def split: if_splits)

lemma ok_accept:
  assumes "session_ok s" "connCh s = r # rs"
  shows "session_ok (s\<lparr>connCh := rs, owned := r # owned s\<rparr>)"
    "grows s (s\<lparr>connCh := rs, owned := r # owned s\<rparr>)"
  using assms by (auto simp: session_ok_def grows_def)

lemma ok_own:
  assumes "session_ok s" "r < length (heap s)"
  shows "session_ok (s\<lparr>owned := r # owned s\<rparr>)" "grows s (s\<lparr>owned := r # owned s\<rparr>)"
  using assms by (auto simp: session_ok_def grows_def)

lemma api_ok:
  assumes "session_ok s" "(e, us, s') \<in> set (api_steps a s)"
  shows "session_ok s' \<and> user_ok s' us \<and> grows s s'"
proof -
  have o: "r \<in> set (owned s) \<Longrightarrow> r < length (heap s)" for r
    using assms(1) by (simp add: session_ok_def)
  show ?thesis
  proof (cases a)
    case (ADial addr)
    with assms show ?thesis by (auto simp: api_steps_def Dial_def user_ok_def split: if_splits)
  next
    case (AWrite r p)
    with assms o show ?thesis
      by (auto simp: api_steps_def tc_Write_def user_ok_def sender_ok_def sendData_def enqueueData_def
          split: if_splits)
  next
    case (AClose r)
    with assms have r: "r < length (heap s)" using o by (auto simp: api_steps_def split: if_splits)
    have once: "once (heap (conns_Delete k (set_conn r (shut Running c) s)) ! r) = Running" for k c
      using r by (simp add: conns_Delete_def heap_set_conn shut_def)
    have len: "length (heap (conns_Delete k s1)) = length (heap s1)" for k s1
      by (simp add: conns_Delete_def)
    from AClose assms show ?thesis
      using ok_shut[OF assms(1) r, of Running] r once len
      by (auto simp: api_steps_def tc_Close_def Let_def user_ok_def sender_ok_def sendClose_def
          sendControl_def split: if_splits once_state.splits)
  next
    case (ARead r n)
    with assms obtain res c where rc: "r < length (heap s)" "(res, c) \<in> set (tc_Read n (heap s ! r))"
      "us = UIdle" "s' = set_conn r c s"
      using o by (auto simp: api_steps_def conn_Read_def split: if_splits)
    show ?thesis
      using ok_set_conn[OF assms(1) rc(1), of c] tc_Read_same[OF rc(2)]
        conn_ok_read[OF session_ok_conn[OF assms(1) rc(1)] rc(2)] rc(3,4)
      by (simp add: user_ok_def)
  next
    case AAccept
    with assms show ?thesis
      by (cases "connCh s") (auto simp: api_steps_def Accept_def user_ok_def ok_accept split: if_splits)
  next
    case AListenerClose
    with assms show ?thesis
      by (auto simp: api_steps_def listener_Close_def user_ok_def session_ok_def grows_def)
  next
    case ASessionClose
    with assms show ?thesis
      using session_close_ok[OF assms(1)] by (auto simp: api_steps_def user_ok_def)
  qed
qed

lemma resume_ok:
  assumes "session_ok s" "user_ok s (USend sn k)" "resume k err s = (e, us, s')"
  shows "session_ok s' \<and> user_ok s' us \<and> grows s s'"
proof (cases k)
  case (KDial r cid)
  with assms show ?thesis
    using ok_own[of s r] ok_Delete[of s cid]
    by (cases err) (auto simp: resume_def user_ok_def)
next
  case (KWrite r p)
  with assms show ?thesis by (cases err) (auto simp: resume_def user_ok_def)
next
  case (KClose r)
  with assms(2) have r: "r < length (heap s)" "once (heap s ! r) \<noteq> Unstarted"
    by (auto simp: user_ok_def)
  then have "conn_ok ((heap s ! r)\<lparr>once := Finished\<rparr>)"
    using session_ok_conn[OF assms(1) r(1)] by (simp add: conn_ok_def)
  with KClose assms r show ?thesis
    using ok_set_conn[OF assms(1) r(1), of "(heap s ! r)\<lparr>once := Finished\<rparr>"]
    by (auto simp: resume_def user_ok_def)
qed

lemma user_steps_ok:
  assumes "session_ok s" "user_ok s u" "(e, us, s') \<in> set (user_steps u s)"
  shows "session_ok s' \<and> user_ok s' us \<and> grows s s'"
proof (cases u)
  case (UDialing addr)
  with assms show ?thesis by (simp add: user_steps_def Dial_next_def Let_def user_ok_def ok_nextID)
next
  case (UDialed cid addr)
  have "length (heap s) < length (heap (conns_Store k s))"
    "tc_id (heap (conns_Store k s) ! length (heap s)) = k" for k
    by (simp_all add: conns_Store_def newTunnelConn_def)
  with UDialed assms show ?thesis
    by (simp add: user_steps_def Dial_register_def user_ok_def sender_ok_def sendControl_def ok_Store)
next
  case (USend sn k)
  with assms obtain e' res t where t: "(e', res, t) \<in> set (send_steps sn s)"
    and res: "case res of Inl sn' \<Rightarrow> e = e' \<and> us = USend sn' k \<and> s' = t
      | Inr err \<Rightarrow> (e, us, s') = resume k err t"
    by (auto simp: user_steps_def split: sum.splits)
  have sn: "sender_ok s sn" using USend assms(2) by (simp add: user_ok_def)
  note ok = send_ok[OF assms(1) sn t]
  show ?thesis
  proof (cases res)
    case (Inl sn')
    have "user_ok t (USend sn k)" using user_ok_grows[OF assms(2)[unfolded USend] ok(2)] .
    then show ?thesis using ok Inl res by (simp add: user_ok_def)
  next
    case (Inr err)
    have "user_ok t (USend sn k)" using user_ok_grows[OF assms(2)[unfolded USend] ok(2)] .
    from resume_ok[OF ok(1) this, of err e us s'] show ?thesis
      using Inr res ok(2) grows_trans by auto
  qed
next
  case URwClose
  with assms show ?thesis by (auto simp: user_steps_def user_ok_def session_ok_def grows_def)
qed (use assms in \<open>simp_all add: user_steps_def\<close>)

lemma rl_steps_ok:
  assumes "session_ok s" "rl_ok s l" "(e, l', s') \<in> set (rl_steps l s)"
  shows "session_ok s' \<and> rl_ok s' l' \<and> grows s s'"
proof (cases l)
  case (RLHandle m)
  have "length (heap s) < length (heap (conns_Store k s))"
    "tc_id (heap (conns_Store k s) ! length (heap s)) = k" for k
    by (simp_all add: conns_Store_def newTunnelConn_def)
  with RLHandle assms show ?thesis
    using ok_Store[OF assms(1)] session_ok_mapped[OF assms(1)]
    by (auto simp: rl_steps_def handleOpen_def handleData_def handleClose_def rl_ok_def
        split: if_splits option.splits)
next
  case (RLOpened r cid)
  with assms have r: "r < length (heap s)" by (simp add: rl_ok_def)
  have "session_ok (s\<lparr>connCh := connCh s @ [r]\<rparr>)" "grows s (s\<lparr>connCh := connCh s @ [r]\<rparr>)"
    if "length (connCh s) < connChCap"
    using assms(1) r that by (auto simp: session_ok_def grows_def)
  with RLOpened assms show ?thesis
    by (auto simp: rl_steps_def handleOpen_offer_def Let_def rl_ok_def sender_ok_def sendClose_def
        sendControl_def split: if_splits)
next
  case (RLReject sn cid)
  then have sn: "sender_ok s sn" using assms(2) by (simp add: rl_ok_def)
  from RLReject assms obtain e' res t where t: "(e', res, t) \<in> set (send_steps sn s)"
    and res: "case res of Inl sn' \<Rightarrow> l' = RLReject sn' cid \<and> s' = t
      | Inr err \<Rightarrow> l' = RLRead \<and> s' = conns_Delete cid t"
    by (auto simp: rl_steps_def split: sum.splits)
  note ok = send_ok[OF assms(1) sn t]
  show ?thesis
    using res ok ok_Delete[OF ok(1), of cid] grows_trans[OF ok(2)]
    by (cases res) (auto simp: rl_ok_def)
next
  case (RLDeliver r d)
  with assms obtain put c where c: "(put, c) \<in> set (deliverData d (heap s ! r))" "l' = RLRead"
    "s' = set_conn r c s" and r: "r < length (heap s)"
    by (auto simp: rl_steps_def handleData_deliver_def rl_ok_def)
  show ?thesis
    using ok_set_conn[OF assms(1) r, of c] deliverData_same[OF c(1)]
      conn_ok_deliver[OF session_ok_conn[OF assms(1) r] c(1)] c(2,3)
    by (simp add: rl_ok_def)
next
  case (RLRemoteClose r)
  with assms show ?thesis
    using remoteClose_ok[of s r s'] by (auto simp: rl_steps_def rl_ok_def)
next
  case RLClosing
  with assms show ?thesis
    using session_close_ok[OF assms(1)] by (auto simp: rl_steps_def rl_ok_def)
qed (use assms in \<open>simp_all add: rl_steps_def\<close>)

lemma wl_take_ok:
  assumes "session_ok s" "(e, w', s') \<in> set (wl_take ch b s)"
  shows "session_ok s' \<and> wl_ok s' w' \<and> grows s s'"
proof -
  from assms(2) obtain q qs where q: "chan ch s = q # qs" "w' = WLWrite b q" "s' = set_chan ch qs s"
    by (cases "chan ch s") (auto simp: wl_take_def)
  then show ?thesis
    using ok_take[OF assms(1) q(1)] by (simp add: wl_ok_def set_chan_def split: prio.split)
qed

lemma wl_steps_ok:
  assumes "session_ok s" "wl_ok s w" "(e, w', s') \<in> set (wl_steps w s)"
  shows "session_ok s' \<and> wl_ok s' w' \<and> grows s s'"
proof (cases w)
  case WLPoll
  with assms show ?thesis
    using wl_take_ok[OF assms(1)] by (auto simp: wl_steps_def Let_def wl_ok_def split: if_splits)
next
  case WLSelect
  with assms show ?thesis
    using wl_take_ok[OF assms(1)] by (auto simp: wl_steps_def wl_ok_def split: if_splits)
next
  case (WLWrite b q)
  with assms show ?thesis
    using ok_set_reply[OF assms(1), of q]
    by (auto simp: wl_steps_def wl_write_def Let_def wl_ok_def)
qed (use assms in \<open>simp_all add: wl_steps_def\<close>)

lemma session_ok_new: "session_ok NewSession"
  by (simp add: session_ok_def NewSession_def)

interpretation basic: rely "\<lambda>_. session_ok" "\<lambda>_. user_ok" "\<lambda>_. rl_ok" "\<lambda>_. wl_ok" "\<lambda>_ _. grows"
proof
  show "session_ok NewSession \<and> user_ok NewSession UIdle \<and> rl_ok NewSession RLRead
      \<and> wl_ok NewSession WLPoll"
    by (simp add: session_ok_new user_ok_def rl_ok_def wl_ok_def)
  show "session_ok s \<Longrightarrow> rl_ok s RLRead \<Longrightarrow> session_ok s \<and> rl_ok s (on_record rec) \<and> grows s s"
    for s rec by (simp add: on_record_def rl_ok_def split: sum.split)
qed (auto intro: user_ok_grows rl_ok_grows wl_ok_grows
      dest: api_ok user_steps_ok rl_steps_ok wl_steps_ok)

end
