(* ===== verification/Streams.thy ===== *)
theory Streams
  imports Threads
begin

text \<open>
  The stream a caller reads from a connection, over every run: the bytes are a prefix of the
  payloads the peer sent for its id since the connection was stored under it. The property is an
  invariant over the events of the run, an interpretation of \<open>relative\<close> on top of \<open>basic\<close>.
\<close>

section \<open>How a step changes the connections\<close>

definition flow :: "nat \<Rightarrow> event \<Rightarrow> byte list \<Rightarrow> byte list \<Rightarrow> bool" where
  "flow r e x y = (case e of
     ReadOk r' b \<Rightarrow> if r' = r then x = b @ y else y = x
   | Delivered r' d \<Rightarrow> if r' = r then y = x @ d else y = x
   | _ \<Rightarrow> y = x)"

definition pend :: "session \<Rightarrow> nat \<Rightarrow> byte list" where
  "pend s r = pending (heap s ! r)"

definition conn_step :: "event \<Rightarrow> session \<Rightarrow> session \<Rightarrow> bool" where
  "conn_step e s s' \<longleftrightarrow>
     (\<forall>r < length (heap s). flow r e (pend s r) (pend s' r) \<and> (\<forall>k. e \<noteq> Stored r k))
     \<and> (\<forall>r. \<not> r < length (heap s) \<longrightarrow> r < length (heap s')
          \<longrightarrow> e = Stored r (tc_id (heap s' ! r)) \<and> pend s' r = [])
     \<and> (\<forall>r k. e = Stored r k \<longrightarrow> r < length (heap s'))
     \<and> (\<forall>r b. e = ReadOk r b \<or> e = Delivered r b \<longrightarrow> r < length (heap s))"

lemma pending_simps [simp]:
  "pending (shut o1 c) = pending c" "pending (c\<lparr>once := o1\<rparr>) = pending c"
  "pending (newTunnelConn k) = []"
  by (simp_all add: pending_def shut_def newTunnelConn_def)

text \<open>A step that leaves the heap's length and every buffer alone.\<close>
definition quiet :: "session \<Rightarrow> session \<Rightarrow> bool" where
  "quiet s s' \<longleftrightarrow> length (heap s') = length (heap s)
     \<and> (\<forall>r < length (heap s). pend s' r = pend s r)"

lemma quiet_step:
  "quiet s s' \<Longrightarrow> (\<And>r k. e \<noteq> Stored r k) \<Longrightarrow> (\<And>r b. e \<noteq> ReadOk r b)
     \<Longrightarrow> (\<And>r b. e \<noteq> Delivered r b) \<Longrightarrow> conn_step e s s'"
  by (cases e) (auto simp: conn_step_def quiet_def flow_def)

lemma quiet_refl [simp]: "quiet s s"
  by (simp add: quiet_def)

lemma quiet_trans: "quiet s s' \<Longrightarrow> quiet s' s'' \<Longrightarrow> quiet s s''"
  by (simp add: quiet_def)

lemma quiet_same: "heap s' = heap s \<Longrightarrow> quiet s s'"
  by (simp add: quiet_def pend_def)

lemma quiet_conn: "r < length (heap s) \<Longrightarrow> pending c = pending (heap s ! r) \<Longrightarrow> quiet s (set_conn r c s)"
  by (simp add: quiet_def pend_def heap_set_conn)

lemma heap_simps [simp]:
  "heap (conns_Delete k s) = heap s" "heap (set_chan ch qs s) = heap s"
  "heap (set_reply q r s) = heap s" "heap (enqueue ch m s) = heap s"
  by (simp_all add: conns_Delete_def set_chan_def set_reply_def enqueue_def split: prio.split)

lemma quiet_Delete: "quiet s s' \<Longrightarrow> quiet s (conns_Delete k s')"
  by (simp add: quiet_def pend_def)

lemma quiet_send: "(e, res, s') \<in> set (send_steps sn s) \<Longrightarrow> quiet s s' \<and> e \<in> {Tau, Queued Control (length (reqs s)), Queued Data (length (reqs s))}"
  by (auto simp: send_steps_def intro: quiet_same split: sender.splits if_splits option.splits)
     (metis (full_types) prio.exhaust)

lemma quiet_remoteClose:
  assumes "r < length (heap s)" "s' \<in> set (remoteClose r s)"
  shows "quiet s s'"
proof -
  have "quiet s (conns_Delete k (set_conn r (shut o1 (heap s ! r)) s))" for k o1
    using assms(1) by (simp add: quiet_Delete quiet_conn)
  with assms(2) show ?thesis by (auto simp: remoteClose_def Let_def split: once_state.splits)
qed

lemma quiet_closeAll:
  "\<forall>r \<in> set rs. r < length (heap s) \<Longrightarrow> s' \<in> set (closeAll rs s) \<Longrightarrow> quiet s s'"
proof (induction rs arbitrary: s)
  case (Cons r rs)
  then obtain t where t: "t \<in> set (remoteClose r s)" "s' \<in> set (closeAll rs t)" by auto
  have q: "quiet s t" using Cons.prems(1) by (intro quiet_remoteClose[OF _ t(1)]) simp
  then have "\<forall>r \<in> set rs. r < length (heap t)" using Cons.prems(1) by (simp add: quiet_def)
  with Cons.IH[OF _ t(2)] q quiet_trans show ?case by blast
qed simp

lemma quiet_close:
  assumes "session_ok s" "s' \<in> set (session_close s)"
  shows "quiet s s'"
proof -
  have "\<forall>r \<in> set (map snd (conns s)). r < length (heap s)"
    using assms(1) by (auto simp: session_ok_def)
  moreover have "quiet s (s\<lparr>stopCh := True\<rparr>)" by (simp add: quiet_same)
  ultimately show ?thesis
    using assms(2) quiet_closeAll[of "map snd (conns s)" "s\<lparr>stopCh := True\<rparr>" s'] quiet_trans
    by (auto simp: session_close_def split: if_splits)
qed

lemma conn_step_old:
  assumes "conn_step e s s'" "r < length (heap s)"
  shows "flow r e (pend s r) (pend s' r)" "e \<noteq> Stored r k"
  using assms unfolding conn_step_def by blast+

lemma conn_step_new:
  assumes "conn_step e s s'" "\<not> r < length (heap s)" "r < length (heap s')"
  shows "e = Stored r (tc_id (heap s' ! r))" "pend s' r = []"
  using assms unfolding conn_step_def by blast+

lemma conn_step_none:
  assumes "conn_step e s s'" "\<not> r < length (heap s)"
  shows "e \<noteq> ReadOk r b" "e \<noteq> Delivered r b" "e = Stored r k \<Longrightarrow> r < length (heap s')"
  using assms unfolding conn_step_def by blast+

lemma store_step: "conn_step (Stored (length (heap s)) k) s (conns_Store k s)"
  by (auto simp: conn_step_def conns_Store_def pend_def flow_def newTunnelConn_def nth_append pending_def less_Suc_eq)

lemma api_conn:
  assumes "session_ok s" "(e, us, s') \<in> set (api_steps a s)"
  shows "conn_step e s s'"
proof -
  have o: "r \<in> set (owned s) \<Longrightarrow> r < length (heap s)" for r
    using assms(1) by (simp add: session_ok_def)
  show ?thesis
  proof (cases a)
    case (AClose r)
    with assms have r: "r < length (heap s)" using o by (auto simp: api_steps_def split: if_splits)
    have "quiet s (conns_Delete k (set_conn r (shut o1 (heap s ! r)) s))" for k o1
      using r by (simp add: quiet_Delete quiet_conn)
    with AClose assms show ?thesis
      by (auto simp: api_steps_def tc_Close_def Let_def intro!: quiet_step split: if_splits once_state.splits)
  next
    case (ARead r n)
    with assms obtain res c where rc: "r < length (heap s)" "(res, c) \<in> set (tc_Read n (heap s ! r))"
      "e = (case res of Inr b \<Rightarrow> ReadOk r b | Inl e \<Rightarrow> ReadErr r e)" "s' = set_conn r c s"
      using o by (auto simp: api_steps_def conn_Read_def split: if_splits)
    show ?thesis
    proof (cases res)
      case (Inl er)
      then show ?thesis using rc conn_stream.view_fail[of er c n "heap s ! r"]
        by (auto intro!: quiet_step quiet_conn)
    next
      case (Inr b)
      then show ?thesis using rc conn_stream.view_get[of b c n "heap s ! r"]
        by (auto simp: conn_step_def flow_def pend_def heap_set_conn)
    qed
  next
    case AAccept
    with assms show ?thesis
      by (cases "connCh s") (auto simp: api_steps_def Accept_def intro!: quiet_step quiet_same split: if_splits)
  next
    case ASessionClose
    with assms show ?thesis
      by (auto simp: api_steps_def intro!: quiet_step quiet_close)
  qed (use assms in \<open>auto simp: api_steps_def Dial_def tc_Write_def listener_Close_def
        intro!: quiet_step quiet_same split: if_splits\<close>)
qed

lemma resume_conn:
  assumes "user_ok s (USend sn k)" "resume k err s = (e, us, s')"
  shows "quiet s s' \<and> (\<forall>r k. e \<noteq> Stored r k) \<and> (\<forall>r b. e \<noteq> ReadOk r b) \<and> (\<forall>r b. e \<noteq> Delivered r b)"
  using assms by (cases k; cases err)
    (auto simp: resume_def user_ok_def intro: quiet_same quiet_conn)

lemma user_conn:
  assumes "session_ok s" "user_ok s u" "(e, us, s') \<in> set (user_steps u s)"
  shows "conn_step e s s'"
proof (cases u)
  case (UDialing addr)
  with assms(3) show ?thesis
    by (auto simp: user_steps_def Dial_next_def Let_def intro!: quiet_step quiet_same)
next
  case (UDialed cid addr)
  with assms(3) show ?thesis by (simp add: user_steps_def Dial_register_def store_step)
next
  case (USend sn k)
  with assms obtain e' res t where t: "(e', res, t) \<in> set (send_steps sn s)"
    and res: "case res of Inl sn' \<Rightarrow> e = e' \<and> us = USend sn' k \<and> s' = t
      | Inr err \<Rightarrow> (e, us, s') = resume k err t"
    by (auto simp: user_steps_def split: sum.splits)
  have sn: "sender_ok s sn" using USend assms(2) by (simp add: user_ok_def)
  show ?thesis
  proof (cases res)
    case (Inl sn')
    then show ?thesis using quiet_send[OF t] res by (auto intro!: quiet_step)
  next
    case (Inr err)
    have "user_ok t (USend sn k)"
      using user_ok_grows[OF assms(2)[unfolded USend] send_ok(2)[OF assms(1) sn t]] .
    from resume_conn[OF this, of err e us s'] show ?thesis
      using Inr res quiet_trans quiet_send[OF t] by (auto intro!: quiet_step)
  qed
next
  case URwClose
  with assms show ?thesis by (auto simp: user_steps_def intro!: quiet_step quiet_same)
qed (use assms in \<open>simp_all add: user_steps_def\<close>)

lemma rl_conn:
  assumes "session_ok s" "rl_ok s l" "(e, l', s') \<in> set (rl_steps l s)"
  shows "conn_step e s s'"
proof (cases l)
  case (RLHandle m)
  with assms show ?thesis
    by (auto simp: rl_steps_def handleOpen_def handleData_def handleClose_def store_step
        intro!: quiet_step split: if_splits option.splits)
next
  case (RLOpened r cid)
  with assms show ?thesis
    by (auto simp: rl_steps_def handleOpen_offer_def Let_def intro!: quiet_step quiet_same split: if_splits)
next
  case (RLReject sn cid)
  with assms obtain res t where t: "(e, res, t) \<in> set (send_steps sn s)"
    and res: "s' = t \<or> s' = conns_Delete cid t"
    by (auto simp: rl_steps_def split: sum.splits)
  have "quiet s s'" using quiet_send[OF t] res quiet_Delete by blast
  then show ?thesis using quiet_send[OF t] by (auto intro!: quiet_step)
next
  case (RLDeliver r d)
  with assms obtain put c where c: "(put, c) \<in> set (deliverData d (heap s ! r))" "s' = set_conn r c s"
      "e = (if put then Delivered r d else Dropped r d)" and r: "r < length (heap s)"
    by (auto simp: rl_steps_def handleData_deliver_def rl_ok_def)
  have p: "pending c = (if put then pending (heap s ! r) @ d else pending (heap s ! r))"
    using c(1) conn_stream.view_put[of d "heap s ! r"] by (auto simp: deliverData_def split: if_splits)
  show ?thesis
  proof (cases put)
    case True
    then show ?thesis using c p r by (auto simp: conn_step_def flow_def pend_def heap_set_conn)
  next
    case False
    then show ?thesis using c p r by (auto intro!: quiet_step quiet_conn)
  qed
next
  case (RLRemoteClose r)
  with assms show ?thesis
    by (auto simp: rl_steps_def rl_ok_def intro!: quiet_step quiet_remoteClose)
next
  case RLClosing
  with assms show ?thesis
    by (auto simp: rl_steps_def intro!: quiet_step quiet_close)
qed (use assms in \<open>simp_all add: rl_steps_def\<close>)

lemma wl_conn:
  assumes "(e, w', s') \<in> set (wl_steps w s)"
  shows "conn_step e s s'"
proof -
  have "quiet s s' \<and> e \<in> {Tau} \<union> range (case_prod Took) \<union> range (case_prod Wrote) \<union> range WriteFailed"
    using assms by (auto simp: wl_steps_def wl_take_def wl_write_def Let_def intro: quiet_same
        split: wloop.splits list.splits if_splits)
  then show ?thesis by (auto intro!: quiet_step)
qed

section \<open>Bytes arrive in order\<close>

definition reads :: "nat \<Rightarrow> event list \<Rightarrow> byte list" where
  "reads r tr = concat (map (\<lambda>e. case e of ReadOk r' b \<Rightarrow> if r' = r then b else [] | _ \<Rightarrow> []) tr)"

definition deliveries :: "nat \<Rightarrow> event list \<Rightarrow> byte list" where
  "deliveries r tr = concat (map (\<lambda>e. case e of Delivered r' d \<Rightarrow> if r' = r then d else [] | _ \<Rightarrow> []) tr)"

text \<open>The data messages among the records received, and those the read loop has looked up.\<close>
definition received :: "event list \<Rightarrow> (u64 \<times> byte list) list" where
  "received tr = concat (map (\<lambda>e. case e of
     Recv rec \<Rightarrow> (case on_record rec of
                   RLHandle m \<Rightarrow> if Type m = MsgData then [(ConnID m, Payload m)] else []
                 | _ \<Rightarrow> [])
   | _ \<Rightarrow> []) tr)"

definition looked :: "event list \<Rightarrow> (u64 \<times> byte list) list" where
  "looked tr = concat (map (\<lambda>e. case e of Routed k d \<Rightarrow> [(k, d)] | _ \<Rightarrow> []) tr)"

definition payloads :: "u64 \<Rightarrow> (u64 \<times> byte list) list \<Rightarrow> byte list" where
  "payloads k ms = concat (map snd (filter (\<lambda>m. fst m = k) ms))"

text \<open>The bytes looked up for the id of connection \<open>r\<close> since it was stored.\<close>
definition routed_step :: "nat \<Rightarrow> u64 option \<times> byte list \<Rightarrow> event \<Rightarrow> u64 option \<times> byte list" where
  "routed_step r st e = (case e of
     Stored r' k \<Rightarrow> if r' = r then (Some k, []) else st
   | Routed k d \<Rightarrow> if fst st = Some k then (fst st, snd st @ d) else st
   | _ \<Rightarrow> st)"

definition routed :: "nat \<Rightarrow> event list \<Rightarrow> u64 option \<times> byte list" where
  "routed r tr = foldl (routed_step r) (None, []) tr"

lemma trace_simps [simp]:
  "reads r [] = []" "deliveries r [] = []" "received [] = []" "looked [] = []" "routed r [] = (None, [])"
  "reads r (tr @ [e]) = reads r tr @ (case e of ReadOk r' b \<Rightarrow> if r' = r then b else [] | _ \<Rightarrow> [])"
  "deliveries r (tr @ [e]) = deliveries r tr @ (case e of Delivered r' d \<Rightarrow> if r' = r then d else [] | _ \<Rightarrow> [])"
  "looked (tr @ [e]) = looked tr @ (case e of Routed k d \<Rightarrow> [(k, d)] | _ \<Rightarrow> [])"
  "routed r (tr @ [e]) = routed_step r (routed r tr) e"
  by (simp_all add: reads_def deliveries_def received_def looked_def routed_def)

lemma trace_other:
  "(\<And>b. e \<noteq> ReadOk r b) \<Longrightarrow> reads r (tr @ [e]) = reads r tr"
  "(\<And>d. e \<noteq> Delivered r d) \<Longrightarrow> deliveries r (tr @ [e]) = deliveries r tr"
  "(\<And>k. e \<noteq> Stored r k) \<Longrightarrow> fst (routed r (tr @ [e])) = fst (routed r tr)"
  "(\<And>k. e \<noteq> Stored r k) \<Longrightarrow> (\<And>k d. e \<noteq> Routed k d) \<Longrightarrow> routed r (tr @ [e]) = routed r tr"
  "fst (routed r tr) = None \<Longrightarrow> (\<And>k. e \<noteq> Stored r k) \<Longrightarrow> routed r (tr @ [e]) = routed r tr"
  by (cases e; force simp: routed_step_def)+

lemma trace_Stored:
  "reads r (tr @ [Stored r k]) = reads r tr" "deliveries r (tr @ [Stored r k]) = deliveries r tr"
  "routed r (tr @ [Stored r k]) = (Some k, [])"
  by (simp_all add: routed_step_def)

lemma received_snoc:
  "received (tr @ [e]) = received tr @ (case e of
     Recv rec \<Rightarrow> (case on_record rec of
                   RLHandle m \<Rightarrow> if Type m = MsgData then [(ConnID m, Payload m)] else []
                 | _ \<Rightarrow> [])
   | _ \<Rightarrow> [])"
  by (simp add: received_def)

lemma payloads_append [simp]: "payloads k (xs @ ys) = payloads k xs @ payloads k ys"
  by (simp add: payloads_def)

lemma payloads_nil [simp]: "payloads k [] = []"
  by (simp add: payloads_def)

lemma payloads_single [simp]: "payloads k [(k', d)] = (if k' = k then d else [])"
  by (simp add: payloads_def)

lemma routed_looked:
  "fst (routed r tr) = Some k \<Longrightarrow> \<exists>m \<le> length (looked tr). snd (routed r tr) = payloads k (drop m (looked tr))"
proof (induction tr rule: rev_induct)
  case (snoc e tr)
  show ?case
  proof (cases "\<exists>k. e = Stored r k")
    case True
    then show ?thesis by (auto simp: routed_step_def intro!: exI[of _ "length (looked tr)"])
  next
    case False
    then have "fst (routed r tr) = Some k"
      using snoc.prems by (auto simp: routed_step_def split: event.splits if_splits)
    with snoc.IH obtain m where m: "m \<le> length (looked tr)"
      "snd (routed r tr) = payloads k (drop m (looked tr))" by auto
    have "snd (routed r (tr @ [e])) = payloads k (drop m (looked (tr @ [e])))"
      using False m \<open>fst (routed r tr) = Some k\<close>
      by (auto simp: routed_step_def split: event.splits)
    with m show ?thesis by (intro exI[of _ m]) simp
  qed
qed simp

definition stream_inv :: "nat \<Rightarrow> event list \<Rightarrow> session \<Rightarrow> bool" where
  "stream_inv r tr s \<longleftrightarrow>
     (if r < length (heap s)
      then deliveries r tr = reads r tr @ pend s r \<and> fst (routed r tr) = Some (tc_id (heap s ! r))
      else deliveries r tr = [] \<and> reads r tr = [] \<and> routed r tr = (None, []))"

definition in_step :: "nat \<Rightarrow> event list \<Rightarrow> session \<Rightarrow> bool" where
  "in_step r tr s \<longleftrightarrow> prefix (deliveries r tr) (snd (routed r tr))
     \<and> ((tc_id (heap s ! r), r) \<in> set (conns s) \<longrightarrow> deliveries r tr = snd (routed r tr))"

definition stream_reader :: "nat \<Rightarrow> event list \<Rightarrow> session \<Rightarrow> rloop \<Rightarrow> bool" where
  "stream_reader r tr s l \<longleftrightarrow> (r < length (heap s) \<longrightarrow>
     (if \<exists>d. l = RLDeliver r d
      then \<exists>d. l = RLDeliver r d \<and> snd (routed r tr) = deliveries r tr @ d
      else in_step r tr s))"

lemma flow_trace:
  assumes "flow r e x y" "deliveries r tr = reads r tr @ x"
  shows "deliveries r (tr @ [e]) = reads r (tr @ [e]) @ y"
  using assms by (cases e) (auto simp: flow_def split: if_splits)

lemma stream_inv_step:
  assumes inv: "stream_inv r tr s" and c: "conn_step e s s'" and g: "grows s s'"
  shows "stream_inv r (tr @ [e]) s'"
proof (cases "r < length (heap s)")
  case True
  have "r < length (heap s')" "tc_id (heap s' ! r) = tc_id (heap s ! r)"
    using g True by (auto simp: grows_def)
  then show ?thesis
    using inv True flow_trace[OF conn_step_old(1)[OF c True]] conn_step_old(2)[OF c True]
    by (simp add: stream_inv_def trace_other(3) del: trace_simps)
next
  case False
  then have d: "deliveries r tr = []" "reads r tr = []" "routed r tr = (None, [])"
    using inv by (simp_all add: stream_inv_def)
  show ?thesis
  proof (cases "r < length (heap s')")
    case True
    obtain k where k: "e = Stored r k" "tc_id (heap s' ! r) = k" "pend s' r = []"
      using conn_step_new[OF c False True] by auto
    show ?thesis using True d k by (simp add: stream_inv_def trace_Stored del: trace_simps)
  next
    case none: False
    have "\<And>b. e \<noteq> ReadOk r b" "\<And>b. e \<noteq> Delivered r b" "\<And>k. e \<noteq> Stored r k"
      using conn_step_none[OF c False] none by blast+
    then show ?thesis
      using none d by (simp add: stream_inv_def trace_other del: trace_simps)
  qed
qed

lemma in_step_keep:
  assumes "in_step r tr s" and r: "r < length (heap s)" and g: "grows s s'" and c: "conn_step e s s'"
    and e: "\<And>d. e \<noteq> Delivered r d" "\<And>k d. e \<noteq> Routed k d"
  shows "in_step r (tr @ [e]) s'"
proof -
  have "tc_id (heap s' ! r) = tc_id (heap s ! r)"
    "(tc_id (heap s ! r), r) \<in> set (conns s') \<longrightarrow> (tc_id (heap s ! r), r) \<in> set (conns s)"
    using r g by (simp_all add: grows_def)
  then show ?thesis
    using assms(1) trace_other(2)[OF e(1)] trace_other(4)[OF conn_step_old(2)[OF c r] e(2)]
    by (simp add: in_step_def del: trace_simps)
qed

lemma in_step_new:
  assumes inv: "stream_inv r tr s" and r: "\<not> r < length (heap s)" "r < length (heap s')"
    and c: "conn_step e s s'"
  shows "in_step r (tr @ [e]) s'"
proof -
  obtain k where "e = Stored r k" using conn_step_new(1)[OF c r] by auto
  then show ?thesis
    using inv r(1) by (simp add: in_step_def stream_inv_def trace_Stored del: trace_simps)
qed

text \<open>Every step that is not a look-up or a delivery leaves the read loop's obligation alone.\<close>
lemma stream_reader_keep:
  assumes inv: "stream_inv r tr s" and ok: "rl_ok s l" "grows s s'" "conn_step e s s'"
    and e: "\<And>d. e \<noteq> Delivered r d" "\<And>k d. e \<noteq> Routed k d" and l: "stream_reader r tr s l"
    and l': "\<And>d. l' = RLDeliver r d \<longleftrightarrow> l = RLDeliver r d"
  shows "stream_reader r (tr @ [e]) s' l'"
proof (cases "r < length (heap s)")
  case True
  note t = trace_other(2)[OF e(1)] trace_other(4)[OF conn_step_old(2)[OF ok(3) True] e(2)]
  show ?thesis
  proof (cases "\<exists>d. l = RLDeliver r d")
    case d: True
    with True l t l' show ?thesis by (simp add: stream_reader_def del: trace_simps)
  next
    case False
    then have "in_step r tr s" using l True by (simp add: stream_reader_def)
    from in_step_keep[OF this True ok(2,3) e] False l' show ?thesis
      by (simp add: stream_reader_def del: trace_simps)
  qed
next
  case False
  have "l \<noteq> RLDeliver r d" for d using ok(1) False by (auto simp: rl_ok_def)
  then have "\<And>d. l' \<noteq> RLDeliver r d" using l' by blast
  with False show ?thesis
    using in_step_new[OF inv False _ ok(3)] by (simp add: stream_reader_def del: trace_simps)
qed

lemma mapped_map_of:
  "session_ok s \<Longrightarrow> (k, r) \<in> set (conns s) \<longleftrightarrow> map_of (conns s) k = Some r"
  by (simp add: session_ok_def map_of_eq_Some_iff)

lemma stream_reader_lookup:
  assumes ok: "session_ok s" and inv: "stream_inv r tr s" and l: "stream_reader r tr s (RLHandle m)"
    and h: "(e, l', s') \<in> set (handleData m s)"
  shows "stream_reader r (tr @ [e]) s' l'"
proof (cases "r < length (heap s)")
  case True
  have b: "in_step r tr s" using l True by (simp add: stream_reader_def)
  have f: "fst (routed r tr) = Some (tc_id (heap s ! r))" using inv True by (simp add: stream_inv_def)
  have s': "s' = s" "e = Routed (ConnID m) (Payload m)"
    and l': "l' = (case map_of (conns s) (ConnID m) of None \<Rightarrow> RLRead | Some r' \<Rightarrow> RLDeliver r' (Payload m))"
    using h by (auto simp: handleData_def split: option.splits)
  have ds: "deliveries r (tr @ [e]) = deliveries r tr"
    and ro: "snd (routed r (tr @ [e])) =
      (if ConnID m = tc_id (heap s ! r) then snd (routed r tr) @ Payload m else snd (routed r tr))"
    using f s'(2) by (auto simp: routed_step_def)
  show ?thesis
  proof (cases "map_of (conns s) (ConnID m) = Some r")
    case m: True
    then have "tc_id (heap s ! r) = ConnID m" "l' = RLDeliver r (Payload m)"
      using session_ok_mapped[OF ok m] l' by simp_all
    moreover have "deliveries r tr = snd (routed r tr)"
      using b m mapped_map_of[OF ok, of "ConnID m" r] calculation(1) by (simp add: in_step_def)
    ultimately show ?thesis
      using ds ro s'(1) by (simp add: stream_reader_def del: trace_simps)
  next
    case m: False
    then have "in_step r (tr @ [e]) s"
      using b ds ro mapped_map_of[OF ok, of "ConnID m" r]
      by (auto simp: in_step_def simp del: trace_simps)
    moreover have "l' \<noteq> RLDeliver r d" for d using l' m by (auto split: option.splits)
    ultimately show ?thesis using s'(1) by (simp add: stream_reader_def)
  qed
next
  case False
  have "s' = s" using h by (auto simp: handleData_def split: option.splits)
  with False show ?thesis by (simp add: stream_reader_def)
qed

lemma stream_reader_deliver:
  assumes ok: "session_ok s" "rl_ok s (RLDeliver r' d)" and l: "stream_reader r tr s (RLDeliver r' d)"
    and h: "(e, l', s') \<in> set (handleData_deliver r' d s)" and c: "grows s s'" "conn_step e s s'"
  shows "stream_reader r (tr @ [e]) s' l'"
proof -
  have r': "r' < length (heap s)" using ok(2) by (simp add: rl_ok_def)
  obtain put c where p: "(put, c) \<in> set (deliverData d (heap s ! r'))" "l' = RLRead"
    "s' = set_conn r' c s" "e = (if put then Delivered r' d else Dropped r' d)"
    using h by (auto simp: handleData_deliver_def)
  show ?thesis
  proof (cases "r' = r")
    case True
    have "snd (routed r tr) = deliveries r tr @ d"
      using l True r' by (auto simp: stream_reader_def)
    moreover have "closeCh (heap s ! r)" if "\<not> put"
      using p(1) that True by (auto simp: deliverData_def split: if_splits)
    then have "(tc_id (heap s ! r), r) \<notin> set (conns s)" if "\<not> put"
      using that session_ok_conn[OF ok(1) r'] True ok(1) by (auto simp: conn_ok_def session_ok_def)
    moreover have "tc_id c = tc_id (heap s ! r)" using deliverData_same[OF p(1)] True by simp
    moreover have "tc_id (heap s' ! r) = tc_id (heap s ! r)" "conns s' = conns s"
      using calculation(3) True p(3) r' by (simp_all add: heap_set_conn)
    moreover have "snd (routed r (tr @ [e])) = snd (routed r tr)"
      "deliveries r (tr @ [e]) = (if put then deliveries r tr @ d else deliveries r tr)"
      using True p(4) by (simp_all add: routed_step_def)
    ultimately have "in_step r (tr @ [e]) s'" by (cases put) (simp_all add: in_step_def del: trace_simps)
    then show ?thesis using p(2) by (simp add: stream_reader_def)
  next
    case False
    have "r < length (heap s) \<Longrightarrow> in_step r tr s" using l False by (simp add: stream_reader_def)
    moreover have "length (heap s') = length (heap s)" using p(3) by simp
    moreover have "\<forall>d. e \<noteq> Delivered r d" "\<forall>k d. e \<noteq> Routed k d" using p(4) False by auto
    ultimately show ?thesis
      using in_step_keep[OF _ _ c] p(2) by (auto simp: stream_reader_def)
  qed
qed

lemma stream_reader_quiet:
  assumes ok: "session_ok s" "rl_ok s l" and inv: "stream_inv r tr s" and l: "stream_reader r tr s l"
    and h: "(e, l', s') \<in> set (rl_steps l s)" and g: "grows s s'"
  shows "stream_reader r (tr @ [e]) s' l'"
proof -
  have c: "conn_step e s s'" using rl_conn[OF ok h] .
  consider (data) m where "l = RLHandle m" "Type m = MsgData"
    | (deliver) r' d where "l = RLDeliver r' d"
    | (other) "\<And>d. e \<noteq> Delivered r d" "\<And>k d. e \<noteq> Routed k d" "\<And>d. l \<noteq> RLDeliver r d"
        "\<And>d. l' \<noteq> RLDeliver r d"
  proof (cases l)
    case (RLHandle m)
    show thesis
    proof (cases "Type m = MsgData")
      case False
      then show thesis using h RLHandle
        by (intro other) (auto simp: rl_steps_def handleOpen_def handleClose_def split: if_splits option.splits)
    qed (use data RLHandle in auto)
  next
    case (RLReject sn cid)
    then obtain res t where t: "(e, res, t) \<in> set (send_steps sn s)" "l' = RLRead \<or> (\<exists>sn'. l' = RLReject sn' cid)"
      using h by (auto simp: rl_steps_def split: sum.splits)
    show thesis using quiet_send[OF t(1)] t(2) RLReject by (intro other) auto
  qed (use h other deliver in \<open>auto simp: rl_steps_def handleOpen_offer_def Let_def split: if_splits\<close>)
  then show ?thesis
  proof cases
    case data
    have "MsgData \<noteq> MsgOpen" by (simp add: MsgData_def MsgOpen_def)
    with data h have "(e, l', s') \<in> set (handleData m s)" by (simp add: rl_steps_def)
    from stream_reader_lookup[OF ok(1) inv _ this] l data show ?thesis by simp
  next
    case deliver
    with h have "(e, l', s') \<in> set (handleData_deliver r' d s)" by (simp add: rl_steps_def)
    from stream_reader_deliver[OF ok(1) _ _ this g c] ok(2) l deliver show ?thesis by simp
  next
    case other
    from stream_reader_keep[OF inv ok(2) g c other(1,2) l] other(3,4) show ?thesis by blast
  qed
qed

definition stream_other :: "thread \<Rightarrow> event \<Rightarrow> session \<Rightarrow> session \<Rightarrow> bool" where
  "stream_other t e s s' \<longleftrightarrow> conn_step e s s'
     \<and> (t \<noteq> Reader \<longrightarrow> (\<forall>r d. e \<noteq> Delivered r d) \<and> (\<forall>k d. e \<noteq> Routed k d))"

lemma user_events:
  "(e, us, s') \<in> set (api_steps a s) \<Longrightarrow> (\<forall>r d. e \<noteq> Delivered r d) \<and> (\<forall>k d. e \<noteq> Routed k d)
      \<and> (\<forall>rec. e \<noteq> Recv rec)"
  "(e, us, s') \<in> set (user_steps u s) \<Longrightarrow> (\<forall>r d. e \<noteq> Delivered r d) \<and> (\<forall>k d. e \<noteq> Routed k d)
      \<and> (\<forall>rec. e \<noteq> Recv rec)"
proof -
  show "(e, us, s') \<in> set (api_steps a s) \<Longrightarrow> (\<forall>r d. e \<noteq> Delivered r d) \<and> (\<forall>k d. e \<noteq> Routed k d)
      \<and> (\<forall>rec. e \<noteq> Recv rec)"
    by (cases a) (auto simp: api_steps_def Dial_def tc_Write_def tc_Close_def Let_def conn_Read_def
        Accept_def listener_Close_def split: if_splits once_state.splits list.splits sum.splits)
  show "(e, us, s') \<in> set (user_steps u s) \<Longrightarrow> (\<forall>r d. e \<noteq> Delivered r d) \<and> (\<forall>k d. e \<noteq> Routed k d)
      \<and> (\<forall>rec. e \<noteq> Recv rec)"
  proof (cases u)
    case (USend sn k)
    assume "(e, us, s') \<in> set (user_steps u s)"
    with USend obtain e' res t where t: "(e', res, t) \<in> set (send_steps sn s)"
      and res: "case res of Inl sn' \<Rightarrow> e = e' | Inr err \<Rightarrow> (e, us, s') = resume k err t"
      by (auto simp: user_steps_def split: sum.splits)
    show ?thesis using quiet_send[OF t] res
      by (cases res; cases k) (auto simp: resume_def split: option.splits)
  qed (auto simp: user_steps_def Dial_next_def Dial_register_def Let_def)
qed

lemma wl_events:
  "(e, w', s') \<in> set (wl_steps w s) \<Longrightarrow> (\<forall>r d. e \<noteq> Delivered r d) \<and> (\<forall>k d. e \<noteq> Routed k d)
      \<and> (\<forall>rec. e \<noteq> Recv rec)"
  by (auto simp: wl_steps_def wl_take_def wl_write_def Let_def split: wloop.splits list.splits if_splits)

lemma silent_conn: "conn_step SessClosed s s" "conn_step RecvFailed s s" "conn_step (Recv rec) s s"
  by (simp_all add: quiet_step)

lemma stream_start: "stream_inv r [] NewSession" "stream_reader r [] NewSession RLRead"
  by (simp_all add: stream_inv_def stream_reader_def NewSession_def)

lemma stream_keep_idle:
  assumes "stream_inv r tr s" "session_ok s" "stream_reader r tr s RLRead" "conn_step e s s"
    "\<And>d. e \<noteq> Delivered r d" "\<And>k d. e \<noteq> Routed k d" "\<And>d. l' \<noteq> RLDeliver r d"
  shows "stream_reader r (tr @ [e]) s l'"
  using stream_reader_keep[OF assms(1) _ _ assms(4-6) assms(3), of l'] assms(7) by simp

interpretation stream: relative "\<lambda>_. session_ok" "\<lambda>_. user_ok" "\<lambda>_. rl_ok" "\<lambda>_. wl_ok" "\<lambda>_ _. grows"
  "stream_inv r" "\<lambda>_ _ _. True" "stream_reader r" "\<lambda>_ _ _. True" stream_other for r
proof
  show "stream_inv r [] NewSession \<and> True \<and> stream_reader r [] NewSession RLRead \<and> True"
    by (simp add: stream_start)
next
  show "stream_inv r (tr @ [e]) s' \<and> True \<and> stream_other User e s s'"
    if "session_ok s" "grows s s'" "stream_inv r tr s" "(e, us, s') \<in> set (api_steps a s)" for tr s e s' us a
    using that stream_inv_step[OF _ api_conn] user_events(1) by (auto simp: stream_other_def intro: api_conn)
next
  show "stream_inv r (tr @ [e]) s' \<and> True \<and> stream_other User e s s'"
    if "session_ok s" "grows s s'" "user_ok s u" "stream_inv r tr s" "(e, us, s') \<in> set (user_steps u s)"
    for tr s e s' us u
    using that stream_inv_step[OF _ user_conn] user_events(2) by (auto simp: stream_other_def intro: user_conn)
next
  show "stream_inv r (tr @ [e]) s' \<and> True \<and> stream_other Writer e s s'"
    if "grows s s'" "stream_inv r tr s" "(e, w', s') \<in> set (wl_steps w s)" for tr s e s' w w'
    using that stream_inv_step[OF _ wl_conn] wl_events by (auto simp: stream_other_def intro: wl_conn)
next
  show "stream_inv r (tr @ [e]) s' \<and> stream_reader r (tr @ [e]) s' l' \<and> stream_other Reader e s s'"
    if "session_ok s" "grows s s'" "rl_ok s l" "stream_inv r tr s" "stream_reader r tr s l"
      "(e, l', s') \<in> set (rl_steps l s)" for tr s e s' l l'
    using that stream_inv_step[OF _ rl_conn] stream_reader_quiet by (auto simp: stream_other_def intro: rl_conn)
next
  show "stream_inv r (tr @ [SessClosed]) s \<and> True \<and> stream_other User SessClosed s s"
    if "stream_inv r tr s" for tr s
    using that stream_inv_step[OF that silent_conn(1)] by (simp add: stream_other_def silent_conn)
next
  show "stream_inv r (tr @ [Recv rec]) s \<and> stream_reader r (tr @ [Recv rec]) s (on_record rec)
      \<and> stream_other Reader (Recv rec) s s"
    if "session_ok s" "stream_inv r tr s" "stream_reader r tr s RLRead" for tr s rec
  proof -
    have "on_record rec \<noteq> RLDeliver r d" for d by (simp add: on_record_def split: sum.split)
    then show ?thesis
      using stream_inv_step[OF that(2) silent_conn(3)] stream_keep_idle[OF that(2,1,3) silent_conn(3)]
      by (simp add: stream_other_def silent_conn)
  qed
next
  show "stream_inv r (tr @ [RecvFailed]) s \<and> stream_reader r (tr @ [RecvFailed]) s RLClosing
      \<and> stream_other Reader RecvFailed s s"
    if "session_ok s" "stream_inv r tr s" "stream_reader r tr s RLRead" for tr s
    using stream_inv_step[OF that(2) silent_conn(2)] stream_keep_idle[OF that(2,1,3) silent_conn(2), of RLClosing]
    by (simp add: stream_other_def silent_conn)
next
  show "stream_reader r (tr @ [e]) s' l"
    if "session_ok s" "grows s s'" "rl_ok s l" "stream_inv r tr s" "stream_inv r (tr @ [e]) s'"
      "stream_other t e s s'" "t \<noteq> Reader" "stream_reader r tr s l" for tr s t e s' l
    using stream_reader_keep[OF that(4,3,2) _ _ _ that(8), where e = e and l' = l] that(6,7) by (simp add: stream_other_def)
qed simp_all

section \<open>Arrivals\<close>

definition in_hand :: "rloop \<Rightarrow> (u64 \<times> byte list) list" where
  "in_hand l = (case l of
     RLHandle m \<Rightarrow> if Type m = MsgData then [(ConnID m, Payload m)] else [] | _ \<Rightarrow> [])"

definition arrivals :: "event list \<Rightarrow> session \<Rightarrow> rloop \<Rightarrow> bool" where
  "arrivals tr s l \<longleftrightarrow> received tr = looked tr @ in_hand l"

lemma arrivals_rl:
  assumes "arrivals tr s l" "(e, l', s') \<in> set (rl_steps l s)"
  shows "arrivals (tr @ [e]) s' l'"
proof (cases l)
  case (RLHandle m)
  with assms show ?thesis
    by (auto simp: arrivals_def rl_steps_def in_hand_def handleOpen_def handleData_def handleClose_def
        received_snoc MsgOpen_def MsgData_def MsgClose_def split: if_splits option.splits)
next
  case (RLReject sn cid)
  then obtain res t where t: "(e, res, t) \<in> set (send_steps sn s)" "l' = RLRead \<or> (\<exists>sn'. l' = RLReject sn' cid)"
    using assms(2) by (auto simp: rl_steps_def split: sum.splits)
  show ?thesis using assms(1) RLReject quiet_send[OF t(1)] t(2)
    by (auto simp: arrivals_def in_hand_def received_snoc)
qed (use assms in \<open>auto simp: arrivals_def in_hand_def received_snoc rl_steps_def handleOpen_offer_def
      handleData_deliver_def Let_def split: if_splits\<close>)

definition no_arrival :: "thread \<Rightarrow> event \<Rightarrow> session \<Rightarrow> session \<Rightarrow> bool" where
  "no_arrival t e s s' \<longleftrightarrow> (t \<noteq> Reader \<longrightarrow> (\<forall>rec. e \<noteq> Recv rec) \<and> (\<forall>k d. e \<noteq> Routed k d))"

lemma arrivals_other:
  "arrivals tr s l \<Longrightarrow> (\<forall>rec. e \<noteq> Recv rec) \<and> (\<forall>k d. e \<noteq> Routed k d) \<Longrightarrow> arrivals (tr @ [e]) s' l"
  by (cases e) (simp_all add: arrivals_def received_snoc)

interpretation arrival: relative "\<lambda>_. session_ok" "\<lambda>_. user_ok" "\<lambda>_. rl_ok" "\<lambda>_. wl_ok" "\<lambda>_ _. grows"
  "\<lambda>_ _. True" "\<lambda>_ _ _. True" arrivals "\<lambda>_ _ _. True" no_arrival
proof
  show "True \<and> True \<and> arrivals [] NewSession RLRead \<and> True"
    by (simp add: arrivals_def in_hand_def)
  show "True \<and> arrivals (tr @ [Recv rec]) s (on_record rec) \<and> no_arrival Reader (Recv rec) s s"
    if "arrivals tr s RLRead" for tr s rec
  proof -
    have "in_hand (on_record rec) = (case on_record rec of
        RLHandle m \<Rightarrow> if Type m = MsgData then [(ConnID m, Payload m)] else [] | _ \<Rightarrow> [])"
      by (simp add: in_hand_def)
    then show ?thesis
      using that by (simp add: arrivals_def received_snoc no_arrival_def in_hand_def)
  qed
  show "True \<and> arrivals (tr @ [RecvFailed]) s RLClosing \<and> no_arrival Reader RecvFailed s s"
    if "arrivals tr s RLRead" for tr s
    using that by (simp add: arrivals_def received_snoc no_arrival_def in_hand_def)
qed (auto simp: no_arrival_def intro: arrivals_rl arrivals_other dest: user_events wl_events)

lemma reads_routed:
  assumes "run (start n) tr S"
  shows "prefix (reads r tr) (snd (routed r tr))"
proof (cases "r < length (heap (sess S))")
  case True
  have inv: "stream_inv r tr (sess S)" using stream.both.global[OF assms] by blast
  have "stream_reader r tr (sess S) (rl S)" using stream.both.reader[OF assms] by blast
  then have "prefix (deliveries r tr) (snd (routed r tr))"
    using True by (auto simp: stream_reader_def in_step_def split: if_splits)
  moreover have "prefix (reads r tr) (deliveries r tr)" using inv True by (simp add: stream_inv_def)
  ultimately show ?thesis by (blast intro: prefix_order.trans)
next
  case False
  have "stream_inv r tr (sess S)" using stream.both.global[OF assms] by blast
  with False have "reads r tr = []" by (simp add: stream_inv_def)
  then show ?thesis by simp
qed

lemma looked_received: "run (start n) tr S \<Longrightarrow> received tr = looked tr @ in_hand (rl S)"
  using arrival.both.reader by (simp add: arrivals_def)

lemma reads_prefix:
  assumes "run (start n) tr S"
  shows "\<exists>m. prefix (reads r tr) (payloads (tc_id (heap (sess S) ! r)) (drop m (received tr)))"
proof (cases "r < length (heap (sess S))")
  case True
  have "stream_inv r tr (sess S)" using stream.both.global[OF assms] by blast
  then obtain m where "m \<le> length (looked tr)"
    "snd (routed r tr) = payloads (tc_id (heap (sess S) ! r)) (drop m (looked tr))"
    using True routed_looked[of r tr] by (auto simp: stream_inv_def)
  then have "prefix (reads r tr) (payloads (tc_id (heap (sess S) ! r)) (drop m (received tr)))"
    using reads_routed[OF assms, of r] looked_received[OF assms] by (auto intro: prefix_order.trans)
  then show ?thesis by blast
next
  case False
  have "stream_inv r tr (sess S)" using stream.both.global[OF assms] by blast
  with False have "reads r tr = []" by (simp add: stream_inv_def)
  then show ?thesis by simp
qed



end
