(* ===== verification/Service.thy ===== *)
theory Service
  imports Streams
begin

text \<open>
  What a call to the session promises: the write loop serves requests in the order they were
  queued, control records before data records, and a call returns success only when its record
  has been written.
\<close>

section \<open>How a step changes the requests\<close>

text \<open>The numbers queued on and taken from a channel.\<close>
definition queued :: "prio \<Rightarrow> event list \<Rightarrow> nat list" where
  "queued ch tr = concat (map (\<lambda>e. case e of Queued ch' q \<Rightarrow> if ch' = ch then [q] else [] | _ \<Rightarrow> []) tr)"

definition taken :: "prio \<Rightarrow> event list \<Rightarrow> nat list" where
  "taken ch tr = concat (map (\<lambda>e. case e of Took ch' q \<Rightarrow> if ch' = ch then [q] else [] | _ \<Rightarrow> []) tr)"

lemma queue_simps [simp]:
  "queued ch [] = []" "taken ch [] = []"
  "queued ch (tr @ [e]) = queued ch tr @ (case e of Queued ch' q \<Rightarrow> if ch' = ch then [q] else [] | _ \<Rightarrow> [])"
  "taken ch (tr @ [e]) = taken ch tr @ (case e of Took ch' q \<Rightarrow> if ch' = ch then [q] else [] | _ \<Rightarrow> [])"
  by (simp_all add: queued_def taken_def)

text \<open>A step that is not about requests.\<close>
definition still :: "event \<Rightarrow> session \<Rightarrow> session \<Rightarrow> bool" where
  "still e s s' \<longleftrightarrow> (\<forall>ch. chan ch s' = chan ch s) \<and> reqs s' = reqs s
     \<and> (\<forall>ch q. e \<noteq> Queued ch q \<and> e \<noteq> Took ch q) \<and> (\<forall>q d. e \<noteq> Wrote q d)"

lemma chan_simps [simp]:
  "chan ch (set_conn r c s) = chan ch s" "chan ch (conns_Delete k s) = chan ch s"
  "chan ch (conns_Store k s) = chan ch s" "chan ch (s\<lparr>nextID := n\<rparr>) = chan ch s"
  "chan ch (s\<lparr>connCh := rs\<rparr>) = chan ch s" "chan ch (s\<lparr>owned := rs\<rparr>) = chan ch s"
  "chan ch (s\<lparr>connCh := rs, owned := rs'\<rparr>) = chan ch s"
  "chan ch (s\<lparr>ln_closed := b\<rparr>) = chan ch s" "chan ch (s\<lparr>rw_closed := b\<rparr>) = chan ch s"
  "chan ch (s\<lparr>stopCh := b\<rparr>) = chan ch s" "chan ch (set_reply q ans s) = chan ch s"
  "chan ch (s\<lparr>reqs := w\<rparr>) = chan ch s" "chan ch (set_chan ch' qs s) = (if ch = ch' then qs else chan ch s)"
  by (auto simp: chan_def set_conn_def conns_Delete_def conns_Store_def set_reply_def set_chan_def
      split: prio.split)

lemma reqs_simps [simp]:
  "reqs (conns_Delete k s) = reqs s" "reqs (conns_Store k s) = reqs s" "reqs (set_chan ch qs s) = reqs s"
  by (simp_all add: conns_Delete_def conns_Store_def set_chan_def split: prio.split)

lemma closing_still:
  "s' \<in> set (remoteClose r s) \<Longrightarrow> chan ch s' = chan ch s \<and> reqs s' = reqs s"
  "s' \<in> set (closeAll rs s) \<Longrightarrow> chan ch s' = chan ch s \<and> reqs s' = reqs s"
  "s' \<in> set (session_close s) \<Longrightarrow> chan ch s' = chan ch s \<and> reqs s' = reqs s"
proof -
  show r: "s' \<in> set (remoteClose r s) \<Longrightarrow> chan ch s' = chan ch s \<and> reqs s' = reqs s" for s s' r
    by (auto simp: remoteClose_def Let_def split: once_state.splits)
  show c: "s' \<in> set (closeAll rs s) \<Longrightarrow> chan ch s' = chan ch s \<and> reqs s' = reqs s" for s s' rs
    by (induction rs arbitrary: s) (auto dest!: r)
  show "s' \<in> set (session_close s) \<Longrightarrow> chan ch s' = chan ch s \<and> reqs s' = reqs s"
    by (auto simp: session_close_def split: if_splits dest!: c)
qed

lemma api_still: "(e, us, s') \<in> set (api_steps a s) \<Longrightarrow> still e s s'"
  by (cases a) (auto simp: still_def api_steps_def Dial_def tc_Write_def tc_Close_def Let_def conn_Read_def
      Accept_def listener_Close_def closing_still split: if_splits once_state.splits list.splits sum.splits)

lemma resume_still: "resume k err s = (e, us, s') \<Longrightarrow> still e s s'"
  by (cases k; cases err) (auto simp: resume_def still_def)

text \<open>What a step does to the queues, and to the answers.\<close>
definition queue_step :: "event \<Rightarrow> session \<Rightarrow> session \<Rightarrow> bool" where
  "queue_step e s s' \<longleftrightarrow>
     (\<forall>ch. chan ch s @ queued ch [e] = taken ch [e] @ chan ch s')
     \<and> (\<forall>q < length (reqs s'). wr_err (reqs s' ! q) = Some None \<longrightarrow>
          (q < length (reqs s) \<and> wr_err (reqs s ! q) = Some None) \<or> e = Wrote q (wr_data (reqs s' ! q)))
     \<and> (\<forall>q d. e = Wrote q d \<longrightarrow> q < length (reqs s) \<and> d = wr_data (reqs s ! q))"

lemma still_queue: "still e s s' \<Longrightarrow> queue_step e s s'"
  by (cases e) (auto simp: still_def queue_step_def queued_def taken_def)

lemma send_queue:
  assumes "sender_ok s sn" "(e, res, s') \<in> set (send_steps sn s)"
  shows "queue_step e s s'" "res = Inr err \<Longrightarrow> e = Tau"
proof -
  show "res = Inr err \<Longrightarrow> e = Tau"
    using assms(2) by (auto simp: send_steps_def split: sender.splits if_splits option.splits)
  have "queue_step (Queued ch (length (reqs s))) s (enqueue ch m s)" for ch m
    by (auto simp: queue_step_def queued_def taken_def enqueue_def nth_append)
  moreover have "queue_step Tau s (set_reply q None s)" if "q < length (reqs s)" for q
    using that by (auto simp: queue_step_def queued_def taken_def set_reply_def nth_list_update split: if_splits)
  moreover have "queue_step Tau s s" by (auto simp: queue_step_def queued_def taken_def)
  ultimately show "queue_step e s s'"
    using assms by (auto simp: send_steps_def sender_ok_def split: sender.splits if_splits option.splits)
qed

lemma queue_step_still:
  "queue_step Tau s t \<Longrightarrow> still e t s' \<Longrightarrow> queue_step e s s'"
  by (cases e) (auto simp: still_def queue_step_def queued_def taken_def)

lemma user_queue:
  assumes "user_ok s u" "(e, us, s') \<in> set (user_steps u s)"
  shows "queue_step e s s'"
proof (cases u)
  case (USend sn k)
  with assms obtain e' res t where t: "(e', res, t) \<in> set (send_steps sn s)"
    and res: "case res of Inl sn' \<Rightarrow> e = e' \<and> us = USend sn' k \<and> s' = t
      | Inr err \<Rightarrow> (e, us, s') = resume k err t"
    by (auto simp: user_steps_def split: sum.splits)
  have sn: "sender_ok s sn" using USend assms(1) by (simp add: user_ok_def)
  show ?thesis
  proof (cases res)
    case (Inl sn')
    then show ?thesis using send_queue(1)[OF sn t] res by simp
  next
    case (Inr err)
    then have "queue_step Tau s t" using send_queue[OF sn t] by simp
    then show ?thesis using Inr res queue_step_still resume_still[of k err t e us s'] by simp
  qed
qed (use assms in \<open>auto simp: user_steps_def Dial_next_def Dial_register_def Let_def still_def
      intro!: still_queue\<close>)

lemma rl_queue:
  assumes "rl_ok s l" "(e, l', s') \<in> set (rl_steps l s)"
  shows "queue_step e s s'"
proof (cases l)
  case (RLReject sn cid)
  with assms obtain res t where t: "(e, res, t) \<in> set (send_steps sn s)"
    and res: "s' = (case res of Inl _ \<Rightarrow> t | Inr _ \<Rightarrow> conns_Delete cid t)"
    by (auto simp: rl_steps_def split: sum.splits)
  have sn: "sender_ok s sn" using RLReject assms(1) by (simp add: rl_ok_def)
  note q = send_queue[OF sn t]
  show ?thesis
  proof (cases res)
    case (Inr err)
    have "still Tau t (conns_Delete cid t)" by (simp add: still_def)
    from queue_step_still[OF _ this] show ?thesis using q Inr res by simp
  qed (use q res in simp)
qed (use assms in \<open>auto simp: rl_steps_def handleOpen_def handleData_def handleClose_def
      handleOpen_offer_def handleData_deliver_def Let_def still_def closing_still
      intro!: still_queue split: if_splits option.splits\<close>)

lemma wl_queue:
  assumes "wl_ok s w" "(e, w', s') \<in> set (wl_steps w s)"
  shows "queue_step e s s'"
proof -
  have t: "queue_step e s s'" if "(e, w', s') \<in> set (wl_take ch b s)" for ch b
  proof -
    from that obtain q qs where "chan ch s = q # qs" "e = Took ch q" "s' = set_chan ch qs s"
      by (cases "chan ch s") (auto simp: wl_take_def)
    then show ?thesis by (auto simp: queue_step_def queued_def taken_def)
  qed
  have s: "queue_step Tau s s" by (simp add: still_queue still_def)
  show ?thesis
  proof (cases w)
    case (WLWrite b q)
    then have q: "q < length (reqs s)" using assms(1) by (simp add: wl_ok_def)
    have "queue_step (Wrote q (wr_data (reqs s ! q))) s (set_reply q (Some None) s)"
      "queue_step (WriteFailed q) s (set_reply q (Some (Some er)) s)" for er
      using q by (auto simp: queue_step_def queued_def taken_def set_reply_def nth_list_update split: if_splits)
    with WLWrite assms(2) show ?thesis by (auto simp: wl_steps_def wl_write_def Let_def)
  qed (use assms(2) t s in \<open>auto simp: wl_steps_def Let_def split: if_splits\<close>)
qed

section \<open>Requests and answers\<close>

definition requests_inv :: "event list \<Rightarrow> session \<Rightarrow> bool" where
  "requests_inv tr s \<longleftrightarrow>
     (\<forall>ch. queued ch tr = taken ch tr @ chan ch s)
     \<and> (\<forall>q < length (reqs s). wr_err (reqs s ! q) = Some None \<longrightarrow> Wrote q (wr_data (reqs s ! q)) \<in> set tr)"

text \<open>The record a call sends.\<close>
definition msg_for :: "session \<Rightarrow> cont \<Rightarrow> byte list \<Rightarrow> bool" where
  "msg_for s k m = (case k of
     KDial r cid \<Rightarrow> \<exists>addr. m = EncodeOpen cid addr
   | KWrite r p \<Rightarrow> m = EncodeData (tc_id (heap s ! r)) p
   | KClose r \<Rightarrow> m = EncodeClose (tc_id (heap s ! r)))"

definition sends :: "session \<Rightarrow> user \<Rightarrow> bool" where
  "sends s u = (case u of
     USend sn k \<Rightarrow> (case sn of Sending ch m \<Rightarrow> msg_for s k m
                     | Waiting q \<Rightarrow> msg_for s k (wr_data (reqs s ! q)))
   | _ \<Rightarrow> True)"

text \<open>What the events so far say about the calls that returned successfully.\<close>
definition answered :: "event list \<Rightarrow> session \<Rightarrow> bool" where
  "answered tr s \<longleftrightarrow>
     (\<forall>r p. WriteOk r p \<in> set tr \<longrightarrow> r < length (heap s)
        \<and> (\<exists>q. Wrote q (EncodeData (tc_id (heap s ! r)) p) \<in> set tr))
     \<and> (\<forall>r. DialOk r \<in> set tr \<longrightarrow> r < length (heap s)
        \<and> (\<exists>q addr. Wrote q (EncodeOpen (tc_id (heap s ! r)) addr) \<in> set tr))"

lemma requests_inv_step:
  assumes "requests_inv tr s" "queue_step e s s'" "grows s s'"
  shows "requests_inv (tr @ [e]) s'"
proof -
  have "queued ch (tr @ [e]) = taken ch (tr @ [e]) @ chan ch s'" for ch
  proof -
    have "chan ch s @ queued ch [e] = taken ch [e] @ chan ch s'" using assms(2) by (simp add: queue_step_def)
    moreover have "queued ch tr = taken ch tr @ chan ch s" using assms(1) by (simp add: requests_inv_def)
    moreover have "queued ch (tr @ [e]) = queued ch tr @ queued ch [e]"
      "taken ch (tr @ [e]) = taken ch tr @ taken ch [e]" by (simp_all add: queued_def taken_def)
    ultimately show ?thesis by simp
  qed
  moreover have "Wrote q (wr_data (reqs s' ! q)) \<in> set (tr @ [e])"
    if q: "q < length (reqs s')" "wr_err (reqs s' ! q) = Some None" for q
  proof -
    have "(q < length (reqs s) \<and> wr_err (reqs s ! q) = Some None) \<or> e = Wrote q (wr_data (reqs s' ! q))"
      using assms(2) q unfolding queue_step_def by blast
    moreover have "q < length (reqs s) \<Longrightarrow> wr_data (reqs s' ! q) = wr_data (reqs s ! q)"
      using assms(3) by (simp add: grows_def)
    ultimately show ?thesis using assms(1) by (auto simp: requests_inv_def)
  qed
  ultimately show ?thesis by (simp add: requests_inv_def)
qed

lemma sends_grows:
  assumes "user_ok s u" "grows s s'" "sends s u"
  shows "sends s' u"
proof (cases u)
  case (USend sn k)
  have "msg_for s k m \<Longrightarrow> msg_for s' k m" for m
    using assms(1,2) USend by (cases k) (auto simp: msg_for_def user_ok_def grows_def)
  moreover have "sn = Waiting q \<Longrightarrow> wr_data (reqs s' ! q) = wr_data (reqs s ! q)" for q
    using assms(1,2) USend by (auto simp: user_ok_def sender_ok_def grows_def)
  ultimately show ?thesis using assms(3) USend by (auto simp: sends_def split: sender.splits)
qed (simp_all add: sends_def)

lemma answered_step:
  assumes "answered tr s" "grows s s'" "\<And>r p. e \<noteq> WriteOk r p" "\<And>r. e \<noteq> DialOk r"
  shows "answered (tr @ [e]) s'"
proof -
  have "r < length (heap s') \<and> tc_id (heap s' ! r) = tc_id (heap s ! r)" if "r < length (heap s)" for r
    using assms(2) that by (simp add: grows_def)
  with assms(1,3,4) show ?thesis by (fastforce simp: answered_def)
qed

lemma api_sends:
  assumes "session_ok s" "(e, us, s') \<in> set (api_steps a s)"
  shows "sends s' us \<and> (\<forall>r p. e \<noteq> WriteOk r p) \<and> (\<forall>r. e \<noteq> DialOk r)"
proof (cases a)
  case (AClose r)
  have r: "r < length (heap s)" if "r \<in> set (owned s)" using assms(1) that by (simp add: session_ok_def)
  have "tc_id (heap (conns_Delete k (set_conn r (shut o1 (heap s ! r)) s)) ! r) = tc_id (heap s ! r)"
    if "r \<in> set (owned s)" for k o1
    using r[OF that] by (simp add: heap_set_conn shut_def)
  with AClose assms(2) show ?thesis
    by (auto simp: api_steps_def tc_Close_def Let_def sends_def sendClose_def sendControl_def msg_for_def
        split: if_splits once_state.splits)
qed (use assms(2) in \<open>auto simp: api_steps_def Dial_def tc_Write_def conn_Read_def Accept_def
      listener_Close_def sends_def sendData_def enqueueData_def msg_for_def
      split: if_splits list.splits sum.splits\<close>)

lemma send_sends:
  assumes "(e, Inl sn', s') \<in> set (send_steps sn s)" "sends s (USend sn k)"
  shows "sends s' (USend sn' k)"
proof -
  have "msg_for (enqueue ch m s) k m' = msg_for s k m'" for ch m m'
    by (cases k) (simp_all add: msg_for_def)
  with assms show ?thesis
    by (auto simp: send_steps_def sends_def enqueue_def split: sender.splits if_splits option.splits)
qed

lemma send_answer:
  assumes "(e, Inr None, s') \<in> set (send_steps sn s)"
  obtains q where "sn = Waiting q" "wr_err (reqs s ! q) = Some None"
  using assms by (auto simp: send_steps_def split: sender.splits if_splits option.splits)

lemma resume_answer:
  assumes "resume k err s = (e, us, s')"
  shows "us = UIdle" "heap s' = heap s \<or> (\<forall>r p. e \<noteq> WriteOk r p) \<and> (\<forall>r. e \<noteq> DialOk r)"
    "e = WriteOk r p \<Longrightarrow> k = KWrite r p \<and> err = None"
    "e = DialOk r \<Longrightarrow> \<exists>cid. k = KDial r cid \<and> err = None"
  using assms by (cases k; cases err; auto simp: resume_def)+

lemma user_answers:
  assumes ok: "session_ok s" "user_ok s u" and inv: "requests_inv tr s" "answered tr s" "sends s u"
    and h: "(e, us, s') \<in> set (user_steps u s)" and g: "grows s s'"
  shows "sends s' us \<and> answered (tr @ [e]) s'"
proof (cases u)
  case (USend sn k)
  with h obtain e' res t where t: "(e', res, t) \<in> set (send_steps sn s)"
    and res: "case res of Inl sn' \<Rightarrow> e = e' \<and> us = USend sn' k \<and> s' = t
      | Inr err \<Rightarrow> (e, us, s') = resume k err t"
    by (auto simp: user_steps_def split: sum.splits)
  show ?thesis
  proof (cases res)
    case (Inl sn')
    then have "sends s' us" using send_sends t res inv(3) USend by simp
    moreover have "answered (tr @ [e]) s'"
      using Inl res quiet_send[OF t] by (intro answered_step[OF inv(2) g]) auto
    ultimately show ?thesis by simp
  next
    case (Inr err)
    then have r: "resume k err t = (e, us, s')" using res by simp
    have us: "sends s' us" using resume_answer(1)[OF r] by (simp add: sends_def)
    show ?thesis
    proof (cases "err = None \<and> (\<exists>r x. k = KDial r x \<or> (\<exists>p. k = KWrite r p))")
      case False
      then have "answered (tr @ [e]) s'"
        using resume_answer(3,4)[OF r] by (intro answered_step[OF inv(2) g]) metis+
      with us show ?thesis by simp
    next
      case True
      then obtain q where q: "sn = Waiting q" "wr_err (reqs s ! q) = Some None"
        using send_answer t Inr by blast
      have "q < length (reqs s)" using ok(2) USend q(1) by (simp add: user_ok_def sender_ok_def)
      with q(2) inv(1) have w: "Wrote q (wr_data (reqs s ! q)) \<in> set tr" by (simp add: requests_inv_def)
      have m: "msg_for s k (wr_data (reqs s ! q))" using inv(3) USend q(1) by (simp add: sends_def)
      have id: "r < length (heap s) \<Longrightarrow> r < length (heap s') \<and> tc_id (heap s' ! r) = tc_id (heap s ! r)" for r
        using g by (simp add: grows_def)
      have old: "answered (tr @ [Tau]) s'" by (rule answered_step[OF inv(2) g]) auto
      from True ok(2) USend m w id r old us show ?thesis
        by (auto simp: resume_def user_ok_def msg_for_def answered_def) blast
    qed
  qed
next
  case (UDialing addr)
  with h have "sends s' us" "\<And>r p. e \<noteq> WriteOk r p" "\<And>r. e \<noteq> DialOk r"
    by (auto simp: user_steps_def Dial_next_def Let_def sends_def)
  then show ?thesis using answered_step[OF inv(2) g] by blast
next
  case (UDialed cid addr)
  with h have "sends s' us" "\<And>r p. e \<noteq> WriteOk r p" "\<And>r. e \<noteq> DialOk r"
    by (auto simp: user_steps_def Dial_register_def sends_def sendControl_def msg_for_def)
  then show ?thesis using answered_step[OF inv(2) g] by blast
next
  case URwClose
  with h have "sends s' us" "\<And>r p. e \<noteq> WriteOk r p" "\<And>r. e \<noteq> DialOk r"
    by (auto simp: user_steps_def sends_def)
  then show ?thesis using answered_step[OF inv(2) g] by blast
qed (use h in \<open>simp_all add: user_steps_def\<close>)

lemma rl_no_answer:
  "(e, l', s') \<in> set (rl_steps l s) \<Longrightarrow> e \<noteq> WriteOk r p \<and> e \<noteq> DialOk r"
proof (cases l)
  case (RLReject sn cid)
  assume "(e, l', s') \<in> set (rl_steps l s)"
  with RLReject obtain res t where t: "(e, res, t) \<in> set (send_steps sn s)"
    by (auto simp: rl_steps_def split: sum.splits)
  show ?thesis using quiet_send[OF t] by auto
qed (auto simp: rl_steps_def handleOpen_def handleData_def handleClose_def
      handleOpen_offer_def handleData_deliver_def Let_def split: if_splits option.splits)

lemma wl_no_answer:
  "(e, w', s') \<in> set (wl_steps w s) \<Longrightarrow> e \<noteq> WriteOk r p \<and> e \<noteq> DialOk r"
  by (auto simp: wl_steps_def wl_take_def wl_write_def Let_def split: wloop.splits list.splits if_splits)

interpretation service: relative "\<lambda>_. session_ok" "\<lambda>_. user_ok" "\<lambda>_. rl_ok" "\<lambda>_. wl_ok" "\<lambda>_ _. grows"
  "\<lambda>tr s. requests_inv tr s \<and> answered tr s" "\<lambda>_. sends" "\<lambda>_ _ _. True" "\<lambda>_ _ _. True"
  "\<lambda>_ _ _ _. True"
proof
  show "(requests_inv [] NewSession \<and> answered [] NewSession) \<and> sends NewSession UIdle \<and> True \<and> True"
    by (simp add: requests_inv_def answered_def sends_def NewSession_def chan_def split: prio.split)
next
  show "(requests_inv (tr @ [e]) s' \<and> answered (tr @ [e]) s') \<and> sends s' us \<and> True"
    if "session_ok s" "grows s s'" "requests_inv tr s \<and> answered tr s" "(e, us, s') \<in> set (api_steps a s)"
    for tr s e s' us a
    using that requests_inv_step still_queue[OF api_still[OF that(4)]] api_sends[OF that(1,4)]
      answered_step[of tr s s' e] by blast
next
  show "(requests_inv (tr @ [e]) s' \<and> answered (tr @ [e]) s') \<and> sends s' us \<and> True"
    if "session_ok s" "grows s s'" "user_ok s u" "requests_inv tr s \<and> answered tr s" "sends s u"
      "(e, us, s') \<in> set (user_steps u s)" for tr s e s' us u
    using that requests_inv_step user_queue[OF that(3,6)] user_answers[of s u tr e us s'] by blast
next
  show "(requests_inv (tr @ [e]) s' \<and> answered (tr @ [e]) s') \<and> True \<and> True"
    if "grows s s'" "rl_ok s l" "requests_inv tr s \<and> answered tr s" "(e, l', s') \<in> set (rl_steps l s)"
    for tr s e s' l l'
    using that requests_inv_step rl_queue[OF that(2,4)] rl_no_answer[OF that(4)] answered_step[of tr s s' e]
    by blast
next
  show "(requests_inv (tr @ [e]) s' \<and> answered (tr @ [e]) s') \<and> True \<and> True"
    if "grows s s'" "wl_ok s w" "requests_inv tr s \<and> answered tr s" "(e, w', s') \<in> set (wl_steps w s)"
    for tr s e s' w w'
    using that requests_inv_step wl_queue[OF that(2,4)] wl_no_answer[OF that(4)] answered_step[of tr s s' e]
    by blast
next
  have silent: "requests_inv (tr @ [e]) s \<and> answered (tr @ [e]) s"
    if "requests_inv tr s \<and> answered tr s" "e \<in> {SessClosed, RecvFailed} \<union> range Recv" for tr s e
  proof -
    have "still e s s" using that(2) by (auto simp: still_def)
    with that show ?thesis
      using requests_inv_step[OF _ still_queue] answered_step[of tr s s e] by auto
  qed
  show "(requests_inv (tr @ [SessClosed]) s \<and> answered (tr @ [SessClosed]) s) \<and> sends s UIdle \<and> True"
    if "requests_inv tr s \<and> answered tr s" for tr s using silent[OF that] by (simp add: sends_def)
  show "(requests_inv (tr @ [Recv rec]) s \<and> answered (tr @ [Recv rec]) s) \<and> True \<and> True"
    if "requests_inv tr s \<and> answered tr s" for tr s rec using silent[OF that] by simp
  show "(requests_inv (tr @ [RecvFailed]) s \<and> answered (tr @ [RecvFailed]) s) \<and> True \<and> True"
    if "requests_inv tr s \<and> answered tr s" for tr s using silent[OF that] by simp
  show "sends s u \<Longrightarrow> grows s s' \<Longrightarrow> user_ok s u \<Longrightarrow> sends s' u" for s s' u by (rule sends_grows)
qed simp_all

end
