(* ===== verification/Sessions.thy ===== *)
theory Sessions
  imports Service
begin

text \<open>
  The properties of a tunnel session, for every number of callers and every interleaving, and
  runs that show its limits. Fresh ids and single closes are one more interpretation of
  \<open>relative\<close>.
\<close>

section \<open>Ids and closes\<close>

definition new_ids :: "event list \<Rightarrow> u64 list" where
  "new_ids tr = concat (map (\<lambda>e. case e of NextID k \<Rightarrow> [k] | _ \<Rightarrow> []) tr)"

lemma new_ids_simps [simp]:
  "new_ids [] = []" "new_ids (tr @ [e]) = new_ids tr @ (case e of NextID k \<Rightarrow> [k] | _ \<Rightarrow> [])"
  by (simp_all add: new_ids_def)

definition calls_inv :: "event list \<Rightarrow> session \<Rightarrow> bool" where
  "calls_inv tr s \<longleftrightarrow>
     new_ids tr = map of_nat [1..<Suc (length (new_ids tr))] \<and> nextID s = of_nat (length (new_ids tr))
     \<and> (\<forall>r. count_list tr (CloseStart r) \<le> 1)
     \<and> (\<forall>r. CloseStart r \<in> set tr \<longrightarrow> r < length (heap s) \<and> once (heap s ! r) \<noteq> Unstarted)"

definition calls_step :: "event \<Rightarrow> session \<Rightarrow> session \<Rightarrow> bool" where
  "calls_step e s s' \<longleftrightarrow>
     nextID s' = (case e of NextID k \<Rightarrow> k | _ \<Rightarrow> nextID s)
     \<and> (\<forall>k. e = NextID k \<longrightarrow> k = nextID s + 1)
     \<and> (\<forall>r. e = CloseStart r \<longrightarrow> r < length (heap s) \<and> once (heap s ! r) = Unstarted
          \<and> once (heap s' ! r) \<noteq> Unstarted)"

lemma calls_inv_step:
  assumes inv: "calls_inv tr s" and c: "calls_step e s s'" and g: "grows s s'"
  shows "calls_inv (tr @ [e]) s'"
proof -
  let ?n = "length (new_ids tr)"
  have ids: "new_ids tr = map of_nat [1..<Suc ?n]" "nextID s = of_nat ?n"
    using inv by (simp_all add: calls_inv_def)
  have "new_ids (tr @ [e]) = map of_nat [1..<Suc (length (new_ids (tr @ [e])))]
      \<and> nextID s' = of_nat (length (new_ids (tr @ [e])))"
  proof (cases "\<exists>k. e = NextID k")
    case True
    then have "new_ids (tr @ [e]) = new_ids tr @ [of_nat (Suc ?n)]" "nextID s' = of_nat (Suc ?n)"
      using c ids(2) by (auto simp: calls_step_def)
    then show ?thesis using ids(1) by simp
  next
    case False
    then have "new_ids (tr @ [e]) = new_ids tr" by (auto split: event.split)
    moreover have "nextID s' = nextID s" using False c by (auto simp: calls_step_def split: event.splits)
    ultimately show ?thesis using ids by simp
  qed
  moreover have "count_list (tr @ [e]) (CloseStart r) \<le> 1" for r
  proof (cases "e = CloseStart r")
    case True
    then have "CloseStart r \<notin> set tr" using c inv by (auto simp: calls_step_def calls_inv_def)
    then show ?thesis using True by (simp add: count_list_0_iff)
  next
    case False
    then show ?thesis using inv by (simp add: calls_inv_def)
  qed
  moreover have "r < length (heap s') \<and> once (heap s' ! r) \<noteq> Unstarted"
    if "CloseStart r \<in> set (tr @ [e])" for r
    using that inv c g by (auto simp: calls_inv_def calls_step_def grows_def intro: less_le_trans)
  ultimately show ?thesis unfolding calls_inv_def by blast
qed

lemma nextID_simps [simp]:
  "nextID (set_conn r c s) = nextID s" "nextID (conns_Delete k s) = nextID s"
  "nextID (conns_Store k s) = nextID s" "nextID (set_reply q ans s) = nextID s"
  "nextID (set_chan ch qs s) = nextID s" "nextID (enqueue ch m s) = nextID s"
  by (simp_all add: set_conn_def conns_Delete_def conns_Store_def set_reply_def set_chan_def
      enqueue_def split: prio.split)

lemma closing_nextID:
  "s' \<in> set (remoteClose r s) \<Longrightarrow> nextID s' = nextID s"
  "s' \<in> set (closeAll rs s) \<Longrightarrow> nextID s' = nextID s"
  "s' \<in> set (session_close s) \<Longrightarrow> nextID s' = nextID s"
proof -
  show r: "s' \<in> set (remoteClose r s) \<Longrightarrow> nextID s' = nextID s" for s s' r
    by (auto simp: remoteClose_def Let_def split: once_state.splits)
  show c: "s' \<in> set (closeAll rs s) \<Longrightarrow> nextID s' = nextID s" for s s' rs
    by (induction rs arbitrary: s) (auto dest!: r)
  show "s' \<in> set (session_close s) \<Longrightarrow> nextID s' = nextID s"
    by (auto simp: session_close_def split: if_splits dest!: c)
qed

lemma send_calls: "(e, res, s') \<in> set (send_steps sn s) \<Longrightarrow> nextID s' = nextID s"
  by (auto simp: send_steps_def split: sender.splits if_splits option.splits)

lemma api_calls:
  assumes "session_ok s" "(e, us, s') \<in> set (api_steps a s)"
  shows "calls_step e s s'"
proof (cases a)
  case (AClose r)
  have r: "r < length (heap s)" if "r \<in> set (owned s)" using assms(1) that by (simp add: session_ok_def)
  have "once (heap (conns_Delete k (set_conn r (shut Running (heap s ! r)) s)) ! r) \<noteq> Unstarted"
    if "r \<in> set (owned s)" for k
    using r[OF that] by (simp add: heap_set_conn shut_def)
  with AClose assms(2) r show ?thesis
    by (auto simp: api_steps_def tc_Close_def Let_def calls_step_def split: if_splits once_state.splits)
qed (use assms(2) in \<open>auto simp: api_steps_def Dial_def tc_Write_def conn_Read_def Accept_def
      listener_Close_def calls_step_def closing_nextID split: if_splits list.splits sum.splits\<close>)

lemma user_calls:
  assumes "(e, us, s') \<in> set (user_steps u s)"
  shows "calls_step e s s'"
proof (cases u)
  case (USend sn k)
  with assms obtain e' res t where t: "(e', res, t) \<in> set (send_steps sn s)"
    and res: "case res of Inl sn' \<Rightarrow> e = e' \<and> us = USend sn' k \<and> s' = t
      | Inr err \<Rightarrow> (e, us, s') = resume k err t"
    by (auto simp: user_steps_def split: sum.splits)
  have "calls_step e s t" if "e \<in> {Tau, Queued Control (length (reqs s)), Queued Data (length (reqs s))}"
    using that send_calls[OF t] by (auto simp: calls_step_def)
  moreover have "calls_step e s s'" if "(e, us, s') = resume k err t" for err
    using that send_calls[OF t] by (cases k; cases err) (auto simp: resume_def calls_step_def)
  ultimately show ?thesis using res quiet_send[OF t] by (cases res) auto
qed (use assms in \<open>auto simp: user_steps_def Dial_next_def Dial_register_def Let_def calls_step_def\<close>)

lemma rl_calls:
  assumes "(e, l', s') \<in> set (rl_steps l s)"
  shows "calls_step e s s'"
proof (cases l)
  case (RLReject sn cid)
  with assms obtain res t where t: "(e, res, t) \<in> set (send_steps sn s)" "s' = t \<or> s' = conns_Delete cid t"
    by (auto simp: rl_steps_def split: sum.splits)
  then show ?thesis using send_calls[OF t(1)] quiet_send[OF t(1)] by (auto simp: calls_step_def)
qed (use assms in \<open>auto simp: rl_steps_def handleOpen_def handleData_def handleClose_def
      handleOpen_offer_def handleData_deliver_def Let_def calls_step_def closing_nextID
      split: if_splits option.splits\<close>)

lemma wl_calls:
  assumes "(e, w', s') \<in> set (wl_steps w s)"
  shows "calls_step e s s'"
  using assms by (auto simp: wl_steps_def wl_take_def wl_write_def Let_def calls_step_def
      split: wloop.splits list.splits if_splits)

lemma silent_calls: "calls_step SessClosed s s" "calls_step RecvFailed s s" "calls_step (Recv rec) s s"
  by (simp_all add: calls_step_def)

interpretation calls: relative "\<lambda>_. session_ok" "\<lambda>_. user_ok" "\<lambda>_. rl_ok" "\<lambda>_. wl_ok" "\<lambda>_ _. grows"
  calls_inv "\<lambda>_ _ _. True" "\<lambda>_ _ _. True" "\<lambda>_ _ _. True" "\<lambda>_ _ _ _. True"
proof
  show "calls_inv [] NewSession \<and> True \<and> True \<and> True" by (simp add: calls_inv_def NewSession_def)
qed (auto intro: calls_inv_step api_calls user_calls rl_calls wl_calls silent_calls)

section \<open>Closing a session\<close>

lemma closeAll_mapped:
  "session_ok s \<Longrightarrow> conns s = xs \<Longrightarrow> \<exists>s'. closeAll (map snd xs) s = [s'] \<and> conns s' = []
     \<and> stopCh s' = stopCh s
     \<and> (\<forall>r < length (heap s). r \<in> snd ` set xs \<or> closeCh (heap s ! r) \<longrightarrow> closeCh (heap s' ! r))"
proof (induction xs arbitrary: s)
  case (Cons x xs)
  obtain k r where x: "x = (k, r)" by (cases x)
  from Cons.prems x have r: "r < length (heap s)" "tc_id (heap s ! r) = k" "once (heap s ! r) = Unstarted"
    "AList.delete k xs = xs"
    by (auto simp: session_ok_def intro: delete_idem)
  define t where "t = conns_Delete k (set_conn r (shut Finished (heap s ! r)) s)"
  have t: "remoteClose r s = [t]" "session_ok t" "conns t = xs" "stopCh t = stopCh s"
    "length (heap t) = length (heap s)"
    using r ok_shut[OF Cons.prems(1) r(1), of Finished] Cons.prems(2) x
    by (simp_all add: t_def remoteClose_def Let_def conns_Delete_def)
  have "closeCh (heap t ! r)" "r' < length (heap s) \<Longrightarrow> closeCh (heap s ! r') \<Longrightarrow> closeCh (heap t ! r')" for r'
    using r(1) by (simp_all add: t_def heap_set_conn shut_def)
  with t Cons.IH[OF t(2,3)] x show ?case by auto
qed simp



section \<open>Promises to the callers\<close>

text \<open>
  C12. A write that reports success has had its record, with the connection's id and exactly the
  bytes given, written to the transport.
\<close>
theorem Write_ok_written:
  assumes "run (start n) tr S" "WriteOk r p \<in> set tr"
  shows "\<exists>q. Wrote q (EncodeData (tc_id (heap (sess S) ! r)) p) \<in> set tr"
  using service.both.global[OF assms(1)] assms(2) by (auto simp: answered_def)

lemma Write_ok_written_witness:
  "\<exists>tr S. run (start 1) tr S \<and> WriteOk 0 [7] \<in> set tr \<and> (\<exists>q. Wrote q (EncodeData 1 [7]) \<in> set tr)"
proof -
  have "case play (outbound @ [MApi 0 (AWrite 0 [7]) 0, MUser 0 0, MWrite 0, MWrite 0, MUser 0 0]) [] (start 1) of
      None \<Rightarrow> False | Some (tr, S) \<Rightarrow> WriteOk 0 [7] \<in> set tr \<and> tc_id (heap (sess S) ! 0) = 1" by code_simp
  from play_witness[OF this] obtain tr S where "run (start 1) tr S" "WriteOk 0 [7] \<in> set tr"
    "tc_id (heap (sess S) ! 0) = 1" by auto
  with Write_ok_written[of 1 tr S 0 "[7]"] show ?thesis by metis
qed

text \<open>
  A dial that returns a connection has had an open record with the connection's id written to
  the transport.
\<close>
theorem Dial_ok_written:
  assumes "run (start n) tr S" "DialOk r \<in> set tr"
  shows "\<exists>q addr. Wrote q (EncodeOpen (tc_id (heap (sess S) ! r)) addr) \<in> set tr"
  using service.both.global[OF assms(1)] assms(2) by (auto simp: answered_def)

lemma Dial_ok_written_witness:
  "\<exists>tr S. run (start 1) tr S \<and> DialOk 0 \<in> set tr \<and> (\<exists>q addr. Wrote q (EncodeOpen 1 addr) \<in> set tr)"
proof -
  have "case play outbound [] (start 1) of
      None \<Rightarrow> False | Some (tr, S) \<Rightarrow> DialOk 0 \<in> set tr \<and> tc_id (heap (sess S) ! 0) = 1" by code_simp
  from play_witness[OF this] obtain tr S where "run (start 1) tr S" "DialOk 0 \<in> set tr"
    "tc_id (heap (sess S) ! 0) = 1" by auto
  with Dial_ok_written[of 1 tr S 0] show ?thesis by metis
qed



text \<open>
  The ids that dials draw are the numbers 1, 2, and so on: no two are the same while fewer than
  \<open>2 ^ 64\<close> are drawn.
\<close>
theorem dial_ids_distinct:
  assumes "run (start n) tr S" "length (new_ids tr) < 2 ^ 64"
  shows "distinct (new_ids tr)"
proof -
  let ?n = "length (new_ids tr)"
  have "calls_inv tr (sess S)" using calls.both.global[OF assms(1)] by blast
  then have "new_ids tr = map of_nat [1..<Suc ?n]" unfolding calls_inv_def by blast
  moreover have "inj_on (of_nat :: nat \<Rightarrow> u64) {1..<Suc ?n}"
  proof (rule inj_onI)
    fix x y assume "x \<in> {1..<Suc ?n}" "y \<in> {1..<Suc ?n}" and eq: "(of_nat x :: u64) = of_nat y"
    with assms(2) have "x < 2 ^ LENGTH(64)" "y < 2 ^ LENGTH(64)" by auto
    with eq show "x = y" by (metis of_nat_inverse)
  qed
  ultimately show ?thesis by (metis distinct_map distinct_upt set_upt)
qed

lemma dial_ids_distinct_witness:
  "\<exists>tr S. run (start 1) tr S \<and> new_ids tr = [1, 2] \<and> distinct (new_ids tr)"
proof -
  have "case play (outbound @ [MApi 0 (ADial ''b'') 0, MUser 0 0]) [] (start 1) of
      None \<Rightarrow> False | Some (tr, S) \<Rightarrow> new_ids tr = [1, 2]" by code_simp
  from play_witness[OF this] obtain tr S where "run (start 1) tr S" "new_ids tr = [1, 2]" by auto
  moreover from this have "distinct (new_ids tr)" by (intro dial_ids_distinct[of 1 tr S]) simp_all
  ultimately show ?thesis by blast
qed

text \<open>
  The close of a connection is announced to the peer at most once, whichever of its callers
  close it.
\<close>
theorem closed_once:
  assumes "run (start n) tr S"
  shows "count_list tr (CloseStart r) \<le> 1"
  using calls.both.global[OF assms] by (simp add: calls_inv_def)

lemma closed_once_witness:
  "\<exists>tr S. run (start 2) tr S \<and> CloseStart 0 \<in> set tr \<and> CloseDone 0 \<in> set tr
     \<and> count_list tr (CloseStart 0) \<le> 1"
proof -
  have "case play (outbound @ [MApi 0 (AClose 0) 0, MUser 0 0, MWrite 0, MWrite 0, MUser 0 0, MApi 1 (AClose 0) 0])
      [] (start 2) of None \<Rightarrow> False | Some (tr, S) \<Rightarrow> CloseStart 0 \<in> set tr \<and> CloseDone 0 \<in> set tr" by code_simp
  from play_witness[OF this] obtain tr S where "run (start 2) tr S" "CloseStart 0 \<in> set tr"
    "CloseDone 0 \<in> set tr" by auto
  with closed_once[of 2 tr S 0] show ?thesis by blast
qed

text \<open>
  The table of connections leads from an id to an open connection with that id.
\<close>
theorem table_routes:
  assumes "run (start n) tr S" "map_of (conns (sess S)) k = Some r"
  shows "tc_id (heap (sess S) ! r) = k \<and> \<not> tc_closed (heap (sess S) ! r) \<and> \<not> closeCh (heap (sess S) ! r)"
  using session_ok_mapped[OF basic.global[OF assms(1)] assms(2)]
    session_ok_conn[OF basic.global[OF assms(1)], of r] by (simp add: conn_ok_def)

lemma table_routes_witness:
  "\<exists>tr S. run (start 1) tr S \<and> map_of (conns (sess S)) 1 = Some 0
     \<and> tc_id (heap (sess S) ! 0) = 1 \<and> \<not> tc_closed (heap (sess S) ! 0)"
proof -
  have "case play inbound [] (start 1) of None \<Rightarrow> False
      | Some (tr, S) \<Rightarrow> map_of (conns (sess S)) 1 = Some 0" by code_simp
  from play_witness[OF this] obtain tr S where "run (start 1) tr S" "map_of (conns (sess S)) 1 = Some 0" by auto
  with table_routes[of 1 tr S 1 0] show ?thesis by blast
qed







section \<open>Control records first\<close>

lemma step_queue:
  assumes "run (start n) tr S" "step S e S'"
  shows "queue_step e (sess S) (sess S')"
  using assms(2)
proof cases
  case (step_api u us s' a)
  then show ?thesis using still_queue[OF api_still[OF step_api(4)]] by simp
next
  case (step_user u us s')
  then show ?thesis using user_queue[OF basic.caller[OF assms(1)] step_user(3)] by simp
next
  case (step_rl l s')
  then show ?thesis using rl_queue[OF basic.reader[OF assms(1)] step_rl(2)] by simp
next
  case (step_wl w s')
  then show ?thesis using wl_queue[OF basic.writer[OF assms(1)] step_wl(2)] by simp
qed (simp_all add: still_queue still_def)

definition took_control :: "event list \<Rightarrow> bool" where
  "took_control tr \<longleftrightarrow> (\<exists>p. Took Control p \<in> set tr)"

lemma poll_step:
  assumes r: "run (start n) tr S" and e: "step S e S'"
    and h: "wl S = WLPoll \<and> controlCh (sess S) \<noteq> [] \<or> wl S = WLDone"
  shows "(\<exists>p. e = Took Control p) \<or> (\<forall>q. e \<noteq> Took Data q)
     \<and> (wl S' = WLPoll \<and> controlCh (sess S') \<noteq> [] \<or> wl S' = WLDone)"
proof -
  have q: "chan Control (sess S) @ queued Control [e] = taken Control [e] @ chan Control (sess S')"
    using step_queue[OF r e] by (simp add: queue_step_def)
  have keep: "controlCh (sess S') \<noteq> []" if "controlCh (sess S) \<noteq> []" "\<forall>p. e \<noteq> Took Control p"
  proof -
    have "taken Control [e] = []" using that(2) by (cases e) (auto simp: taken_def)
    with q that(1) show ?thesis by (auto simp: chan_def)
  qed
  have other: ?thesis if "wl S' = wl S" "\<forall>ch p. e \<noteq> Took ch p"
    using that keep h by auto
  from e show ?thesis
  proof cases
    case (step_api u us s' a)
    with api_still[OF step_api(4)] show ?thesis by (intro other) (auto simp: still_def)
  next
    case (step_user u us s')
    show ?thesis
    proof (rule other)
      show "\<forall>ch p. e \<noteq> Took ch p"
      proof (cases "users S ! u")
        case (USend sn k)
        with step_user(3) obtain e' res t where t: "(e', res, t) \<in> set (send_steps sn (sess S))"
          and res: "case res of Inl sn' \<Rightarrow> e = e' | Inr err \<Rightarrow> (e, us, s') = resume k err t"
          by (auto simp: user_steps_def split: sum.splits)
        show ?thesis using quiet_send[OF t] res resume_still[of k _ t e us s']
          by (cases res) (auto simp: still_def)
      qed (use step_user(3) in \<open>auto simp: user_steps_def Dial_next_def Dial_register_def Let_def\<close>)
    qed (simp add: step_user(1))
  next
    case (step_rl l s')
    show ?thesis
    proof (rule other)
      show "\<forall>ch p. e \<noteq> Took ch p"
      proof (cases "rl S")
        case (RLReject sn cid)
        with step_rl(2) obtain res t where t: "(e, res, t) \<in> set (send_steps sn (sess S))"
          by (auto simp: rl_steps_def split: sum.splits)
        show ?thesis using quiet_send[OF t] by auto
      qed (use step_rl(2) in \<open>auto simp: rl_steps_def handleOpen_def handleData_def handleClose_def
            handleOpen_offer_def handleData_deliver_def Let_def split: if_splits option.splits\<close>)
    qed (simp add: step_rl(1))
  next
    case (step_wl w s')
    with h show ?thesis
      by (cases "controlCh (sess S)")
        (auto simp: wl_steps_def wl_take_def Let_def chan_def split: if_splits)
  qed (use other in auto)
qed

lemma poll_run:
  "run S tr S' \<Longrightarrow> run (start n) tr0 S \<Longrightarrow> wl S = WLPoll \<Longrightarrow> controlCh (sess S) \<noteq> [] \<Longrightarrow>
     (took_control tr \<or> (wl S' = WLPoll \<and> controlCh (sess S') \<noteq> [] \<or> wl S' = WLDone))
     \<and> (\<forall>xs q ys. tr = xs @ Took Data q # ys \<longrightarrow> took_control xs)"
proof (induction rule: run.induct)
  case (run_snoc S tr S' e S'')
  have r: "run (start n) (tr0 @ tr) S'" using run_append run_snoc.hyps(1) run_snoc.prems(1) by blast
  note IH = run_snoc.IH[OF run_snoc.prems]
  note p = poll_step[OF r run_snoc.hyps(2)]
  have "took_control xs" if "tr @ [e] = xs @ Took Data q # ys" for xs q ys
  proof (cases ys rule: rev_cases)
    case Nil
    then have "tr = xs" "e = Took Data q" using that by auto
    then show ?thesis using IH p by auto
  next
    case (snoc zs z)
    then have "tr = xs @ Took Data q # zs" using that by auto
    then show ?thesis using IH by blast
  qed
  moreover have "took_control (tr @ [e]) \<or> wl S'' = WLPoll \<and> controlCh (sess S'') \<noteq> [] \<or> wl S'' = WLDone"
    using IH p by (auto simp: took_control_def)
  ultimately show ?case by blast
qed simp

text \<open>
  C19. When the write loop polls while a control record is queued, it takes a control record before
  any data record, however the callers and the read loop go on.
\<close>
theorem control_first:
  assumes "run (start n) tr0 S" "wl S = WLPoll" "controlCh (sess S) \<noteq> []"
    "run S (tr @ [Took Data q]) S'"
  shows "\<exists>p. Took Control p \<in> set tr"
  using poll_run[OF assms(4,1-3)] by (auto simp: took_control_def)

text \<open>A control request and a data request are queued while the write loop is at its poll.\<close>
definition contended :: "move list" where
  "contended = outbound @ [MApi 0 (AWrite 0 [7]) 0, MUser 0 0, MWrite 0, MApi 1 (ADial ''b'') 0, MUser 1 0,
     MUser 1 0, MUser 1 0, MWrite 0, MUser 0 0, MApi 0 (AWrite 0 [8]) 0, MUser 0 0]"

lemma control_first_witness:
  "\<exists>tr S S'. wl S = WLPoll \<and> controlCh (sess S) = [2] \<and> dataCh (sess S) = [3]
     \<and> run S (tr @ [Took Data 3]) S' \<and> (\<exists>p. Took Control p \<in> set tr)"
proof -
  have "case play contended [] (start 2) of None \<Rightarrow> False
      | Some (tr, S) \<Rightarrow> wl S = WLPoll \<and> controlCh (sess S) = [2] \<and> dataCh (sess S) = [3]
          \<and> map_option (last \<circ> fst) (play [MWrite 0, MWrite 0, MWrite 0] [] S) = Some (Took Data 3)"
    by code_simp
  from play_witness[OF this] obtain tr0 S where S: "run (start 2) tr0 S" "wl S = WLPoll"
    "controlCh (sess S) = [2]" "dataCh (sess S) = [3]"
    "map_option (last \<circ> fst) (play [MWrite 0, MWrite 0, MWrite 0] [] S) = Some (Took Data 3)" by auto
  then obtain tr S' where p: "play [MWrite 0, MWrite 0, MWrite 0] [] S = Some (tr, S')" "last tr = Took Data 3"
    by auto
  then have "tr \<noteq> []" by (auto split: option.splits prod.splits)
  then have "run S (butlast tr @ [Took Data 3]) S'"
    using play_run[OF p(1) run_nil] p(2) append_butlast_last_id by metis
  with control_first[OF S(1,2) _ this] S show ?thesis by auto
qed

section \<open>Limits\<close>

text \<open>
  Both sides number the connections they dial from 1, in one table with those the peer opens:
  a peer's open record with the id of a connection that was dialed here takes over its entry, and
  data the peer sends for the dialed connection reaches the other one.
\<close>
theorem ids_collide:
  "\<exists>tr S. run (start 1) tr S \<and> DialOk 0 \<in> set tr \<and> tc_id (heap (sess S) ! 0) = 1
     \<and> \<not> tc_closed (heap (sess S) ! 0) \<and> Recv (EncodeData 1 [7]) \<in> set tr
     \<and> deliveries 0 tr = [] \<and> deliveries 1 tr = [7]"
proof -
  have "case play (outbound @ [MRecv (EncodeOpen 1 ''a''), MRead 0, MRead 0,
        MRecv (EncodeData 1 [7]), MRead 0, MRead 0]) [] (start 1) of None \<Rightarrow> False
      | Some (tr, S) \<Rightarrow> DialOk 0 \<in> set tr \<and> tc_id (heap (sess S) ! 0) = 1
     \<and> \<not> tc_closed (heap (sess S) ! 0) \<and> Recv (EncodeData 1 [7]) \<in> set tr
     \<and> deliveries 0 tr = [] \<and> deliveries 1 tr = [7]" by code_simp
  from play_witness[OF this] show ?thesis .
qed

text \<open>
  A reader can see the end of the stream before data that arrived ahead of the peer's close:
  the data is in the connection's channel, and the \<open>select\<close> prefers neither case.
\<close>
theorem close_loses_data:
  "\<exists>tr S. run (start 1) tr S \<and> deliveries 0 tr = [1, 2, 3, 4, 5] \<and> reads 0 tr = []
     \<and> last tr = ReadErr 0 EOF \<and> pending (heap (sess S) ! 0) = [1, 2, 3, 4, 5]"
proof -
  have "case play (inbound @ [MRecv (EncodeClose 1), MRead 0, MRead 0, MApi 0 (ARead 0 9) 1]) [] (start 1) of
      None \<Rightarrow> False | Some (tr, S) \<Rightarrow> deliveries 0 tr = [1, 2, 3, 4, 5] \<and> reads 0 tr = []
     \<and> last tr = ReadErr 0 EOF \<and> pending (heap (sess S) ! 0) = [1, 2, 3, 4, 5]" by code_simp
  from play_witness[OF this] show ?thesis .
qed

text \<open>
  A dial that passed its check before the session was closed can still succeed: its connection
  is registered after \<open>closeAll\<close>, both loops end, and no read of it ever returns.
\<close>
theorem dial_leaks:
  "\<exists>tr S. run (start 1) tr S \<and> stopCh (sess S) \<and> rl S = RLDone \<and> wl S = WLDone
     \<and> DialOk 0 \<in> set tr \<and> conn_Read 0 n (sess S) = []"
proof -
  have "case play [MApi 0 (ADial ''a'') 0, MRecvFailed, MRead 0, MUser 0 0, MUser 0 0, MUser 0 0,
        MWrite 1, MWrite 0, MUser 0 0, MWrite 0] [] (start 1) of None \<Rightarrow> False
      | Some (tr, S) \<Rightarrow> stopCh (sess S) \<and> rl S = RLDone \<and> wl S = WLDone \<and> DialOk 0 \<in> set tr
          \<and> readBuf (heap (sess S) ! 0) = [] \<and> readCh (heap (sess S) ! 0) = []
          \<and> \<not> closeCh (heap (sess S) ! 0)" by code_simp
  from play_witness[OF this] show ?thesis by (fastforce simp: conn_Read_def tc_Read_def)
qed

text \<open>
  A write of no bytes reaches the peer's reader as the end of the stream, while the connection
  stays open and later data can still be read.
\<close>
theorem empty_write_ends_stream:
  "\<exists>tr S. run (start 1) tr S \<and> ReadErr 0 EOF \<in> set tr \<and> last tr = ReadOk 0 [5]
     \<and> \<not> closeCh (heap (sess S) ! 0)"
proof -
  have "case play [MRecv (EncodeOpen 1 ''''), MRead 0, MRead 0, MApi 0 AAccept 0,
        MRecv (EncodeData 1 []), MRead 0, MRead 0, MApi 0 (ARead 0 9) 0,
        MRecv (EncodeData 1 [5]), MRead 0, MRead 0, MApi 0 (ARead 0 9) 0] [] (start 1) of
      None \<Rightarrow> False | Some (tr, S) \<Rightarrow> ReadErr 0 EOF \<in> set tr \<and> last tr = ReadOk 0 [5]
        \<and> \<not> closeCh (heap (sess S) ! 0)" by code_simp
  from play_witness[OF this] show ?thesis .
qed



end
