(* ===== verification/Link.thy ===== *)
theory Link
  imports Sessions
begin

text \<open>
  Two sessions at the ends of one tunnel: what the write loop of one writes waits in order until the
  read loop of the other receives it. The transport loses nothing but may fail at any time. Every run
  of the two gives a run of each, so that the theorems about a session become statements about the
  bytes of one caller at one end and another at the other.
\<close>

section \<open>Two sessions\<close>

record tunnel =
  endA :: sys
  endB :: sys
  to_A :: "byte list list"
  to_B :: "byte list list"

definition tunnel_start :: "nat \<Rightarrow> nat \<Rightarrow> tunnel" where
  "tunnel_start n m = \<lparr>endA = start n, endB = start m, to_A = [], to_B = []\<rparr>"

text \<open>What a step puts on the transport.\<close>
definition put :: "event \<Rightarrow> byte list list" where
  "put e = (case e of Wrote q d \<Rightarrow> [d] | _ \<Rightarrow> [])"

definition got :: "event \<Rightarrow> byte list list" where
  "got e = (case e of Recv rec \<Rightarrow> [rec] | _ \<Rightarrow> [])"

text \<open>A step of one end, \<open>True\<close> for the first.\<close>
inductive tunnel_step :: "tunnel \<Rightarrow> bool \<times> event \<Rightarrow> tunnel \<Rightarrow> bool" where
  t_A: "step (endA T) e S \<Longrightarrow> to_A T = got e @ rest \<Longrightarrow>
     tunnel_step T (True, e) (T\<lparr>endA := S, to_A := rest, to_B := to_B T @ put e\<rparr>)"
| t_B: "step (endB T) e S \<Longrightarrow> to_B T = got e @ rest \<Longrightarrow>
     tunnel_step T (False, e) (T\<lparr>endB := S, to_B := rest, to_A := to_A T @ put e\<rparr>)"

inductive tunnel_run :: "tunnel \<Rightarrow> (bool \<times> event) list \<Rightarrow> tunnel \<Rightarrow> bool" where
  tunnel_nil: "tunnel_run T [] T"
| tunnel_snoc: "tunnel_run T tr T' \<Longrightarrow> tunnel_step T' e T'' \<Longrightarrow> tunnel_run T (tr @ [e]) T''"

text \<open>The events of one end.\<close>
definition at_end :: "bool \<Rightarrow> (bool \<times> event) list \<Rightarrow> event list" where
  "at_end b tr = map snd (filter (\<lambda>e. fst e = b) tr)"

text \<open>The data messages among the records an end has written.\<close>
definition sent :: "event list \<Rightarrow> (u64 \<times> byte list) list" where
  "sent tr = received (map Recv (concat (map put tr)))"

section \<open>The ends are sessions\<close>

lemma at_end_simps [simp]:
  "at_end b [] = []" "at_end b (tr @ [(b', e)]) = at_end b tr @ (if b' = b then [e] else [])"
  by (simp_all add: at_end_def)

lemma ends_run:
  assumes "tunnel_run T tr T'" "T = tunnel_start n m"
  shows "run (start n) (at_end True tr) (endA T') \<and> run (start m) (at_end False tr) (endB T')
     \<and> concat (map put (at_end True tr)) = concat (map got (at_end False tr)) @ to_B T'
     \<and> concat (map put (at_end False tr)) = concat (map got (at_end True tr)) @ to_A T'"
  using assms
proof (induction rule: tunnel_run.induct)
  case (tunnel_nil T)
  then show ?case by (simp add: tunnel_start_def run_nil)
next
  case (tunnel_snoc T tr T' e T'')
  note IH = tunnel_snoc.IH[OF tunnel_snoc.prems]
  from tunnel_snoc.hyps(2) show ?case
    by cases (use IH in \<open>auto intro: run_snoc\<close>)
qed

lemma received_got: "received tr = received (map Recv (concat (map got tr)))"
proof (induction tr rule: rev_induct)
  case (snoc e tr)
  then show ?case by (cases e) (simp_all add: got_def received_snoc received_def)
qed simp

lemma received_append: "received (xs @ ys) = received xs @ received ys"
  by (simp add: received_def)

lemma arrives_in_order:
  assumes "tunnel_run (tunnel_start n m) tr T"
  shows "prefix (received (at_end (\<not> b) tr)) (sent (at_end b tr))"
  using ends_run[OF assms refl] received_got[of "at_end (\<not> b) tr"]
  by (cases b) (simp_all add: sent_def received_append)

lemma prefix_payloads:
  assumes "prefix xs ys"
  shows "prefix (payloads k (drop i xs)) (payloads k (drop i ys))"
proof -
  obtain zs where "ys = xs @ zs" using assms by (auto simp: prefix_def)
  then show ?thesis by simp
qed

section \<open>Where records come from\<close>

text \<open>
  The records a session makes: of an open with the id of a connection it has, of a close, or of the
  data of a connection a caller was given.
\<close>
definition made :: "session \<Rightarrow> byte list \<Rightarrow> bool" where
  "made s m \<longleftrightarrow> (\<exists>r < length (heap s). \<exists>addr. m = EncodeOpen (tc_id (heap s ! r)) addr) \<or> (\<exists>cid. m = EncodeClose cid)
     \<or> (\<exists>r < length (heap s). \<exists>p. r \<in> set (owned s) \<and> m = EncodeData (tc_id (heap s ! r)) p)"

text \<open>A caller writes to a connection it was given; given once, given for ever.\<close>
definition writes_owned :: "session \<Rightarrow> user \<Rightarrow> bool" where
  "writes_owned s u = (case u of USend sn (KWrite r p) \<Rightarrow> r \<in> set (owned s) | _ \<Rightarrow> True)"

definition keeps :: "session \<Rightarrow> session \<Rightarrow> bool" where
  "keeps s s' \<longleftrightarrow> set (owned s) \<subseteq> set (owned s')"

definition reqs_made :: "session \<Rightarrow> bool" where
  "reqs_made s \<longleftrightarrow> (\<forall>q < length (reqs s). made s (wr_data (reqs s ! q)))"

definition reject_made :: "rloop \<Rightarrow> bool" where
  "reject_made l = (case l of RLReject sn cid \<Rightarrow> (case sn of Sending ch m \<Rightarrow> m = EncodeClose cid | Waiting q \<Rightarrow> True) | _ \<Rightarrow> True)"

definition writes_made :: "event list \<Rightarrow> session \<Rightarrow> bool" where
  "writes_made tr s \<longleftrightarrow> reqs_made s \<and> (\<forall>q d. Wrote q d \<in> set tr \<longrightarrow> made s d)"

lemma made_grows:
  assumes "made s m" "grows s s'" "keeps s s'"
  shows "made s' m"
proof -
  have "r < length (heap s') \<and> tc_id (heap s' ! r) = tc_id (heap s ! r)" if "r < length (heap s)" for r
    using assms(2) that by (simp add: grows_def)
  then show ?thesis using assms(1,3) unfolding made_def keeps_def by (metis subsetD)
qed

lemma keeps_same: "owned s' = owned s \<Longrightarrow> keeps s s'"
  by (simp add: keeps_def)

lemma owned_simps [simp]:
  "owned (conns_Delete k s) = owned s" "owned (conns_Store k s) = owned s" "owned (set_reply q x s) = owned s"
  "owned (enqueue ch m s) = owned s" "owned (set_chan ch qs s) = owned s"
  by (simp_all add: conns_Delete_def conns_Store_def set_reply_def enqueue_def set_chan_def split: prio.split)

lemma closing_owned:
  "s' \<in> set (remoteClose r s) \<Longrightarrow> owned s' = owned s"
  "s' \<in> set (closeAll rs s) \<Longrightarrow> owned s' = owned s"
  "s' \<in> set (session_close s) \<Longrightarrow> owned s' = owned s"
proof -
  show r: "s' \<in> set (remoteClose r s) \<Longrightarrow> owned s' = owned s" for s s' r
    by (auto simp: remoteClose_def Let_def split: once_state.splits)
  show c: "s' \<in> set (closeAll rs s) \<Longrightarrow> owned s' = owned s" for s s' rs
    by (induction rs arbitrary: s) (auto dest!: r)
  show "s' \<in> set (session_close s) \<Longrightarrow> owned s' = owned s"
    by (auto simp: session_close_def split: if_splits dest!: c)
qed

lemma send_owned: "(e, res, s') \<in> set (send_steps sn s) \<Longrightarrow> owned s' = owned s"
  by (auto simp: send_steps_def split: sender.splits if_splits option.splits)

lemma api_owned: "(e, us, s') \<in> set (api_steps a s) \<Longrightarrow> keeps s s' \<and> writes_owned s' us"
  by (cases a) (auto simp: keeps_def writes_owned_def api_steps_def Dial_def tc_Write_def tc_Close_def Let_def conn_Read_def
      Accept_def listener_Close_def closing_owned split: if_splits once_state.splits list.splits sum.splits)

lemma user_owned:
  assumes "writes_owned s u" "(e, us, s') \<in> set (user_steps u s)"
  shows "keeps s s' \<and> writes_owned s' us"
proof (cases u)
  case (USend sn k)
  with assms(2) obtain e' res t where t: "(e', res, t) \<in> set (send_steps sn s)"
    and res: "case res of Inl sn' \<Rightarrow> us = USend sn' k \<and> s' = t | Inr err \<Rightarrow> (e, us, s') = resume k err t"
    by (auto simp: user_steps_def split: sum.splits)
  show ?thesis
    using res send_owned[OF t] assms(1) USend
    by (cases k; auto simp: keeps_def writes_owned_def resume_def split: sum.splits option.splits)
qed (use assms(2) in \<open>auto simp: user_steps_def Dial_next_def Dial_register_def Let_def keeps_def writes_owned_def\<close>)

lemma rl_owned: "(e, l', s') \<in> set (rl_steps l s) \<Longrightarrow> keeps s s'"
  by (cases l) (auto simp: keeps_def rl_steps_def handleOpen_def handleData_def handleClose_def handleOpen_offer_def
      handleData_deliver_def Let_def closing_owned send_owned split: if_splits option.splits sum.splits)

lemma wl_owned: "(e, w', s') \<in> set (wl_steps w s) \<Longrightarrow> keeps s s'"
  by (auto simp: keeps_def wl_steps_def wl_take_def wl_write_def Let_def split: wloop.splits list.splits if_splits)

text \<open>A step adds at most one request, the record of its sender.\<close>
definition adds :: "session \<Rightarrow> session \<Rightarrow> bool" where
  "adds s s' \<longleftrightarrow> (\<forall>q < length (reqs s'). q < length (reqs s) \<or> made s' (wr_data (reqs s' ! q)))"

lemma writes_made_step:
  assumes "writes_made tr s" "grows s s'" "adds s s'" "queue_step e s s'" "keeps s s'"
  shows "writes_made (tr @ [e]) s'"
proof -
  have "made s' (wr_data (reqs s' ! q))" if "q < length (reqs s')" for q
    using assms(1,2,3) that made_grows[OF _ assms(2,5)]
    by (cases "q < length (reqs s)") (auto simp: adds_def writes_made_def reqs_made_def grows_def)
  moreover have "made s' d" if "Wrote q d \<in> set (tr @ [e])" for q d
  proof (cases "e = Wrote q d")
    case True
    then show ?thesis
      using assms(1,4) made_grows[OF _ assms(2,5)] by (auto simp: queue_step_def writes_made_def reqs_made_def)
  next
    case False
    then show ?thesis using that assms(1) made_grows[OF _ assms(2,5)] by (auto simp: writes_made_def)
  qed
  ultimately show ?thesis by (simp add: writes_made_def reqs_made_def)
qed

lemma still_adds: "reqs s' = reqs s \<Longrightarrow> adds s s'"
  by (simp add: adds_def)

lemma msg_for_made:
  assumes "user_ok s (USend sn k)" "msg_for s k m" "writes_owned s (USend sn k)"
  shows "made s m"
  using assms by (cases k) (auto simp: msg_for_def made_def user_ok_def writes_owned_def)

lemma made_heap: "heap s' = heap s \<Longrightarrow> owned s' = owned s \<Longrightarrow> made s' m = made s m"
  by (simp add: made_def)

lemma send_adds:
  assumes "(e, res, s') \<in> set (send_steps sn s)" "\<And>ch m. sn = Sending ch m \<Longrightarrow> made s m"
  shows "adds s s'"
proof -
  have "adds s (enqueue ch m s)" if "made s m" for ch m
    using that made_heap[of "enqueue ch m s" s m]
    by (simp add: adds_def enqueue_def nth_append less_Suc_eq)
  moreover have "adds s (set_reply q x s)" for q x by (simp add: adds_def set_reply_def)
  moreover have "adds s s" by (simp add: adds_def)
  moreover have "s' = s \<or> (\<exists>ch m. sn = Sending ch m \<and> s' = enqueue ch m s) \<or> (\<exists>q x. s' = set_reply q x s)"
    using assms(1) by (auto simp: send_steps_def split: sender.splits if_splits option.splits)
  ultimately show ?thesis using assms(2) by blast
qed

lemma tc_id_once: "tc_id (xs[x := (xs ! x)\<lparr>once := u\<rparr>] ! i) = tc_id (xs ! i)"
  by (cases "x = i"; cases "x < length xs") (simp_all add: list_update_beyond)

lemma user_adds:
  assumes "user_ok s u" "sends s u" "(e, us, s') \<in> set (user_steps u s)" "grows s s'" "writes_owned s u"
  shows "adds s s'"
proof (cases u)
  case (USend sn k)
  with assms(3) obtain e' res t where t: "(e', res, t) \<in> set (send_steps sn s)"
    and res: "case res of Inl sn' \<Rightarrow> s' = t | Inr err \<Rightarrow> (e, us, s') = resume k err t"
    by (auto simp: user_steps_def split: sum.splits)
  have "made s m" if "sn = Sending ch m" for ch m
    using assms(1,2,5) USend that msg_for_made by (auto simp: sends_def)
  from send_adds[OF t this] have "adds s t" .
  moreover have "reqs s' = reqs t \<and> (\<forall>m. made t m \<longrightarrow> made s' m)"
  proof (cases res)
    case (Inr err)
    then have r: "resume k err t = (e, us, s')" using res by simp
    have "length (heap s') = length (heap t) \<and> (\<forall>i. tc_id (heap s' ! i) = tc_id (heap t ! i))"
      using r by (cases k; cases err) (auto simp: resume_def set_conn_def tc_id_once)
    moreover have "reqs s' = reqs t" "keeps t s'" using r by (cases k; cases err; auto simp: resume_def keeps_def)+
    ultimately show ?thesis by (auto simp: made_def keeps_def)
  qed (use res in simp)
  ultimately show ?thesis by (auto simp: adds_def)
qed (use assms(3) in \<open>auto simp: user_steps_def Dial_next_def Dial_register_def Let_def intro!: still_adds\<close>)

lemma rl_adds:
  assumes "reject_made l" "(e, l', s') \<in> set (rl_steps l s)"
  shows "adds s s' \<and> reject_made l'"
proof (cases l)
  case (RLReject sn cid)
  with assms(2) obtain res t where t: "(e, res, t) \<in> set (send_steps sn s)"
    and res: "s' = (case res of Inl _ \<Rightarrow> t | Inr _ \<Rightarrow> conns_Delete cid t)"
    "l' = (case res of Inl sn' \<Rightarrow> RLReject sn' cid | Inr _ \<Rightarrow> RLRead)"
    by (auto simp: rl_steps_def split: sum.splits)
  have "made s m" if "sn = Sending ch m" for ch m
    using assms(1) RLReject that by (auto simp: reject_made_def made_def)
  from send_adds[OF t this] have a: "adds s t" .
  moreover have "adds s (conns_Delete cid t)"
    using a by (simp add: adds_def made_def)
  moreover have "sn' = Waiting q" if "res = Inl sn'" "sn' = Sending ch m \<or> sn' = Waiting q" for sn' ch m q
    using t that by (auto simp: send_steps_def split: sender.splits if_splits option.splits)
  ultimately show ?thesis using res by (auto simp: reject_made_def split: sum.splits sender.split)
next
  case (RLOpened r cid)
  then show ?thesis using assms(2)
    by (auto simp: rl_steps_def handleOpen_offer_def Let_def reject_made_def sendClose_def sendControl_def
        intro!: still_adds split: if_splits)
next
  case (RLRemoteClose r)
  then show ?thesis using assms(2) closing_still(1)[of s' r s]
    by (auto simp: rl_steps_def reject_made_def still_def intro!: still_adds)
next
  case RLClosing
  then show ?thesis using assms(2) closing_still
    by (auto simp: rl_steps_def reject_made_def still_def intro!: still_adds)
qed (use assms in \<open>auto simp: rl_steps_def handleOpen_def handleData_def handleClose_def handleData_deliver_def
    reject_made_def intro!: still_adds split: if_splits option.splits\<close>)

lemma wl_adds: "(e, w', s') \<in> set (wl_steps w s) \<Longrightarrow> adds s s'"
  by (auto simp: wl_steps_def wl_take_def wl_write_def Let_def adds_def set_reply_def
      split: wloop.splits list.splits if_splits)

lemma on_record_made: "reject_made (on_record rec)"
  by (simp add: on_record_def reject_made_def split: sum.split)

interpretation origin: relative "\<lambda>tr s. session_ok s \<and> requests_inv tr s \<and> answered tr s"
  "\<lambda>tr s u. user_ok s u \<and> sends s u" "\<lambda>tr s l. rl_ok s l \<and> True" "\<lambda>tr s w. wl_ok s w \<and> True"
  "\<lambda>t e s s'. grows s s' \<and> True"
  writes_made "\<lambda>_. writes_owned" "\<lambda>_ _. reject_made" "\<lambda>_ _ _. True" "\<lambda>_ _. keeps"
proof
  show "writes_made [] NewSession \<and> writes_owned NewSession UIdle \<and> reject_made RLRead \<and> True"
    by (simp add: writes_made_def reqs_made_def reject_made_def NewSession_def writes_owned_def)
next
  show "writes_made (tr @ [e]) s' \<and> writes_owned s' us \<and> keeps s s'"
    if "grows s s' \<and> True" "writes_made tr s" "(e, us, s') \<in> set (api_steps a s)" for tr s e s' us a
    using that writes_made_step[OF that(2)] api_still[OF that(3)] api_owned[OF that(3)] still_adds still_queue
    by (simp add: still_def)
next
  show "writes_made (tr @ [e]) s' \<and> writes_owned s' us \<and> keeps s s'"
    if "grows s s' \<and> True" "user_ok s u \<and> sends s u" "writes_made tr s" "writes_owned s u"
      "(e, us, s') \<in> set (user_steps u s)" for tr s e s' us u
    using that writes_made_step[OF that(3)] user_adds user_queue user_owned[OF that(4,5)] by blast
next
  show "writes_made (tr @ [e]) s' \<and> reject_made l' \<and> keeps s s'"
    if "grows s s' \<and> True" "rl_ok s l \<and> True" "writes_made tr s" "reject_made l" "(e, l', s') \<in> set (rl_steps l s)"
    for tr s e s' l l'
    using that writes_made_step[OF that(3)] rl_adds[OF that(4,5)] rl_queue rl_owned[OF that(5)] by blast
next
  show "writes_made (tr @ [e]) s' \<and> True \<and> keeps s s'"
    if "grows s s' \<and> True" "wl_ok s w \<and> True" "writes_made tr s" "(e, w', s') \<in> set (wl_steps w s)"
    for tr s e s' w w'
    using that writes_made_step[OF that(3)] wl_adds wl_queue wl_owned[OF that(4)] by blast
next
  show "writes_made (tr @ [SessClosed]) s \<and> writes_owned s UIdle \<and> keeps s s" if "writes_made tr s" for tr s
    using that by (auto simp: writes_made_def writes_owned_def keeps_def)
  show "writes_made (tr @ [Recv rec]) s \<and> reject_made (on_record rec) \<and> keeps s s" if "writes_made tr s" for tr s rec
    using that on_record_made by (auto simp: writes_made_def keeps_def)
  show "writes_made (tr @ [RecvFailed]) s \<and> reject_made RLClosing \<and> keeps s s" if "writes_made tr s" for tr s
    using that by (auto simp: writes_made_def reject_made_def keeps_def)
  show "keeps s s' \<Longrightarrow> writes_owned s u \<Longrightarrow> writes_owned s' u" for s s' u
    by (auto simp: writes_owned_def keeps_def split: user.splits cont.splits)
qed simp_all

section \<open>End to end\<close>

text \<open>What a session's own records decode to; the length field has 32 bits.\<close>
lemma Decode_own:
  assumes "valid_type t"
  shows "Decode 64 (encodeMsg t c p) = Inr \<lparr>Type = t, ConnID = c, Payload = take (unat (of_nat (length p) :: u32)) p\<rparr>"
proof -
  have "unat (of_nat (length p) :: u32) \<le> length p" by (simp add: unsigned_of_nat take_bit_eq_mod)
  then show ?thesis using assms encodeMsg_parts(3,4)[of t c p "[]"] encodeMsg_parts(1,5)[of t c p]
    by (simp add: Decode64_eq)
qed

lemma data_made:
  assumes "made s d" "(k, p) \<in> set (received [Recv d])"
  shows "\<exists>r < length (heap s). \<exists>p'. tc_id (heap s ! r) = k \<and> d = EncodeData k p' \<and> prefix p p'
     \<and> (length p' < 2 ^ 32 \<longrightarrow> p = p')"
proof -
  have t: "valid_type MsgOpen" "valid_type MsgData" "valid_type MsgClose" "MsgOpen \<noteq> MsgData" "MsgClose \<noteq> MsgData"
    by (simp_all add: valid_type_def) (simp_all add: MsgOpen_def MsgData_def MsgClose_def)
  from assms obtain r p' where r: "r < length (heap s)" "d = EncodeData (tc_id (heap s ! r)) p'"
    by (auto simp: made_def received_def on_record_def EncodeOpen_def EncodeClose_def Decode_own t)
  then have "k = tc_id (heap s ! r)" "p = take (unat (of_nat (length p') :: u32)) p'"
    using assms(2) by (simp_all add: received_def on_record_def EncodeData_def Decode_own t)
  moreover from this have "p = p'" if "length p' < 2 ^ 32"
    using that by (simp add: unsigned_of_nat take_bit_nat_eq_self)
  ultimately show ?thesis using r take_is_prefix by blast
qed

lemma sent_made:
  assumes "run (start n) tr S" "(k, p) \<in> set (sent tr)"
  shows "\<exists>q p'. Wrote q (EncodeData k p') \<in> set tr \<and> prefix p p' \<and> (length p' < 2 ^ 32 \<longrightarrow> p = p')
     \<and> (\<exists>r < length (heap (sess S)). tc_id (heap (sess S) ! r) = k)"
proof -
  have w: "writes_made tr (sess S)" using origin.both.global[OF assms(1)] by simp
  from assms(2) obtain d where d: "d \<in> set (concat (map put tr))" "(k, p) \<in> set (received [Recv d])"
    by (auto simp: sent_def received_def)
  then obtain q where q: "Wrote q d \<in> set tr" by (auto simp: put_def split: event.splits)
  with w have "made (sess S) d" by (auto simp: writes_made_def)
  from data_made[OF this d(2)] q show ?thesis by blast
qed


section \<open>Runs from a schedule\<close>

definition do_tmove :: "bool \<times> move \<Rightarrow> tunnel \<Rightarrow> ((bool \<times> event) \<times> tunnel) option" where
  "do_tmove mv T = (case mv of (b, mv) \<Rightarrow>
     (case do_move mv (if b then endA T else endB T) of
        None \<Rightarrow> None
      | Some (e, S) \<Rightarrow>
          let arriving = (if b then to_A T else to_B T)
          in if take (length (got e)) arriving = got e
             then Some ((b, e), if b
               then T\<lparr>endA := S, to_A := drop (length (got e)) arriving, to_B := to_B T @ put e\<rparr>
               else T\<lparr>endB := S, to_B := drop (length (got e)) arriving, to_A := to_A T @ put e\<rparr>)
             else None))"

fun tplay :: "(bool \<times> move) list \<Rightarrow> (bool \<times> event) list \<Rightarrow> tunnel \<Rightarrow> ((bool \<times> event) list \<times> tunnel) option" where
  "tplay [] tr T = Some (tr, T)"
| "tplay (mv # mvs) tr T = (case do_tmove mv T of None \<Rightarrow> None | Some (e, T') \<Rightarrow> tplay mvs (tr @ [e]) T')"

lemma do_tmove_step:
  assumes "do_tmove mv T = Some (e, T')"
  shows "tunnel_step T e T'"
proof -
  obtain b mv' where mv: "mv = (b, mv')" by fastforce
  obtain e' S where s: "do_move mv' (if b then endA T else endB T) = Some (e', S)"
    using assms mv by (auto simp: do_tmove_def split: option.splits)
  let ?xs = "if b then to_A T else to_B T"
  have tk: "take (length (got e')) ?xs = got e'" and e: "e = (b, e')"
    and T': "T' = (if b
      then T\<lparr>endA := S, to_A := drop (length (got e')) ?xs, to_B := to_B T @ put e'\<rparr>
      else T\<lparr>endB := S, to_B := drop (length (got e')) ?xs, to_A := to_A T @ put e'\<rparr>)"
    using assms mv s by (auto simp: do_tmove_def Let_def split: if_splits)
  have xs: "?xs = got e' @ drop (length (got e')) ?xs" using tk by (metis append_take_drop_id)
  note st = do_move_step[OF s]
  show ?thesis
  proof (cases b)
    case True
    from t_A[of T e' S "drop (length (got e')) ?xs"] st xs T' e True show ?thesis by simp
  next
    case False
    from t_B[of T e' S "drop (length (got e')) ?xs"] st xs T' e False show ?thesis by simp
  qed
qed

lemma tplay_run: "tplay mvs tr T = Some (tr', T') \<Longrightarrow> tunnel_run T0 tr T \<Longrightarrow> tunnel_run T0 tr' T'"
proof (induction mvs arbitrary: tr T)
  case (Cons mv mvs)
  then show ?case by (auto split: option.splits dest!: do_tmove_step intro: tunnel_snoc)
qed simp

lemma tplay_witness:
  "(case tplay mvs [] (tunnel_start n m) of None \<Rightarrow> False | Some (tr, T) \<Rightarrow> Q tr T)
     \<Longrightarrow> \<exists>tr T. tunnel_run (tunnel_start n m) tr T \<and> Q tr T"
  by (auto split: option.splits dest: tplay_run[OF _ tunnel_nil])

text \<open>One end dials and writes two bytes; the other accepts and reads one of them.\<close>
definition across :: "(bool \<times> move) list" where
  "across = map (Pair True) outbound
     @ map (Pair False) [MRecv (EncodeOpen 1 ''a''), MRead 0, MRead 0, MApi 0 AAccept 0]
     @ map (Pair True) [MApi 0 (AWrite 0 [7, 8]) 0, MUser 0 0, MWrite 0, MWrite 0, MUser 0 0]
     @ map (Pair False) [MRecv (EncodeData 1 [7, 8]), MRead 0, MRead 0, MApi 0 (ARead 0 1) 0]"


end
