(* ===== verification/Arrivals.thy ===== *)
theory Arrivals
  imports Link
begin

text \<open>
  A tunnel connection is opened before it is used: who writes to it was given it, so that one end has
  written an open with its id, and nothing with the id arrives at the other before the connection is
  stored. Then what is looked up for the id is all looked up for the connection.
\<close>

section \<open>Records of a connection\<close>

definition opens :: "u64 \<Rightarrow> byte list \<Rightarrow> bool" where
  "opens k d \<longleftrightarrow> (case on_record d of RLHandle m \<Rightarrow> Type m = MsgOpen \<and> ConnID m = k | _ \<Rightarrow> False)"

definition data_of :: "u64 \<Rightarrow> byte list \<Rightarrow> (u64 \<times> byte list) list" where
  "data_of k d = filter (\<lambda>m. fst m = k) (received [Recv d])"

lemma data_of_made:
  "data_of k (EncodeOpen c a) = []" "data_of k (EncodeClose c) = []"
  "c \<noteq> k \<Longrightarrow> data_of k (EncodeData c p) = []"
  "length p < 2 ^ 32 \<Longrightarrow> data_of k (EncodeData k p) = [(k, p)]"
proof -
  have t: "valid_type MsgOpen" "valid_type MsgData" "valid_type MsgClose" "MsgOpen \<noteq> MsgData" "MsgClose \<noteq> MsgData"
    by (simp_all add: valid_type_def) (simp_all add: MsgOpen_def MsgData_def MsgClose_def)
  show "data_of k (EncodeOpen c a) = []" "data_of k (EncodeClose c) = []" "c \<noteq> k \<Longrightarrow> data_of k (EncodeData c p) = []"
    using t by (simp_all add: data_of_def received_def on_record_def EncodeOpen_def EncodeClose_def EncodeData_def Decode_own)
  show "length p < 2 ^ 32 \<Longrightarrow> data_of k (EncodeData k p) = [(k, p)]"
    using t by (simp add: data_of_def received_def on_record_def EncodeData_def Decode_own unsigned_of_nat take_bit_nat_eq_self)
qed

lemma opens_made: "opens c (EncodeOpen c a)"
  by (simp add: opens_def on_record_def EncodeOpen_def Decode_own valid_type_def)

section \<open>Connections are opened before they are used\<close>

text \<open>A connection that the peer opened, and one that a caller was given.\<close>
definition came :: "event list \<Rightarrow> session \<Rightarrow> nat \<Rightarrow> bool" where
  "came tr s r \<longleftrightarrow> (\<exists>rec. Recv rec \<in> set tr \<and> opens (tc_id (heap s ! r)) rec)"

definition given :: "event list \<Rightarrow> session \<Rightarrow> bool" where
  "given tr s \<longleftrightarrow> (\<forall>r \<in> set (owned s). DialOk r \<in> set tr \<or> came tr s r) \<and> (\<forall>r \<in> set (connCh s). came tr s r)"

definition not_received :: "thread \<Rightarrow> event \<Rightarrow> session \<Rightarrow> session \<Rightarrow> bool" where
  "not_received t e s s' \<longleftrightarrow> t \<noteq> Reader \<longrightarrow> (\<forall>rec. e \<noteq> Recv rec)"

lemma came_grows: "came tr s r \<Longrightarrow> r < length (heap s) \<Longrightarrow> grows s s' \<Longrightarrow> came (tr @ [e]) s' r"
  by (auto simp: came_def grows_def)

lemma connCh_simps [simp]:
  "connCh (conns_Delete k s) = connCh s" "connCh (conns_Store k s) = connCh s" "connCh (set_reply q x s) = connCh s"
  "connCh (enqueue ch m s) = connCh s" "connCh (set_chan ch qs s) = connCh s"
  by (simp_all add: conns_Delete_def conns_Store_def set_reply_def enqueue_def set_chan_def split: prio.split)

lemma closing_connCh:
  "s' \<in> set (remoteClose r s) \<Longrightarrow> connCh s' = connCh s"
  "s' \<in> set (closeAll rs s) \<Longrightarrow> connCh s' = connCh s"
  "s' \<in> set (session_close s) \<Longrightarrow> connCh s' = connCh s"
proof -
  show r: "s' \<in> set (remoteClose r s) \<Longrightarrow> connCh s' = connCh s" for s s' r
    by (auto simp: remoteClose_def Let_def split: once_state.splits)
  show c: "s' \<in> set (closeAll rs s) \<Longrightarrow> connCh s' = connCh s" for s s' rs
    by (induction rs arbitrary: s) (auto dest!: r)
  show "s' \<in> set (session_close s) \<Longrightarrow> connCh s' = connCh s"
    by (auto simp: session_close_def split: if_splits dest!: c)
qed

lemma send_connCh: "(e, res, s') \<in> set (send_steps sn s) \<Longrightarrow> connCh s' = connCh s"
  by (auto simp: send_steps_def split: sender.splits if_splits option.splits)

text \<open>Who may own or offer a connection after a step.\<close>
definition hands :: "event \<Rightarrow> session \<Rightarrow> session \<Rightarrow> bool" where
  "hands e s s' \<longleftrightarrow> set (connCh s') \<subseteq> set (connCh s)
     \<and> (\<forall>r \<in> set (owned s'). r \<in> set (owned s) \<or> e = DialOk r \<or> r \<in> set (connCh s))"

lemma api_hands: "(e, us, s') \<in> set (api_steps a s) \<Longrightarrow> hands e s s'"
  by (cases a; cases "connCh s") (auto simp: hands_def api_steps_def Dial_def tc_Write_def tc_Close_def Let_def conn_Read_def
      Accept_def listener_Close_def closing_owned closing_connCh split: if_splits once_state.splits list.splits sum.splits)

lemma user_hands: "(e, us, s') \<in> set (user_steps u s) \<Longrightarrow> hands e s s'"
proof (cases u)
  case (USend sn k)
  assume "(e, us, s') \<in> set (user_steps u s)"
  with USend obtain e' res t where t: "(e', res, t) \<in> set (send_steps sn s)"
    and res: "case res of Inl sn' \<Rightarrow> us = USend sn' k \<and> s' = t | Inr err \<Rightarrow> (e, us, s') = resume k err t"
    by (auto simp: user_steps_def split: sum.splits)
  show ?thesis
    using res send_owned[OF t] send_connCh[OF t]
    by (cases k; auto simp: hands_def resume_def split: sum.splits option.splits)
qed (auto simp: user_steps_def Dial_next_def Dial_register_def Let_def hands_def)

lemma wl_hands: "(e, w', s') \<in> set (wl_steps w s) \<Longrightarrow> hands e s s'"
  by (auto simp: hands_def wl_steps_def wl_take_def wl_write_def Let_def split: wloop.splits list.splits if_splits)

lemma given_step:
  assumes "session_ok s" "grows s s'" "given tr s" "hands e s s'"
  shows "given (tr @ [e]) s'"
proof -
  have "r < length (heap s)" if "r \<in> set (owned s) \<union> set (connCh s)" for r
    using assms(1) that by (simp add: session_ok_def)
  then have c: "came (tr @ [e]) s' r" if "r \<in> set (owned s) \<union> set (connCh s)" "came tr s r" for r
    using came_grows[OF that(2) _ assms(2)] that(1) by blast
  have "DialOk r \<in> set (tr @ [e]) \<or> came (tr @ [e]) s' r" if "r \<in> set (owned s')" for r
  proof -
    from that assms(4) consider "r \<in> set (owned s)" | "e = DialOk r" | "r \<in> set (connCh s)" by (auto simp: hands_def)
    then show ?thesis using assms(3) c[of r] by cases (auto simp: given_def)
  qed
  moreover have "came (tr @ [e]) s' r" if "r \<in> set (connCh s')" for r
    using that assms(3,4) c[of r] by (auto simp: given_def hands_def)
  ultimately show ?thesis by (simp add: given_def)
qed

text \<open>What the read loop has in hand came from the peer, and what the peer opened is stored or in hand.\<close>
definition hand_came :: "event list \<Rightarrow> session \<Rightarrow> rloop \<Rightarrow> bool" where
  "hand_came tr s l = (case l of RLHandle m \<Rightarrow> \<exists>rec. Recv rec \<in> set tr \<and> on_record rec = RLHandle m
      | RLOpened r cid \<Rightarrow> came tr s r | _ \<Rightarrow> True)"

definition opened :: "event list \<Rightarrow> session \<Rightarrow> rloop \<Rightarrow> bool" where
  "opened tr s l \<longleftrightarrow> (\<forall>k rec. Recv rec \<in> set tr \<longrightarrow> opens k rec \<longrightarrow>
     (\<exists>m. l = RLHandle m \<and> Type m = MsgOpen \<and> ConnID m = k) \<or> (\<exists>r < length (heap s). tc_id (heap s ! r) = k))"

lemma stored_stays: "\<exists>r < length (heap s). tc_id (heap s ! r) = k \<Longrightarrow> grows s s' \<Longrightarrow> \<exists>r < length (heap s'). tc_id (heap s' ! r) = k"
  unfolding grows_def by (metis order_less_le_trans)

lemma opened_other:
  assumes "opened tr s l" "grows s s'" "\<forall>rec. e \<noteq> Recv rec"
  shows "opened (tr @ [e]) s' l"
  unfolding opened_def
proof (intro allI impI)
  fix k rec assume "Recv rec \<in> set (tr @ [e])" "opens k rec"
  then have "(\<exists>m. l = RLHandle m \<and> Type m = MsgOpen \<and> ConnID m = k) \<or> (\<exists>r < length (heap s). tc_id (heap s ! r) = k)"
    using assms(1,3) by (auto simp: opened_def)
  then show "(\<exists>m. l = RLHandle m \<and> Type m = MsgOpen \<and> ConnID m = k) \<or> (\<exists>r < length (heap s'). tc_id (heap s' ! r) = k)"
    using stored_stays[OF _ assms(2)] by blast
qed

lemma hand_came_other:
  assumes "hand_came tr s l" "grows s s'" "rl_ok s l"
  shows "hand_came (tr @ [e]) s' l"
  using assms came_grows[OF _ _ assms(2)] by (cases l) (auto simp: hand_came_def rl_ok_def)

lemma stored_again: "s' = conns_Store k s \<Longrightarrow> \<exists>r < length (heap s'). tc_id (heap s' ! r) = k"
  by (intro exI[of _ "length (heap s)"]) (simp add: conns_Store_def newTunnelConn_def)

lemma rl_no_recv: "(e, l', s') \<in> set (rl_steps l s) \<Longrightarrow> \<forall>rec. e \<noteq> Recv rec"
  by (cases l) (auto simp: rl_steps_def handleOpen_def handleData_def handleClose_def handleOpen_offer_def
      handleData_deliver_def Let_def send_steps_def split: if_splits option.splits sum.splits sender.splits)

text \<open>The read loop stores what it has in hand when that is an open.\<close>
lemma rl_stores:
  assumes "opened tr s l" "(e, l', s') \<in> set (rl_steps l s)" "grows s s'"
  shows "opened (tr @ [e]) s' l'"
proof -
  have o: "opened (tr @ [e]) s' l" by (rule opened_other[OF assms(1,3) rl_no_recv[OF assms(2)]])
  have "(\<exists>r < length (heap s'). tc_id (heap s' ! r) = ConnID m)" if "l = RLHandle m" "Type m = MsgOpen" for m
    using assms(2) that by (intro stored_again[of s' "ConnID m" s]) (simp add: rl_steps_def handleOpen_def)
  with o show ?thesis unfolding opened_def by blast
qed

lemma rl_hands:
  assumes "session_ok s" "rl_ok s l" "given tr s" "hand_came tr s l" "(e, l', s') \<in> set (rl_steps l s)" "grows s s'"
  shows "given (tr @ [e]) s' \<and> hand_came (tr @ [e]) s' l'"
proof (cases "\<exists>r cid. l = RLOpened r cid")
  case True
  then obtain r cid where l: "l = RLOpened r cid" by blast
  then have r: "r < length (heap s)" "came tr s r" using assms(2,4) by (simp_all add: rl_ok_def hand_came_def)
  have s': "s' = s \<or> s' = s\<lparr>connCh := connCh s @ [r]\<rparr>" and l': "hand_came (tr @ [e]) s' l'"
    using assms(5) l by (auto simp: rl_steps_def handleOpen_offer_def Let_def hand_came_def split: if_splits)
  have "given (tr @ [e]) s" by (rule given_step[OF assms(1) _ assms(3)]) (simp_all add: hands_def)
  moreover have "came (tr @ [e]) s r" using came_grows[OF r(2,1), of s] by simp
  moreover have "came t (s\<lparr>connCh := rs\<rparr>) x = came t s x" for t rs x by (simp add: came_def)
  ultimately have "given (tr @ [e]) s'" using s' by (auto simp: given_def)
  then show ?thesis using l' ..
next
  case False
  then have "hands e s s'"
    using assms(5) by (cases l) (auto simp: hands_def rl_steps_def handleOpen_def handleData_def handleClose_def handleOpen_offer_def
        handleData_deliver_def Let_def closing_owned closing_connCh send_owned send_connCh split: if_splits option.splits sum.splits)
  then have g: "given (tr @ [e]) s'" using given_step[OF assms(1,6,3)] by blast
  have "hand_came (tr @ [e]) s' l'"
  proof (cases "\<exists>r cid. l' = RLOpened r cid")
    case True
    then obtain m where m: "l = RLHandle m" "Type m = MsgOpen" "l' = RLOpened (length (heap s)) (ConnID m)" "s' = conns_Store (ConnID m) s"
      using assms(5) by (cases l) (auto simp: rl_steps_def handleOpen_def handleData_def handleClose_def handleOpen_offer_def
        handleData_deliver_def Let_def split: if_splits option.splits sum.splits)
    then obtain rec where "Recv rec \<in> set tr" "on_record rec = RLHandle m" using assms(4) by (auto simp: hand_came_def)
    then show ?thesis using m by (auto simp: hand_came_def came_def opens_def conns_Store_def newTunnelConn_def)
  next
    case False
    then show ?thesis using assms(5)
      by (cases l) (auto simp: hand_came_def rl_steps_def handleOpen_def handleData_def handleClose_def handleOpen_offer_def
        handleData_deliver_def Let_def split: if_splits option.splits sum.splits)
  qed
  with g show ?thesis ..
qed

interpretation origins: relative "\<lambda>_. session_ok" "\<lambda>_. user_ok" "\<lambda>_. rl_ok" "\<lambda>_. wl_ok" "\<lambda>_ _. grows"
  given "\<lambda>_ _ _. True" "\<lambda>tr s l. hand_came tr s l \<and> opened tr s l" "\<lambda>_ _ _. True" not_received
proof
  show "given [] NewSession \<and> True \<and> (hand_came [] NewSession RLRead \<and> opened [] NewSession RLRead) \<and> True"
    by (simp add: given_def hand_came_def opened_def NewSession_def)
next
  show "given (tr @ [e]) s' \<and> True \<and> not_received User e s s'"
    if "session_ok s" "grows s s'" "given tr s" "(e, us, s') \<in> set (api_steps a s)" for tr s e s' us a
    using that given_step[OF that(1-3) api_hands] user_events(1) by (auto simp: not_received_def)
next
  show "given (tr @ [e]) s' \<and> True \<and> not_received User e s s'"
    if "session_ok s" "grows s s'" "given tr s" "(e, us, s') \<in> set (user_steps u s)" for tr s e s' us u
    using that given_step[OF that(1-3) user_hands] user_events(2) by (auto simp: not_received_def)
next
  show "given (tr @ [e]) s' \<and> True \<and> not_received Writer e s s'"
    if "session_ok s" "grows s s'" "given tr s" "(e, w', s') \<in> set (wl_steps w s)" for tr s e s' w w'
    using that given_step[OF that(1-3) wl_hands] wl_events by (auto simp: not_received_def)
next
  show "given (tr @ [e]) s' \<and> (hand_came (tr @ [e]) s' l' \<and> opened (tr @ [e]) s' l') \<and> not_received Reader e s s'"
    if "session_ok s" "grows s s'" "rl_ok s l" "given tr s" "hand_came tr s l \<and> opened tr s l"
      "(e, l', s') \<in> set (rl_steps l s)" for tr s e s' l l'
    using that rl_hands[OF that(1,3,4) _ that(6,2)] rl_stores[OF _ that(6,2)] by (simp add: not_received_def)
next
  have silent: "given (tr @ [e]) s" if "session_ok s" "given tr s" for tr s e
    using that by (intro given_step[of s s tr e]) (simp_all add: hands_def)
  show "given (tr @ [SessClosed]) s \<and> True \<and> not_received User SessClosed s s"
    if "session_ok s" "given tr s" for tr s using silent[OF that] by (simp add: not_received_def)
  show "given (tr @ [Recv rec]) s \<and> (hand_came (tr @ [Recv rec]) s (on_record rec) \<and> opened (tr @ [Recv rec]) s (on_record rec))
      \<and> not_received Reader (Recv rec) s s"
    if "session_ok s" "given tr s" "hand_came tr s RLRead \<and> opened tr s RLRead" for tr s rec
  proof -
    have "hand_came (tr @ [Recv rec]) s (on_record rec)"
      by (auto simp: hand_came_def on_record_def split: sum.split intro!: exI[of _ rec])
    moreover have "opened (tr @ [Recv rec]) s (on_record rec)"
      using that(3) by (auto simp: opened_def opens_def split: rloop.splits)
    ultimately show ?thesis using silent[OF that(1,2)] by (simp add: not_received_def)
  qed
  show "given (tr @ [RecvFailed]) s \<and> (hand_came (tr @ [RecvFailed]) s RLClosing \<and> opened (tr @ [RecvFailed]) s RLClosing)
      \<and> not_received Reader RecvFailed s s"
    if "session_ok s" "given tr s" "hand_came tr s RLRead \<and> opened tr s RLRead" for tr s
    using that silent[OF that(1,2)] by (simp add: not_received_def hand_came_def opened_def)
  show "hand_came (tr @ [e]) s' l \<and> opened (tr @ [e]) s' l"
    if "grows s s'" "rl_ok s l" "not_received t e s s'" "t \<noteq> Reader" "hand_came tr s l \<and> opened tr s l" for tr s t e s' l
    using that hand_came_other[of tr s l s' e] opened_other[of tr s l s' e] by (simp add: not_received_def)
qed simp_all

section \<open>Nothing arrives before its connection is stored\<close>

lemma received_data: "filter (\<lambda>m. fst m = k) (received (map Recv ds)) = concat (map (data_of k) ds)"
proof (induction ds)
  case (Cons d ds)
  have "received (Recv d # map Recv ds) = received [Recv d] @ received (map Recv ds)" by (simp add: received_def)
  then show ?case using Cons by (simp add: data_of_def)
qed simp

text \<open>No data for an id before a record that opens it.\<close>
definition opened_first :: "u64 \<Rightarrow> byte list list \<Rightarrow> bool" where
  "opened_first k ds \<longleftrightarrow> (\<forall>ds1 d ds2. ds = ds1 @ d # ds2 \<longrightarrow> data_of k d \<noteq> [] \<longrightarrow> (\<exists>d' \<in> set ds1. opens k d'))"

lemma opened_first_prefix: "opened_first k (ds @ ds') \<Longrightarrow> opened_first k ds"
  unfolding opened_first_def by (metis append.assoc append_Cons)

lemma opened_first_snoc:
  assumes "opened_first k ds" "data_of k d = [] \<or> (\<exists>d' \<in> set ds. opens k d')"
  shows "opened_first k (ds @ [d])"
  unfolding opened_first_def
proof (intro allI impI)
  fix ds1 e ds2 assume e: "ds @ [d] = ds1 @ e # ds2" "data_of k e \<noteq> []"
  show "\<exists>d' \<in> set ds1. opens k d'"
  proof (cases ds2 rule: rev_cases)
    case Nil
    then show ?thesis using e assms(2) by simp
  next
    case (snoc ys y)
    then have "ds = ds1 @ e # ys" using e(1) by simp
    then show ?thesis using assms(1) e(2) unfolding opened_first_def by blast
  qed
qed

lemma opened_first_used:
  assumes "opened_first k ds" "d \<in> set ds" "data_of k d \<noteq> []"
  shows "\<exists>d' \<in> set ds. opens k d'"
proof -
  obtain ds1 ds2 where ds: "ds = ds1 @ d # ds2" using assms(2) by (auto simp: in_set_conv_decomp)
  then show ?thesis using assms(1,3) unfolding opened_first_def by (metis UnI1 set_append)
qed

lemma step_conn:
  assumes "run (start n) tr S" "step S e S'"
  shows "conn_step e (sess S) (sess S')"
proof -
  have ok: "session_ok (sess S)" "rl_ok (sess S) (rl S)" using basic.global[OF assms(1)] basic.reader[OF assms(1)] by simp_all
  have u: "user_ok (sess S) (users S ! u)" if "u < length (users S)" for u
    using basic.caller[OF assms(1)] that by simp
  from assms(2) show ?thesis
    by cases (use ok u in \<open>auto intro: api_conn user_conn rl_conn wl_conn silent_conn\<close>)
qed

lemma step_routed:
  assumes "step S (Routed k d) S'"
  shows "\<exists>m. rl S = RLHandle m \<and> Type m = MsgData \<and> ConnID m = k"
  using assms
proof cases
  case (step_rl l s')
  then show ?thesis
    by (cases "rl S") (auto simp: rl_steps_def handleOpen_def handleData_def handleClose_def handleOpen_offer_def
      handleData_deliver_def Let_def send_steps_def split: if_splits option.splits sum.splits sender.splits)
qed (use user_events wl_events in blast)+

text \<open>
  Everything looked up for the id was looked up for the connection: nothing before it was stored.
\<close>
definition all_routed :: "u64 \<Rightarrow> nat \<Rightarrow> event list \<Rightarrow> bool" where
  "all_routed k r tr \<longleftrightarrow> (case fst (routed r tr) of
     None \<Rightarrow> payloads k (looked tr) = []
   | Some k' \<Rightarrow> k' = k \<longrightarrow> snd (routed r tr) = payloads k (looked tr))"

definition only :: "u64 \<Rightarrow> nat \<Rightarrow> sys \<Rightarrow> bool" where
  "only k r S \<longleftrightarrow> (\<forall>x < length (heap (sess S)). tc_id (heap (sess S) ! x) = k \<longleftrightarrow> x = r)"

lemma step_grows: "run (start n) tr S \<Longrightarrow> step S e S' \<Longrightarrow> grows (sess S) (sess S')"
proof -
  assume a: "run (start n) tr S" "step S e S'"
  have ok: "session_ok (sess S)" "rl_ok (sess S) (rl S)" "wl_ok (sess S) (wl S)"
    using basic.global[OF a(1)] basic.reader[OF a(1)] basic.writer[OF a(1)] by simp_all
  have u: "user_ok (sess S) (users S ! u)" if "u < length (users S)" for u
    using basic.caller[OF a(1)] that by simp
  from a(2) show ?thesis
    by cases (use ok u in \<open>auto dest: basic.api basic.user basic.rl basic.wl\<close>)
qed

lemma only_before: "only k r S' \<Longrightarrow> run (start n) tr S \<Longrightarrow> step S e S' \<Longrightarrow> only k r S"
  using step_grows[of n tr S e S'] unfolding only_def grows_def by (metis order_less_le_trans)

lemma all_routed_step:
  assumes r: "run (start n) tr S" "step S e S'" and o: "only k r S'" and a: "all_routed k r tr"
    and f: "fst (routed r tr) = None \<Longrightarrow> opened_first k (concat (map got tr))"
  shows "all_routed k r (tr @ [e])"
proof -
  have c: "conn_step e (sess S) (sess S')" by (rule step_conn[OF r])
  have inv: "stream_inv r tr (sess S)" using stream.both.global[OF r(1)] by blast
  have none: "fst (routed r tr) = None \<longleftrightarrow> \<not> r < length (heap (sess S))"
    using inv by (auto simp: stream_inv_def split: if_splits)
  show ?thesis
  proof (cases e)
    case (Stored x k')
    then have "x = r \<Longrightarrow> fst (routed r tr) = None" using conn_step_old(2)[OF c] none by blast
    then show ?thesis using a Stored by (auto simp: all_routed_def routed_step_def split: option.splits)
  next
    case (Routed k' d)
    then obtain m where m: "rl S = RLHandle m" "Type m = MsgData" "ConnID m = k'" using step_routed r(2) by blast
    have False if n: "fst (routed r tr) = None" "k' = k"
    proof -
      have "received tr = looked tr @ [(k, Payload m)]"
        using arrival.both.reader[OF r(1)] m n by (simp add: arrivals_def in_hand_def)
      then have "filter (\<lambda>m. fst m = k) (received tr) \<noteq> []" by simp
      moreover have "filter (\<lambda>m. fst m = k) (received tr) = concat (map (data_of k) (concat (map got tr)))"
        by (subst received_got) (rule received_data)
      ultimately obtain d' where "d' \<in> set (concat (map got tr))" "data_of k d' \<noteq> []" by fastforce
      then obtain rec where "rec \<in> set (concat (map got tr))" "opens k rec" using opened_first_used f n(1) by blast
      then have "Recv rec \<in> set tr" "opens k rec" by (auto simp: got_def split: event.splits)
      moreover have "opened tr (sess S) (rl S)" using origins.both.reader[OF r(1)] by blast
      ultimately obtain x where "x < length (heap (sess S))" "tc_id (heap (sess S) ! x) = k"
        using m by (auto simp: opened_def MsgOpen_def MsgData_def)
      then show False using only_before[OF o r] none n(1) by (auto simp: only_def)
    qed
    then show ?thesis using a Routed by (auto simp: all_routed_def routed_step_def split: option.splits)
  qed (use a in \<open>simp_all add: all_routed_def routed_step_def split: option.splits\<close>)
qed

section \<open>Data is sent after the connection is opened\<close>

lemma opens_iff: "opens k (EncodeOpen c a) \<longleftrightarrow> c = k" "\<not> opens k (EncodeClose c)" "\<not> opens k (EncodeData c p)"
proof -
  have t: "valid_type MsgOpen" "valid_type MsgData" "valid_type MsgClose" "MsgOpen \<noteq> MsgData" "MsgClose \<noteq> MsgOpen"
    by (simp_all add: valid_type_def) (simp_all add: MsgOpen_def MsgData_def MsgClose_def)
  then show "opens k (EncodeOpen c a) \<longleftrightarrow> c = k" "\<not> opens k (EncodeClose c)" "\<not> opens k (EncodeData c p)"
    by (simp_all add: opens_def on_record_def EncodeOpen_def EncodeClose_def EncodeData_def Decode_own)
qed

lemma puts_iff: "d \<in> set (concat (map put tr)) \<longleftrightarrow> (\<exists>q. Wrote q d \<in> set tr)"
  by (force simp: put_def split: event.splits)

lemma gets_iff: "d \<in> set (concat (map got tr)) \<longleftrightarrow> Recv d \<in> set tr"
  by (force simp: got_def split: event.splits)

text \<open>Who writes data for an id was given its connection: it dialed, or the peer did.\<close>
lemma data_given:
  assumes r: "run (start n) tr S" "step S (Wrote q d) S'" and o: "only k r S" and d: "data_of k d \<noteq> []"
  shows "(\<exists>rec. rec \<in> set (concat (map put tr)) \<and> opens k rec) \<or> (\<exists>rec. rec \<in> set (concat (map got tr)) \<and> opens k rec)"
proof -
  have made: "made (sess S) d"
  proof -
    have "queue_step (Wrote q d) (sess S) (sess S')" by (rule step_queue[OF r])
    then have "q < length (reqs (sess S))" "d = wr_data (reqs (sess S) ! q)" by (simp_all add: queue_step_def)
    then show ?thesis using origin.both.global[OF r(1)] by (simp add: writes_made_def reqs_made_def)
  qed
  then obtain x p where x: "x < length (heap (sess S))" "x \<in> set (owned (sess S))" "d = EncodeData (tc_id (heap (sess S) ! x)) p"
    using d by (auto simp: made_def data_of_made(1,2))
  then have k: "tc_id (heap (sess S) ! x) = k" using d data_of_made(3) by metis
  have "given tr (sess S)" using origins.both.global[OF r(1)] by simp
  with x(2) consider "DialOk x \<in> set tr" | "came tr (sess S) x" by (auto simp: given_def)
  then show ?thesis
  proof cases
    case 1
    have "answered tr (sess S)" using service.both.global[OF r(1)] by simp
    with 1 obtain q' a where "Wrote q' (EncodeOpen k a) \<in> set tr" using k by (auto simp: answered_def)
    then show ?thesis using puts_iff opens_iff(1) by blast
  next
    case 2
    then obtain rec where "Recv rec \<in> set tr" "opens k rec" using k by (auto simp: came_def)
    then show ?thesis using gets_iff by blast
  qed
qed

text \<open>An end that has written an open with an id has a connection with it.\<close>
lemma opens_stored:
  assumes "run (start n) tr S" "rec \<in> set (concat (map put tr))" "opens k rec"
  shows "\<exists>x < length (heap (sess S)). tc_id (heap (sess S) ! x) = k"
proof -
  have "writes_made tr (sess S)" using origin.both.global[OF assms(1)] by simp
  moreover obtain q where "Wrote q rec \<in> set tr" using assms(2) puts_iff by blast
  ultimately have "made (sess S) rec" by (auto simp: writes_made_def)
  then show ?thesis using assms(3) by (auto simp: made_def opens_iff)
qed

end
