(* ===== verification/Forwarding.thy ===== *)
theory Forwarding
  imports Prelude
begin

text \<open>
  Joining sockets to tunnel connections, \<open>src/wormhole/tunnel/tunnel.go\<close>: the accept loops of
  \<open>Forward\<close> and \<open>Serve\<close>, what each does with a connection, and \<open>Proxy\<close>, which copies in both
  directions until the first copy ends.
\<close>

section \<open>Accepting\<close>

text \<open>What \<open>Accept\<close> returns: a connection, or an error, then with whether the session has stopped.\<close>
datatype accepted = Accepted nat | AcceptFailed string bool

text \<open>
  The connections the loop starts a goroutine for, and the result of the function: \<open>None\<close> while the
  loop still waits, \<open>Some None\<close> for \<open>nil\<close>.
\<close>
fun accept_loop :: "accepted list \<Rightarrow> nat list \<times> string option option" where
  "accept_loop [] = ([], None)"
| "accept_loop (Accepted c # rest) = (case accept_loop rest of (cs, r) \<Rightarrow> (c # cs, r))"
| "accept_loop (AcceptFailed err stopped # rest) = ([], Some (if stopped then None else Some err))"

definition Forward :: "string option \<Rightarrow> accepted list \<Rightarrow> nat list \<times> string option option" where
  "Forward listen_err results = (case listen_err of Some err \<Rightarrow> ([], Some (Some err)) | None \<Rightarrow> accept_loop results)"

definition Serve :: "accepted list \<Rightarrow> nat list \<times> string option option" where
  "Serve results = accept_loop results"

text \<open>What becomes of an accepted connection when the other one is dialed; the deferred calls last.\<close>
datatype 'c action = ProxyBoth 'c 'c | CloseConnection 'c

definition forward_connection :: "'c \<Rightarrow> string + 'c \<Rightarrow> 'c action list" where
  "forward_connection localConn dialed =
     (case dialed of
        Inl err \<Rightarrow> [CloseConnection localConn]
      | Inr tunnelConn \<Rightarrow> [ProxyBoth localConn tunnelConn, CloseConnection tunnelConn, CloseConnection localConn])"

definition serve_connection :: "'c \<Rightarrow> string + 'c \<Rightarrow> 'c action list" where
  "serve_connection tc dialed =
     (case dialed of
        Inl err \<Rightarrow> [CloseConnection tc]
      | Inr localConn \<Rightarrow> [ProxyBoth localConn tc, CloseConnection localConn, CloseConnection tc])"

section \<open>Proxy\<close>

text \<open>
  One direction, an \<open>io.Copy\<close>: what its source has sent and the copy has not read, the chunk it has
  read and not written, what it has written; \<open>sent\<close> is all the source ever sent.
\<close>
record copy_flow =
  sent :: "byte list"
  unread :: "byte list"
  ended :: bool
  held :: "byte list"
  copied :: "byte list"
  running :: bool

record proxy =
  ab :: copy_flow
  ba :: copy_flow
  done_closed :: bool
  closed :: bool

definition new_flow :: copy_flow where
  "new_flow = \<lparr>sent = [], unread = [], ended = False, held = [], copied = [], running = True\<rparr>"

definition new_proxy :: proxy where
  "new_proxy = \<lparr>ab = new_flow, ba = new_flow, done_closed = False, closed = False\<rparr>"

text \<open>
  The source sends or ends; the copy reads a chunk, writes it, and ends at the end of its source, or
  with an error. Once the destination is closed, \<open>c\<close>, a write is always an error; a read may still give
  what had arrived.
\<close>
inductive flow_step :: "bool \<Rightarrow> copy_flow \<Rightarrow> copy_flow \<Rightarrow> bool" where
  f_send: "\<not> ended f \<Longrightarrow> flow_step c f (f\<lparr>sent := sent f @ p, unread := unread f @ p\<rparr>)"
| f_end: "flow_step c f (f\<lparr>ended := True\<rparr>)"
| f_read: "running f \<Longrightarrow> held f = [] \<Longrightarrow> unread f = p @ rest \<Longrightarrow> p \<noteq> []
    \<Longrightarrow> flow_step c f (f\<lparr>held := p, unread := rest\<rparr>)"
| f_write: "running f \<Longrightarrow> held f \<noteq> [] \<Longrightarrow> flow_step False f (f\<lparr>copied := copied f @ held f, held := []\<rparr>)"
| f_eof: "running f \<Longrightarrow> held f = [] \<Longrightarrow> unread f = [] \<Longrightarrow> ended f \<Longrightarrow> flow_step c f (f\<lparr>running := False\<rparr>)"
| f_fail: "running f \<Longrightarrow> flow_step c f (f\<lparr>running := False\<rparr>)"

text \<open>A copy that ends closes \<open>done\<close>; then \<open>Proxy\<close> closes both connections.\<close>
inductive proxy_step :: "proxy \<Rightarrow> proxy \<Rightarrow> bool" where
  p_ab: "flow_step (closed s) (ab s) f
    \<Longrightarrow> proxy_step s (s\<lparr>ab := f, done_closed := done_closed s \<or> running (ab s) \<and> \<not> running f\<rparr>)"
| p_ba: "flow_step (closed s) (ba s) f
    \<Longrightarrow> proxy_step s (s\<lparr>ba := f, done_closed := done_closed s \<or> running (ba s) \<and> \<not> running f\<rparr>)"
| p_close: "done_closed s \<Longrightarrow> proxy_step s (s\<lparr>closed := True\<rparr>)"

inductive_cases flow_stepE: "flow_step c f f'"
inductive_cases proxy_stepE: "proxy_step s s'"

abbreviation proxy_run :: "proxy \<Rightarrow> proxy \<Rightarrow> bool" where
  "proxy_run \<equiv> proxy_step\<^sup>*\<^sup>*"

definition flow_ok :: "copy_flow \<Rightarrow> bool" where
  "flow_ok f \<longleftrightarrow> sent f = copied f @ held f @ unread f"

lemma flow_step_ok: "flow_step c f f' \<Longrightarrow> flow_ok f \<Longrightarrow> flow_ok f' \<and> prefix (sent f) (sent f') \<and> prefix (copied f) (copied f')"
  by (erule flow_stepE) (auto simp: flow_ok_def)

lemma flow_step_closed: "flow_step True f f' \<Longrightarrow> copied f' = copied f"
  by (erule flow_stepE) auto

definition proxy_ok :: "proxy \<Rightarrow> bool" where
  "proxy_ok s \<longleftrightarrow> flow_ok (ab s) \<and> flow_ok (ba s)
     \<and> (done_closed s \<longleftrightarrow> \<not> running (ab s) \<or> \<not> running (ba s)) \<and> (closed s \<longrightarrow> done_closed s)"

lemma flow_step_running: "flow_step c f f' \<Longrightarrow> running f' \<Longrightarrow> running f"
  by (erule flow_stepE) auto

lemma proxy_step_ok: "proxy_step s s' \<Longrightarrow> proxy_ok s \<Longrightarrow> proxy_ok s'"
  by (erule proxy_stepE) (auto simp: proxy_ok_def dest: flow_step_ok flow_step_running)

lemma proxy_run_ok: "proxy_run new_proxy s \<Longrightarrow> proxy_ok s"
proof (induction rule: rtranclp_induct)
  case base
  show ?case by (simp add: proxy_ok_def flow_ok_def new_proxy_def new_flow_def)
next
  case (step t u)
  then show ?case by (blast intro: proxy_step_ok)
qed

lemma closed_run:
  assumes "proxy_run s s'" "closed s"
  shows "closed s' \<and> copied (ab s') = copied (ab s) \<and> copied (ba s') = copied (ba s)"
  using assms
proof (induction rule: rtranclp_induct)
  case (step t u)
  from step(2) show ?case
    by (cases rule: proxy_step.cases) (use step in \<open>auto dest: flow_step_closed\<close>)
qed simp

section \<open>Properties\<close>

text \<open>
  \<open>Proxy\<close> does not reorder, invent or skip: at any time what it has written in a direction is a
  prefix of what was sent, all of it when that copy has nothing left to read or to write; and it
  closes the connections only once one of the copies has ended.
\<close>
theorem proxy_copies:
  assumes "proxy_run new_proxy s"
  shows "prefix (copied (ab s)) (sent (ab s)) \<and> prefix (copied (ba s)) (sent (ba s))
    \<and> (held (ab s) = [] \<and> unread (ab s) = [] \<longrightarrow> copied (ab s) = sent (ab s))
    \<and> (closed s \<longrightarrow> \<not> running (ab s) \<or> \<not> running (ba s))"
  using proxy_run_ok[OF assms] by (auto simp: proxy_ok_def flow_ok_def)

text \<open>The answer to a request is lost: \<open>a\<close> sends a request and ends, and \<open>b\<close> answers.\<close>
definition half_closed :: proxy where
  "half_closed =
     \<lparr>ab = \<lparr>sent = [1], unread = [], ended = True, held = [], copied = [1], running = False\<rparr>,
      ba = \<lparr>sent = [2], unread = [2], ended = False, held = [], copied = [], running = True\<rparr>,
      done_closed = True, closed = True\<rparr>"

lemma half_closed_run: "proxy_run new_proxy half_closed"
proof -
  let ?f = "\<lambda>u e h w r. \<lparr>sent = [1], unread = u, ended = e, held = h, copied = w, running = r\<rparr>"
  let ?b = "\<lparr>sent = [2], unread = [2], ended = False, held = [], copied = [], running = True\<rparr>"
  let ?s = "\<lambda>f g d c. \<lparr>ab = f, ba = g, done_closed = d, closed = c\<rparr>"
  have "proxy_step new_proxy (?s (?f [1] False [] [] True) new_flow False False)"
    using p_ab[OF f_send[of "ab new_proxy" _ "[1]"]] by (simp add: new_proxy_def new_flow_def)
  moreover have "proxy_step (?s (?f [1] False [] [] True) new_flow False False) (?s (?f [] False [1] [] True) new_flow False False)"
    using p_ab[of "?s (?f [1] False [] [] True) new_flow False False" "?f [] False [1] [] True"] f_read[of "?f [1] False [] [] True" "[1]" "[]"] by simp
  moreover have "proxy_step (?s (?f [] False [1] [] True) new_flow False False) (?s (?f [] False [] [1] True) new_flow False False)"
    using p_ab[of "?s (?f [] False [1] [] True) new_flow False False" "?f [] False [] [1] True"] f_write[of "?f [] False [1] [] True"] by simp
  moreover have "proxy_step (?s (?f [] False [] [1] True) new_flow False False) (?s (?f [] True [] [1] True) new_flow False False)"
    using p_ab[OF f_end, of "?s (?f [] False [] [1] True) new_flow False False"] by simp
  moreover have "proxy_step (?s (?f [] True [] [1] True) new_flow False False) (?s (?f [] True [] [1] False) new_flow True False)"
    using p_ab[of "?s (?f [] True [] [1] True) new_flow False False" "?f [] True [] [1] False"] f_eof[of "?f [] True [] [1] True"] by simp
  moreover have "proxy_step (?s (?f [] True [] [1] False) new_flow True False) (?s (?f [] True [] [1] False) ?b True False)"
    using p_ba[OF f_send[of "ba (?s (?f [] True [] [1] False) new_flow True False)" _ "[2]"]] by (simp add: new_flow_def)
  moreover have "proxy_step (?s (?f [] True [] [1] False) ?b True False) half_closed"
    using p_close[of "?s (?f [] True [] [1] False) ?b True False"] by (simp add: half_closed_def)
  ultimately show ?thesis by (meson converse_rtranclp_into_rtranclp rtranclp.rtrancl_refl)
qed

text \<open>
  A connection whose client ends its sending after the request, as TCP allows, never gets the answer:
  \<open>Proxy\<close> closes both connections when the first copy ends.
\<close>
theorem half_close_loses_answer:
  "\<exists>s. proxy_run new_proxy s \<and> copied (ab s) = [1] \<and> sent (ba s) = [2]
     \<and> (\<forall>s'. proxy_run s s' \<longrightarrow> copied (ba s') = [])"
  using half_closed_run closed_run[of half_closed]
  by (intro exI[of _ half_closed]) (simp add: half_closed_def)

lemma proxy_copies_witness:
  "proxy_run new_proxy half_closed \<and> closed half_closed \<and> prefix (copied (ab half_closed)) [1]
   \<and> prefix (copied (ba half_closed)) [2]"
  using proxy_copies[OF half_closed_run] half_closed_run by (simp add: half_closed_def)

end
