(* ===== verification/Feeding.thy ===== *)
theory Feeding
  imports Arrivals Forwarding "HOL-Library.Multiset"
begin

text \<open>
  The copy that \<open>Proxy\<close> runs from a socket into a tunnel connection, with the session it writes to: each
  chunk it holds is with the copy, in a request that is queued, or written, so that the data messages
  of the connection that are written are the chunks, in order and once.
\<close>

section \<open>The copy into the tunnel\<close>

definition writing :: "nat \<Rightarrow> user \<Rightarrow> bool" where
  "writing r us = (case us of USend sn k \<Rightarrow> (case k of KWrite r' p \<Rightarrow> r' = r | _ \<Rightarrow> False) | _ \<Rightarrow> False)"

abbreviation busy :: "nat \<Rightarrow> sys \<Rightarrow> bool" where
  "busy r S \<equiv> \<exists>us \<in> set (users S). writing r us"

text \<open>
  The copy from a socket into the tunnel connection \<open>r\<close>, and the steps of the session; the buffer of
  \<open>io.Copy\<close> has 32 kilobytes. No one else writes to the connection.
\<close>
inductive out_step :: "nat \<Rightarrow> sys \<times> copy_flow \<Rightarrow> event list \<Rightarrow> sys \<times> copy_flow \<Rightarrow> bool" where
  o_source: "flow_step True f f' \<Longrightarrow> (busy r S \<Longrightarrow> running f' = running f) \<Longrightarrow> length (held f') \<le> 32 * 1024
    \<Longrightarrow> out_step r (S, f) [] (S, f')"
| o_call: "\<not> busy r S \<Longrightarrow> running f \<Longrightarrow> held f \<noteq> [] \<Longrightarrow> u < length (users S) \<Longrightarrow> users S ! u = UIdle
    \<Longrightarrow> (e, us, s') \<in> set (api_steps (AWrite r (held f)) (sess S))
    \<Longrightarrow> out_step r (S, f) [e] (S\<lparr>sess := s', users := (users S)[u := us]\<rparr>, f\<lparr>running := (us \<noteq> UIdle)\<rparr>)"
| o_done: "step S (WriteOk r p) S' \<Longrightarrow> out_step r (S, f) [WriteOk r p] (S', f\<lparr>copied := copied f @ held f, held := []\<rparr>)"
| o_failed: "step S (WriteErr r er) S' \<Longrightarrow> busy r S \<Longrightarrow> \<not> busy r S'
    \<Longrightarrow> out_step r (S, f) [WriteErr r er] (S', f\<lparr>running := False\<rparr>)"
| o_other: "step S e S' \<Longrightarrow> (\<And>p. e \<noteq> WriteOk r p) \<Longrightarrow> (\<And>er. e \<noteq> WriteErr r er)
    \<Longrightarrow> (\<And>u. u < length (users S') \<Longrightarrow> writing r (users S' ! u) \<Longrightarrow> writing r (users S ! u))
    \<Longrightarrow> out_step r (S, f) [e] (S', f)"

inductive_cases out_stepE: "out_step r (S, f) es (S', f')"

text \<open>The requests that are queued or about to be written, and those with data for an id.\<close>
definition load :: "sys \<Rightarrow> nat multiset" where
  "load S = mset (case wl S of WLWrite b q \<Rightarrow> [q] | _ \<Rightarrow> []) + mset (chan Control (sess S)) + mset (chan Data (sess S))"

definition bearing :: "u64 \<Rightarrow> sys \<Rightarrow> nat multiset" where
  "bearing k S = filter_mset (\<lambda>q. data_of k (wr_data (reqs (sess S) ! q)) \<noteq> []) (load S)"

definition moved :: "event \<Rightarrow> nat multiset \<Rightarrow> nat multiset \<Rightarrow> bool" where
  "moved e M M' = (case e of Queued ch q \<Rightarrow> M' = add_mset q M | Wrote q d \<Rightarrow> M = add_mset q M'
     | WriteFailed q \<Rightarrow> M = add_mset q M' | _ \<Rightarrow> M' = M)"

lemma queue_mset:
  assumes "queue_step e s s'"
  shows "mset (chan Control s) + mset (chan Data s) + (case e of Queued ch q \<Rightarrow> {#q#} | _ \<Rightarrow> {#})
    = mset (chan Control s') + mset (chan Data s') + (case e of Took ch q \<Rightarrow> {#q#} | _ \<Rightarrow> {#})"
proof -
  have "chan ch s @ queued ch [e] = taken ch [e] @ chan ch s'" for ch using assms by (simp add: queue_step_def)
  from this[of Control] this[of Data]
  have "mset (chan Control s) + mset (queued Control [e]) = mset (taken Control [e]) + mset (chan Control s')"
    "mset (chan Data s) + mset (queued Data [e]) = mset (taken Data [e]) + mset (chan Data s')"
    by (metis mset_append)+
  note m = this
  show ?thesis
  proof (cases e)
    case (Queued ch q)
    with m show ?thesis by (cases ch) (simp_all add: queued_def taken_def)
  next
    case (Took ch q)
    with m show ?thesis by (cases ch) (simp_all add: queued_def taken_def)
  qed (use m in \<open>simp_all add: queued_def taken_def\<close>)
qed

text \<open>Only the write loop takes and writes, and only it does not queue.\<close>
definition no_write :: "event \<Rightarrow> bool" where
  "no_write e \<longleftrightarrow> (\<forall>ch q. e \<noteq> Took ch q) \<and> (\<forall>q d. e \<noteq> Wrote q d) \<and> (\<forall>q. e \<noteq> WriteFailed q)"

lemma send_no_write: "(e, res, s') \<in> set (send_steps sn s) \<Longrightarrow> no_write e"
  by (auto simp: no_write_def send_steps_def split: sender.splits if_splits option.splits)

lemma no_writes:
  "(e, us, s') \<in> set (api_steps a s) \<Longrightarrow> no_write e \<and> (\<forall>ch q. e \<noteq> Queued ch q)"
  "(e, us, s') \<in> set (user_steps u s) \<Longrightarrow> no_write e"
  "(e, l', s') \<in> set (rl_steps l s) \<Longrightarrow> no_write e"
proof -
  show "(e, us, s') \<in> set (api_steps a s) \<Longrightarrow> no_write e \<and> (\<forall>ch q. e \<noteq> Queued ch q)"
    by (cases a) (auto simp: no_write_def api_steps_def Dial_def tc_Write_def tc_Close_def Let_def conn_Read_def
        Accept_def listener_Close_def split: if_splits once_state.splits list.splits sum.splits)
  show "(e, us, s') \<in> set (user_steps u s) \<Longrightarrow> no_write e"
  proof (cases u)
    case (USend sn k)
    assume "(e, us, s') \<in> set (user_steps u s)"
    with USend obtain e' res t where t: "(e', res, t) \<in> set (send_steps sn s)"
      and res: "case res of Inl sn' \<Rightarrow> e = e' | Inr err \<Rightarrow> (e, us, s') = resume k err t"
      by (auto simp: user_steps_def split: sum.splits)
    show ?thesis using send_no_write[OF t] res
      by (cases res; cases k) (auto simp: resume_def no_write_def split: option.splits)
  qed (auto simp: user_steps_def Dial_next_def Dial_register_def Let_def no_write_def)
  show "(e, l', s') \<in> set (rl_steps l s) \<Longrightarrow> no_write e"
  proof (cases l)
    case (RLReject sn cid)
    assume "(e, l', s') \<in> set (rl_steps l s)"
    then show ?thesis using RLReject send_no_write by (fastforce simp: rl_steps_def split: sum.splits)
  qed (auto simp: rl_steps_def handleOpen_def handleData_def handleClose_def handleOpen_offer_def
      handleData_deliver_def Let_def no_write_def split: if_splits option.splits)
qed

lemma idle_moved:
  assumes "queue_step e (sess S) s'" "no_write e"
  shows "moved e (load S) (load (S\<lparr>sess := s', users := us, rl := l\<rparr>))"
  using queue_mset[OF assms(1)] assms(2)
  by (cases e) (simp_all add: moved_def load_def no_write_def add.assoc flip: add_mset_add_single)

lemma wl_moved:
  assumes "(e, w', s') \<in> set (wl_steps (wl S) (sess S))" "wl_ok (sess S) (wl S)"
  shows "moved e (load S) (load (S\<lparr>sess := s', wl := w'\<rparr>))"
proof -
  have t: "moved e (load S) (load (S\<lparr>sess := s', wl := w'\<rparr>))"
    if "(e, w', s') \<in> set (wl_take ch b (sess S))" "wl S = WLPoll \<or> wl S = WLSelect" for ch b
  proof -
    from that(1) obtain q qs where "chan ch (sess S) = q # qs" "e = Took ch q" "s' = set_chan ch qs (sess S)" "w' = WLWrite b q"
      by (cases "chan ch (sess S)") (auto simp: wl_take_def)
    then show ?thesis using that(2) by (cases ch) (auto simp: moved_def load_def)
  qed
  show ?thesis
  proof (cases "wl S")
    case (WLWrite b q)
    then show ?thesis using assms(1) by (auto simp: wl_steps_def wl_write_def Let_def moved_def load_def)
  qed (use assms(1) t in \<open>auto simp: wl_steps_def Let_def moved_def load_def split: if_splits\<close>)
qed

lemma step_moved:
  assumes "run (start n) tr S" "step S e S'"
  shows "moved e (load S) (load S')"
proof -
  have ok: "rl_ok (sess S) (rl S)" "wl_ok (sess S) (wl S)"
    using basic.reader[OF assms(1)] basic.writer[OF assms(1)] by simp_all
  have u: "user_ok (sess S) (users S ! u)" if "u < length (users S)" for u
    using basic.caller[OF assms(1)] that by simp
  from assms(2) show ?thesis
  proof cases
    case (step_api u us s' a)
    show ?thesis using idle_moved[OF still_queue[OF api_still[OF step_api(4)]], where us = "(users S)[u := us]" and l = "rl S"]
      no_writes(1)[OF step_api(4)] step_api(1) by simp
  next
    case (step_user u us s')
    show ?thesis using idle_moved[OF user_queue[OF u[OF step_user(2)] step_user(3)], where us = "(users S)[u := us]" and l = "rl S"]
      no_writes(2)[OF step_user(3)] step_user(1) by simp
  next
    case (step_rl l s')
    show ?thesis using idle_moved[OF rl_queue[OF ok(1) step_rl(2)], where us = "users S" and l = l]
      no_writes(3)[OF step_rl(2)] step_rl(1) by simp
  next
    case (step_wl w s')
    then show ?thesis using wl_moved[OF step_wl(2) ok(2)] by simp
  qed (simp_all add: moved_def load_def)
qed


section \<open>Who writes to a connection\<close>

lemma writing_iff: "writing r us \<longleftrightarrow> (\<exists>sn p. us = USend sn (KWrite r p))"
  by (auto simp: writing_def split: user.splits cont.splits)

text \<open>A call in progress is queued, or returns.\<close>
lemma sender_moves:
  assumes "(e, us, s') \<in> set (user_steps (USend sn k) s)"
  obtains (queued) ch m where "sn = Sending ch m" "e = Queued ch (length (reqs s))" "us = USend (Waiting (length (reqs s))) k"
      "s' = enqueue ch m s"
    | (returns) err t where "resume k err t = (e, us, s')" "us = UIdle" "t = s \<or> (\<exists>q. sn = Waiting q \<and> t = set_reply q None s)"
      "err = None \<longrightarrow> (\<exists>q. sn = Waiting q \<and> wr_err (reqs s ! q) = Some None)"
proof -
  from assms obtain e' res t where t: "(e', res, t) \<in> set (send_steps sn s)"
    and res: "case res of Inl sn' \<Rightarrow> e = e' \<and> us = USend sn' k \<and> s' = t | Inr err \<Rightarrow> (e, us, s') = resume k err t"
    by (auto simp: user_steps_def split: sum.splits)
  show ?thesis
  proof (cases res)
    case (Inl sn')
    then show ?thesis using t res queued by (auto simp: send_steps_def split: sender.splits if_splits option.splits)
  next
    case (Inr err)
    then have r: "resume k err t = (e, us, s')" using res by simp
    show ?thesis
      by (rule returns[OF r resume_answer(1)[OF r]])
        (use t Inr in \<open>auto simp: send_steps_def split: sender.splits if_splits option.splits\<close>)
  qed
qed

lemma step_users_len: "step S e S' \<Longrightarrow> length (users S') = length (users S)"
  by (erule step_E) simp_all

text \<open>While no one starts to write, a caller that writes is where it was or has just been queued.\<close>
lemma writers_wait:
  assumes "step S e S'" "u < length (users S)" "writing r (users S' ! u)" "writing r (users S ! u)"
  shows "users S' ! u = users S ! u \<or> (\<exists>ch m p. users S ! u = USend (Sending ch m) (KWrite r p)
      \<and> e = Queued ch (length (reqs (sess S))) \<and> users S' ! u = USend (Waiting (length (reqs (sess S)))) (KWrite r p)
      \<and> sess S' = enqueue ch m (sess S))"
  using assms(1)
proof cases
  case (step_api v us s' a)
  then show ?thesis using assms(2-4) by (cases "u = v") (auto simp: writing_def)
next
  case (step_user v us s')
  show ?thesis
  proof (cases "u = v")
    case True
    obtain sn p where u: "users S ! u = USend sn (KWrite r p)" using assms(4) by (auto simp: writing_iff)
    have "us \<noteq> UIdle" using assms(2,3) step_user(1) True by (auto simp: writing_def)
    have "(e, us, s') \<in> set (user_steps (USend sn (KWrite r p)) (sess S))" using step_user(3) u True by simp
    then show ?thesis
      by (cases rule: sender_moves) (use step_user(1) assms(2) u True \<open>us \<noteq> UIdle\<close> in auto)
  qed (use step_user(1) in simp)
next
  case (step_wait v)
  then show ?thesis using assms(2-4) by (cases "u = v") (auto simp: writing_def)
qed simp_all

lemma writers_stay:
  assumes "step S e S'" "\<And>p. e \<noteq> WriteOk r p" "\<And>er. e \<noteq> WriteErr r er" "u < length (users S)" "writing r (users S ! u)"
  shows "writing r (users S' ! u)"
  using assms(1)
proof cases
  case (step_api v us s' a)
  then show ?thesis using assms(4,5) by (cases "u = v") (auto simp: writing_def)
next
  case (step_user v us s')
  show ?thesis
  proof (cases "u = v")
    case True
    obtain sn p where u: "users S ! u = USend sn (KWrite r p)" using assms(5) by (auto simp: writing_iff)
    have "(e, us, s') \<in> set (user_steps (USend sn (KWrite r p)) (sess S))" using step_user(3) u True by simp
    then have "writing r us"
      by (cases rule: sender_moves) (use assms(2,3) in \<open>auto simp: resume_def writing_def split: option.splits\<close>)
    then show ?thesis using step_user(1) assms(4) True by simp
  qed (use step_user(1) assms(5) in simp)
next
  case (step_wait v)
  then show ?thesis using assms(4,5) by (cases "u = v") (auto simp: writing_def)
qed (use assms(5) in simp_all)

lemma enqueue_reqs: "reqs (enqueue ch m s) = reqs s @ [\<lparr>wr_data = m, wr_err = None\<rparr>]"
  by (simp add: enqueue_def)

text \<open>A call in progress sends the record of its data, and a connection has its id.\<close>
lemma writer_record:
  assumes "run (start n) tr S" "u < length (users S)" "users S ! u = USend sn (KWrite r p)" "only k r S"
  shows "r < length (heap (sess S))" "tc_id (heap (sess S) ! r) = k"
    "case sn of Sending ch m \<Rightarrow> m = EncodeData k p
     | Waiting q \<Rightarrow> q < length (reqs (sess S)) \<and> wr_data (reqs (sess S) ! q) = EncodeData k p"
proof -
  have u: "users S ! u \<in> set (users S)" using assms(2) by simp
  have ok: "user_ok (sess S) (users S ! u)" by (rule basic.caller[OF assms(1) u])
  have s: "sends (sess S) (users S ! u)" using service.both.caller[OF assms(1) u] by simp
  show r: "r < length (heap (sess S))" using ok assms(3) by (simp add: user_ok_def)
  then show k: "tc_id (heap (sess S) ! r) = k" using assms(4) by (simp add: only_def)
  show "case sn of Sending ch m \<Rightarrow> m = EncodeData k p
     | Waiting q \<Rightarrow> q < length (reqs (sess S)) \<and> wr_data (reqs (sess S) ! q) = EncodeData k p"
    using s ok assms(3) k by (simp add: sends_def msg_for_def user_ok_def sender_ok_def split: sender.splits)
qed

text \<open>What is queued has data for the id only if the writer to the connection queues it.\<close>
lemma queued_by:
  assumes "run (start n) tr S" "step S (Queued ch q) S'" "only k r S"
  obtains m where "q = length (reqs (sess S))" "sess S' = enqueue ch m (sess S)"
    "data_of k m = [] \<or> (\<exists>u < length (users S). \<exists>p. users S ! u = USend (Sending ch m) (KWrite r p)
       \<and> users S' = (users S)[u := USend (Waiting q) (KWrite r p)])"
  using assms(2)
proof cases
  case (step_api u us s' a)
  then show ?thesis using no_writes(1) by blast
next
  case (step_user u us s')
  then obtain sn kk where u: "users S ! u = USend sn kk"
    by (cases "users S ! u") (auto simp: user_steps_def Dial_next_def Dial_register_def Let_def)
  then have "(Queued ch q, us, s') \<in> set (user_steps (USend sn kk) (sess S))" using step_user(3) by simp
  then show ?thesis
  proof (cases rule: sender_moves)
    case (queued ch' m)
    have mem: "users S ! u \<in> set (users S)" using step_user(2) by simp
    have ok: "user_ok (sess S) (users S ! u)" by (rule basic.caller[OF assms(1) mem])
    have s: "sends (sess S) (users S ! u)" using service.both.caller[OF assms(1) mem] by simp
    have "data_of k m = [] \<or> (\<exists>p. kk = KWrite r p)"
    proof (cases kk)
      case (KWrite r' p)
      have "tc_id (heap (sess S) ! r') \<noteq> k" if "r' \<noteq> r"
        using assms(3) ok u KWrite that by (simp add: only_def user_ok_def)
      then show ?thesis using s u queued KWrite data_of_made(3) by (auto simp: sends_def msg_for_def)
    qed (use s u queued data_of_made(1,2) in \<open>auto simp: sends_def msg_for_def\<close>)
    then show ?thesis using that[of m] queued u step_user(1,2) by auto
  next
    case (returns err t)
    then show ?thesis by (cases kk; cases err) (auto simp: resume_def)
  qed
next
  case (step_rl l s')
  then obtain sn cid where l: "rl S = RLReject sn cid"
    by (cases "rl S") (auto simp: rl_steps_def handleOpen_def handleData_def handleClose_def handleOpen_offer_def
      handleData_deliver_def Let_def split: if_splits option.splits)
  have "reject_made (rl S)" using origin.both.reader[OF assms(1)] by blast
  then have m: "m = EncodeClose cid" if "sn = Sending ch' m" for ch' m using that l by (simp add: reject_made_def)
  obtain m where "sn = Sending ch m" "q = length (reqs (sess S))" "s' = enqueue ch m (sess S)"
    using step_rl(2) l by (auto simp: rl_steps_def send_steps_def split: sender.splits if_splits option.splits sum.splits)
  then show ?thesis using that[of m] m step_rl(1) data_of_made(2) by simp
next
  case (step_wl w s')
  then show ?thesis by (auto simp: wl_steps_def wl_take_def wl_write_def Let_def split: wloop.splits list.splits if_splits)
qed

lemma done_by:
  assumes "step S (WriteOk r p) S'"
  obtains u q where "u < length (users S)" "users S ! u = USend (Waiting q) (KWrite r p)"
    "wr_err (reqs (sess S) ! q) = Some None" "users S' = (users S)[u := UIdle]"
  using assms
proof cases
  case (step_api u us s' a)
  then show ?thesis
    by (cases a) (auto simp: api_steps_def Dial_def tc_Write_def tc_Close_def Let_def conn_Read_def
        Accept_def listener_Close_def split: if_splits once_state.splits list.splits sum.splits)
next
  case (step_user u us s')
  then obtain sn kk where u: "users S ! u = USend sn kk"
    by (cases "users S ! u") (auto simp: user_steps_def Dial_next_def Dial_register_def Let_def)
  then have "(WriteOk r p, us, s') \<in> set (user_steps (USend sn kk) (sess S))" using step_user(3) by simp
  then show ?thesis
  proof (cases rule: sender_moves)
    case (returns err t)
    then have "kk = KWrite r p" "err = None" using resume_answer(3)[OF returns(1)] by simp_all
    then show ?thesis using that[of u] returns step_user(1,2) u by auto
  qed simp
next
  case (step_rl l s')
  then show ?thesis using rl_no_answer by blast
next
  case (step_wl w s')
  then show ?thesis using wl_no_answer by blast
qed

section \<open>Every chunk is written once\<close>

definition written :: "u64 \<Rightarrow> event list \<Rightarrow> byte list" where
  "written k tr = payloads k (Link.sent tr)"

lemma written_simps [simp]:
  "written k [] = []"
  "written k (tr @ [e]) = written k tr @ (case e of Wrote q d \<Rightarrow> concat (map snd (data_of k d)) | _ \<Rightarrow> [])"
proof -
  show "written k [] = []" by (simp add: written_def Link.sent_def)
  have "received (map Recv (put e)) = (case e of Wrote q d \<Rightarrow> received [Recv d] | _ \<Rightarrow> [])"
    by (cases e) (simp_all add: put_def)
  then show "written k (tr @ [e]) = written k tr @ (case e of Wrote q d \<Rightarrow> concat (map snd (data_of k d)) | _ \<Rightarrow> [])"
    by (cases e) (simp_all add: written_def Link.sent_def received_append payloads_def data_of_def)
qed

lemma load_allocated:
  assumes "run (start n) tr S" "q \<in># load S"
  shows "q < length (reqs (sess S))"
  using assms(2) basic.global[OF assms(1)] basic.writer[OF assms(1)]
  by (auto simp: load_def session_ok_def wl_ok_def chan_def split: wloop.splits)

lemma same_bearing:
  assumes "run (start n) tr S" "step S e S'"
  shows "filter_mset (\<lambda>q. data_of k (wr_data (reqs (sess S') ! q)) \<noteq> []) (load S) = bearing k S"
proof -
  have "wr_data (reqs (sess S') ! q) = wr_data (reqs (sess S) ! q)" if "q \<in># load S" for q
    using step_grows[OF assms] load_allocated[OF assms(1) that] by (simp add: grows_def)
  then show ?thesis by (simp add: bearing_def cong: filter_mset_cong)
qed

text \<open>Events that are not about the records of requests.\<close>
definition aside :: "event \<Rightarrow> bool" where
  "aside e \<longleftrightarrow> (case e of Queued ch q \<Rightarrow> False | Wrote q d \<Rightarrow> False | WriteFailed q \<Rightarrow> False | _ \<Rightarrow> True)"

lemma bearing_step:
  assumes "run (start n) tr S" "step S e S'"
  shows "aside e \<Longrightarrow> bearing k S' = bearing k S"
    "e = Queued ch q \<Longrightarrow> bearing k S' = (if data_of k (wr_data (reqs (sess S') ! q)) = [] then bearing k S else add_mset q (bearing k S))"
    "e = Wrote q d \<or> e = WriteFailed q \<Longrightarrow> q < length (reqs (sess S))
       \<and> bearing k S = (if data_of k (wr_data (reqs (sess S) ! q)) = [] then bearing k S' else add_mset q (bearing k S'))"
proof -
  note m = step_moved[OF assms] and b = same_bearing[OF assms, of k]
  show "aside e \<Longrightarrow> bearing k S' = bearing k S"
    using m b by (cases e) (simp_all add: moved_def bearing_def aside_def)
  show "e = Queued ch q \<Longrightarrow> bearing k S' = (if data_of k (wr_data (reqs (sess S') ! q)) = [] then bearing k S else add_mset q (bearing k S))"
    using m b by (simp add: moved_def bearing_def)
  assume e: "e = Wrote q d \<or> e = WriteFailed q"
  then have l: "load S = add_mset q (load S')" using m by (auto simp: moved_def)
  then have q: "q < length (reqs (sess S))" using load_allocated[OF assms(1), of q] by simp
  then have "wr_data (reqs (sess S') ! q) = wr_data (reqs (sess S) ! q)" using step_grows[OF assms] by (simp add: grows_def)
  then show "q < length (reqs (sess S))
       \<and> bearing k S = (if data_of k (wr_data (reqs (sess S) ! q)) = [] then bearing k S' else add_mset q (bearing k S'))"
    using b q by (simp add: l bearing_def split: if_splits)
qed

text \<open>Where the chunk the copy holds is: with the copy, queued, or written.\<close>
definition clean :: "u64 \<Rightarrow> event list \<Rightarrow> sys \<Rightarrow> copy_flow \<Rightarrow> bool" where
  "clean k tr S f \<longleftrightarrow> written k tr = copied f \<and> bearing k S = {#}"

definition on_way :: "u64 \<Rightarrow> event list \<Rightarrow> sys \<Rightarrow> copy_flow \<Rightarrow> bool" where
  "on_way k tr S f \<longleftrightarrow> written k tr = copied f
     \<and> (\<exists>q. bearing k S = {#q#} \<and> wr_data (reqs (sess S) ! q) = EncodeData k (held f))"

definition arrived :: "u64 \<Rightarrow> event list \<Rightarrow> sys \<Rightarrow> copy_flow \<Rightarrow> bool" where
  "arrived k tr S f \<longleftrightarrow> written k tr = copied f @ held f \<and> bearing k S = {#}"

definition writer_ok :: "u64 \<Rightarrow> nat \<Rightarrow> event list \<Rightarrow> sys \<Rightarrow> copy_flow \<Rightarrow> user \<Rightarrow> bool" where
  "writer_ok k r tr S f us \<longleftrightarrow> (\<forall>sn p. us = USend sn (KWrite r p) \<longrightarrow> running f \<and> p = held f \<and> p \<noteq> []
     \<and> (case sn of Sending ch m \<Rightarrow> clean k tr S f
        | Waiting q \<Rightarrow> wr_err (reqs (sess S) ! q) = Some None \<longrightarrow> arrived k tr S f))"

definition out_ok :: "u64 \<Rightarrow> nat \<Rightarrow> event list \<Rightarrow> sys \<Rightarrow> copy_flow \<Rightarrow> bool" where
  "out_ok k r tr S f \<longleftrightarrow> (clean k tr S f \<or> on_way k tr S f \<or> arrived k tr S f) \<and> length (held f) \<le> 32 * 1024
     \<and> (running f \<longrightarrow> \<not> busy r S \<longrightarrow> clean k tr S f) \<and> (\<forall>us \<in> set (users S). writer_ok k r tr S f us)
     \<and> (\<forall>u < length (users S). \<forall>v < length (users S). writing r (users S ! u) \<longrightarrow> writing r (users S ! v) \<longrightarrow> u = v)"

lemma places_same:
  assumes "run (start n) tr S" "step S e S'" "written k (tr @ [e]) = written k tr" "bearing k S' = bearing k S"
  shows "clean k (tr @ [e]) S' f = clean k tr S f" "arrived k (tr @ [e]) S' f = arrived k tr S f"
    "on_way k tr S f \<Longrightarrow> on_way k (tr @ [e]) S' f"
proof -
  have "wr_data (reqs (sess S') ! q) = wr_data (reqs (sess S) ! q)" if "q \<in># bearing k S" for q
  proof -
    have "q < length (reqs (sess S))" using load_allocated[OF assms(1), of q] that by (simp add: bearing_def)
    then show ?thesis using step_grows[OF assms(1,2)] by (simp add: grows_def)
  qed
  then show "clean k (tr @ [e]) S' f = clean k tr S f" "arrived k (tr @ [e]) S' f = arrived k tr S f"
    "on_way k tr S f \<Longrightarrow> on_way k (tr @ [e]) S' f"
    using assms(3,4) by (auto simp: clean_def arrived_def on_way_def)
qed

lemma out_okI:
  assumes "clean k tr S f \<or> on_way k tr S f \<or> arrived k tr S f" "length (held f) \<le> 32 * 1024"
    "running f \<Longrightarrow> \<not> busy r S \<Longrightarrow> clean k tr S f" "\<And>us. us \<in> set (users S) \<Longrightarrow> writing r us \<Longrightarrow> writer_ok k r tr S f us"
    "\<And>u v. u < length (users S) \<Longrightarrow> v < length (users S) \<Longrightarrow> writing r (users S ! u) \<Longrightarrow> writing r (users S ! v) \<Longrightarrow> u = v"
  shows "out_ok k r tr S f"
  using assms by (auto simp: out_ok_def writer_ok_def writing_iff)

lemma held_data:
  assumes "out_ok k r tr S f"
  shows "data_of k (EncodeData k (held f)) = [(k, held f)]"
  using assms by (intro data_of_made(4)) (simp add: out_ok_def)

text \<open>A step in which no one starts to write or returns from it: who writes afterwards wrote before.\<close>
lemma out_callers:
  assumes "step S e S'" "\<And>p. e \<noteq> WriteOk r p" "\<And>er. e \<noteq> WriteErr r er"
    "\<And>u. u < length (users S') \<Longrightarrow> writing r (users S' ! u) \<Longrightarrow> writing r (users S ! u)"
    and o: "out_ok k r tr S f"
  shows "busy r S' = busy r S"
    "u < length (users S') \<Longrightarrow> v < length (users S') \<Longrightarrow> writing r (users S' ! u) \<Longrightarrow> writing r (users S' ! v) \<Longrightarrow> u = v"
    "u < length (users S') \<Longrightarrow> writing r (users S' ! u) \<Longrightarrow> (\<And>ch q. e \<noteq> Queued ch q) \<Longrightarrow> users S' ! u = users S ! u"
proof -
  have len: "length (users S') = length (users S)" by (rule step_users_len[OF assms(1)])
  show "busy r S' = busy r S"
    using assms(4) writers_stay[OF assms(1-3)] len by (metis in_set_conv_nth)
  show "u < length (users S') \<Longrightarrow> v < length (users S') \<Longrightarrow> writing r (users S' ! u) \<Longrightarrow> writing r (users S' ! v) \<Longrightarrow> u = v"
    using assms(4) o len unfolding out_ok_def by metis
  show "u < length (users S') \<Longrightarrow> writing r (users S' ! u) \<Longrightarrow> (\<And>ch q. e \<noteq> Queued ch q) \<Longrightarrow> users S' ! u = users S ! u"
    using writers_wait[OF assms(1), of u r] assms(4) len by metis
qed

lemma answers_kept:
  assumes "run (start n) tr S" "step S e S'" "q < length (reqs (sess S))" "wr_err (reqs (sess S') ! q) = Some None"
  shows "wr_err (reqs (sess S) ! q) = Some None \<or> e = Wrote q (wr_data (reqs (sess S) ! q))"
proof -
  have g: "q < length (reqs (sess S'))" "wr_data (reqs (sess S') ! q) = wr_data (reqs (sess S) ! q)"
    using step_grows[OF assms(1,2)] assms(3) by (auto simp: grows_def)
  show ?thesis using step_queue[OF assms(1,2)] g assms(4) unfolding queue_step_def by metis
qed

text \<open>A step that moves no data of the connection.\<close>
lemma out_still:
  assumes r: "run (start n) tr S" "step S e S'" and o: "out_ok k r tr S f" "only k r S"
    and same: "written k (tr @ [e]) = written k tr" "bearing k S' = bearing k S"
    and users: "busy r S' = busy r S" "length (users S') = length (users S)"
      "\<And>u v. u < length (users S') \<Longrightarrow> v < length (users S') \<Longrightarrow> writing r (users S' ! u) \<Longrightarrow> writing r (users S' ! v) \<Longrightarrow> u = v"
      "\<And>u. u < length (users S') \<Longrightarrow> writing r (users S' ! u) \<Longrightarrow> users S' ! u = users S ! u"
  shows "out_ok k r (tr @ [e]) S' f"
proof -
  note places = places_same[OF r same]
  show ?thesis
  proof (rule out_okI)
    show "clean k (tr @ [e]) S' f \<or> on_way k (tr @ [e]) S' f \<or> arrived k (tr @ [e]) S' f"
      using o(1) places by (auto simp: out_ok_def)
    show "length (held f) \<le> 32 * 1024" using o(1) by (simp add: out_ok_def)
    show "running f \<Longrightarrow> \<not> busy r S' \<Longrightarrow> clean k (tr @ [e]) S' f"
      using o(1) places(1) users(1) by (simp add: out_ok_def)
    show "u < length (users S') \<Longrightarrow> v < length (users S') \<Longrightarrow> writing r (users S' ! u) \<Longrightarrow> writing r (users S' ! v) \<Longrightarrow> u = v" for u v
      by (rule users(3))
    fix us assume us: "us \<in> set (users S')" "writing r us"
    then obtain u where u: "u < length (users S)" "us = users S ! u"
      using users(2,4) by (metis in_set_conv_nth)
    then have w: "writer_ok k r tr S f us" using o(1) by (simp add: out_ok_def)
    obtain sn p where us': "us = USend sn (KWrite r p)" using us(2) by (auto simp: writing_iff)
    then have h: "held f = p" "p \<noteq> []" "running f" using w by (auto simp: writer_ok_def)
    show "writer_ok k r (tr @ [e]) S' f us"
    proof (cases sn)
      case (Waiting q)
      have q: "q < length (reqs (sess S))" "wr_data (reqs (sess S) ! q) = EncodeData k p"
        using writer_record(3)[OF r(1) u(1) _ o(2), of sn p] u(2) us' Waiting by simp_all
      have "e \<noteq> Wrote q (EncodeData k p)" using same(1) held_data[OF o(1)] h by auto
      then show ?thesis
        using w us' Waiting answers_kept[OF r q(1)] q(2) places(2) by (auto simp: writer_ok_def)
    qed (use w us' places(1) in \<open>auto simp: writer_ok_def\<close>)
  qed
qed

lemma written_case:
  assumes o: "out_ok k r tr S f" and b: "bearing k S = add_mset q M"
  shows "M = {#}" "wr_data (reqs (sess S) ! q) = EncodeData k (held f)" "written k tr = copied f" "\<not> clean k tr S f"
    "\<not> arrived k tr S f" "busy r S \<or> \<not> running f"
  using assms by (auto simp: out_ok_def clean_def arrived_def on_way_def)

text \<open>The write loop handles the record of the chunk.\<close>
lemma out_write:
  assumes r: "run (start n) tr S" "step S e S'" and o: "out_ok k r tr S f" "only k r S"
    and e: "e = Wrote q d \<or> e = WriteFailed q" and data: "data_of k (wr_data (reqs (sess S) ! q)) \<noteq> []"
    and users: "busy r S' = busy r S" "length (users S') = length (users S)"
      "\<And>u v. u < length (users S') \<Longrightarrow> v < length (users S') \<Longrightarrow> writing r (users S' ! u) \<Longrightarrow> writing r (users S' ! v) \<Longrightarrow> u = v"
      "\<And>u. u < length (users S') \<Longrightarrow> writing r (users S' ! u) \<Longrightarrow> users S' ! u = users S ! u"
  shows "out_ok k r (tr @ [e]) S' f"
proof -
  have q: "q < length (reqs (sess S))" and b: "bearing k S = add_mset q (bearing k S')"
    using bearing_step(3)[OF r e, of k] data by simp_all
  note w = written_case[OF o(1) b]
  have d: "d = EncodeData k (held f)" if "e = Wrote q d"
    using step_queue[OF r] that w(2) by (auto simp: queue_step_def)
  have res: "if e = Wrote q d then arrived k (tr @ [e]) S' f else clean k (tr @ [e]) S' f"
    using w e d held_data[OF o(1)] by (auto simp: arrived_def clean_def)
  show ?thesis
  proof (rule out_okI)
    show "clean k (tr @ [e]) S' f \<or> on_way k (tr @ [e]) S' f \<or> arrived k (tr @ [e]) S' f"
      using res by (auto split: if_splits)
    show "length (held f) \<le> 32 * 1024" using o(1) by (simp add: out_ok_def)
    show "running f \<Longrightarrow> \<not> busy r S' \<Longrightarrow> clean k (tr @ [e]) S' f" using w(6) users(1) by blast
    show "u < length (users S') \<Longrightarrow> v < length (users S') \<Longrightarrow> writing r (users S' ! u) \<Longrightarrow> writing r (users S' ! v) \<Longrightarrow> u = v" for u v
      by (rule users(3))
    fix us assume us: "us \<in> set (users S')" "writing r us"
    then obtain u where u: "u < length (users S)" "us = users S ! u"
      using users(2,4) by (metis in_set_conv_nth)
    then have wr: "writer_ok k r tr S f us" using o(1) by (simp add: out_ok_def)
    obtain sn p where us': "us = USend sn (KWrite r p)" using us(2) by (auto simp: writing_iff)
    show "writer_ok k r (tr @ [e]) S' f us"
    proof (cases sn)
      case (Sending ch m)
      then show ?thesis using wr us' w(4) by (simp add: writer_ok_def)
    next
      case (Waiting x)
      then have x: "x < length (reqs (sess S))"
        using writer_record(3)[OF r(1) u(1) _ o(2), of sn p] u(2) us' by simp
      have "\<not> wr_err (reqs (sess S) ! x) = Some None" using wr us' w(5) Waiting by (auto simp: writer_ok_def)
      then have "wr_err (reqs (sess S') ! x) = Some None \<Longrightarrow> e = Wrote q d"
        using answers_kept[OF r x] e by auto
      then show ?thesis using wr us' res Waiting by (auto simp: writer_ok_def)
    qed
  qed
qed

text \<open>The copy's call queues its record.\<close>
lemma out_queue:
  assumes r: "run (start n) tr S" "step S (Queued ch q) S'" and o: "out_ok k r tr S f" "only k r S"
    and q: "q = length (reqs (sess S))" "sess S' = enqueue ch m (sess S)"
    and u: "u < length (users S)" "users S ! u = USend (Sending ch m) (KWrite r p)"
      "users S' = (users S)[u := USend (Waiting q) (KWrite r p)]"
  shows "out_ok k r (tr @ [Queued ch q]) S' f"
proof -
  have "users S ! u \<in> set (users S)" using u(1) by simp
  then have c: "clean k tr S f" "p = held f" "p \<noteq> []" "running f"
    using o(1) u(2) by (auto simp: out_ok_def writer_ok_def)
  have m: "m = EncodeData k p" using writer_record(3)[OF r(1) u(1,2) o(2)] by simp
  have wr: "wr_data (reqs (sess S') ! q) = m" "wr_err (reqs (sess S') ! q) = None"
    using q by (simp_all add: enqueue_reqs)
  have "data_of k m \<noteq> []" using held_data[OF o(1)] c m by auto
  then have "bearing k S' = {#q#}" using bearing_step(2)[OF r refl, of k] c(1) wr by (simp add: clean_def)
  then have w: "on_way k (tr @ [Queued ch q]) S' f" using c m wr by (simp add: on_way_def clean_def)
  have busy: "users S' ! u \<in> set (users S')" "writing r (users S' ! u)" using u by (simp_all add: writing_def set_update_memI)
  have one: "v = u" if "v < length (users S)" "writing r (users S' ! v)" for v
  proof (rule ccontr)
    assume "v \<noteq> u"
    then have "writing r (users S ! v)" "writing r (users S ! u)" using that u by (simp_all add: writing_def)
    then show False using o(1) that(1) u(1) \<open>v \<noteq> u\<close> unfolding out_ok_def by blast
  qed
  show ?thesis
  proof (rule out_okI)
    show "length (held f) \<le> 32 * 1024" using o(1) by (simp add: out_ok_def)
    show "running f \<Longrightarrow> \<not> busy r S' \<Longrightarrow> clean k (tr @ [Queued ch q]) S' f" using busy by blast
    show "v < length (users S') \<Longrightarrow> v' < length (users S') \<Longrightarrow> writing r (users S' ! v) \<Longrightarrow> writing r (users S' ! v') \<Longrightarrow> v = v'" for v v'
      using one u(3) by (metis length_list_update)
    fix us assume "us \<in> set (users S')" "writing r us"
    then have "us = USend (Waiting q) (KWrite r p)" using one u by (metis in_set_conv_nth length_list_update nth_list_update_eq)
    then show "writer_ok k r (tr @ [Queued ch q]) S' f us" using c wr(2) by (simp add: writer_ok_def)
  qed (use w in simp)
qed

lemma out_other:
  assumes r: "run (start n) tr S" "step S e S'" and o: "out_ok k r tr S f" "only k r S'"
    and e: "\<And>p. e \<noteq> WriteOk r p" "\<And>er. e \<noteq> WriteErr r er"
    and g: "\<And>u. u < length (users S') \<Longrightarrow> writing r (users S' ! u) \<Longrightarrow> writing r (users S ! u)"
  shows "out_ok k r (tr @ [e]) S' f"
proof -
  have only: "only k r S" by (rule only_before[OF o(2) r])
  have len: "length (users S') = length (users S)" by (rule step_users_len[OF r(2)])
  have c1: "busy r S' = busy r S" by (rule out_callers(1)[OF r(2) _ _ _ o(1)]) (use e g in blast)+
  have c2: "u = v" if "u < length (users S')" "v < length (users S')" "writing r (users S' ! u)" "writing r (users S' ! v)" for u v
    by (rule out_callers(2)[OF r(2) _ _ _ o(1) that]) (use e g in blast)+
  have c3: "users S' ! u = users S ! u" if "u < length (users S')" "writing r (users S' ! u)" "\<And>ch q. e \<noteq> Queued ch q" for u
    by (rule out_callers(3)[OF r(2) _ _ _ o(1) that]) (use e g in blast)+
  have still: "out_ok k r (tr @ [e]) S' f"
    if "written k (tr @ [e]) = written k tr" "bearing k S' = bearing k S"
      "\<And>u. u < length (users S') \<Longrightarrow> writing r (users S' ! u) \<Longrightarrow> users S' ! u = users S ! u"
    by (rule out_still[OF r o(1) only that(1,2) c1 len]) (use c2 that(3) in blast)+
  have wrote: "out_ok k r (tr @ [e]) S' f"
    if "e = Wrote q d \<or> e = WriteFailed q" "data_of k (wr_data (reqs (sess S) ! q)) \<noteq> []" for q d
    by (rule out_write[OF r o(1) only that c1 len]) (use c2 c3 that(1) in blast)+
  show ?thesis
  proof (cases e)
    case (Queued ch q)
    obtain m where m: "q = length (reqs (sess S))" "sess S' = enqueue ch m (sess S)"
      "data_of k m = [] \<or> (\<exists>u < length (users S). \<exists>p. users S ! u = USend (Sending ch m) (KWrite r p)
         \<and> users S' = (users S)[u := USend (Waiting q) (KWrite r p)])"
      using queued_by[OF r(1) r(2)[unfolded Queued] only] .
    show ?thesis
    proof (cases "data_of k m = []")
      case True
      have "users S' ! u = users S ! u" if u: "u < length (users S')" "writing r (users S' ! u)" for u
      proof (rule ccontr)
        assume "users S' ! u \<noteq> users S ! u"
        then obtain ch' m' p where w: "users S ! u = USend (Sending ch' m') (KWrite r p)" "sess S' = enqueue ch' m' (sess S)"
          using writers_wait[OF r(2) _ u(2) g[OF u]] u(1) len by auto
        then have "m' = m" using m(2) by (auto dest!: arg_cong[of _ _ reqs] simp: enqueue_reqs)
        moreover have "m' = EncodeData k p" using writer_record(3)[OF r(1) _ w(1) only] u(1) len by simp
        moreover have "users S ! u \<in> set (users S)" using u(1) len by simp
        then have "p = held f" using o(1) w(1) by (auto simp: out_ok_def writer_ok_def)
        ultimately show False using True held_data[OF o(1)] by simp
      qed
      moreover have "bearing k S' = bearing k S" using bearing_step(2)[OF r Queued, of k] True m by (simp add: enqueue_reqs)
      ultimately show ?thesis using still Queued by simp
    next
      case False
      with m(3) obtain u p where "u < length (users S)" "users S ! u = USend (Sending ch m) (KWrite r p)"
        "users S' = (users S)[u := USend (Waiting q) (KWrite r p)]" by blast
      from out_queue[OF r(1) r(2)[unfolded Queued] o(1) only m(1,2) this] show ?thesis using Queued by simp
    qed
  next
    case (Wrote q d)
    have d: "d = wr_data (reqs (sess S) ! q)" using step_queue[OF r] Wrote by (auto simp: queue_step_def)
    show ?thesis
    proof (cases "data_of k d = []")
      case True
      then have "bearing k S' = bearing k S" using bearing_step(3)[OF r, of q d k] Wrote d by simp
      then show ?thesis using still True Wrote c3 by simp
    next
      case False
      then show ?thesis using wrote[of q d] Wrote d by simp
    qed
  next
    case (WriteFailed q)
    show ?thesis
    proof (cases "data_of k (wr_data (reqs (sess S) ! q)) = []")
      case True
      then have "bearing k S' = bearing k S" using bearing_step(3)[OF r, of q _ k] WriteFailed by simp
      then show ?thesis using still WriteFailed c3 by simp
    next
      case False
      then show ?thesis using wrote[of q] WriteFailed by simp
    qed
  qed (use still bearing_step(1)[OF r, of k] c3 in \<open>simp_all add: aside_def\<close>)
qed

lemma out_source:
  assumes "flow_step True f f'" "busy r S \<Longrightarrow> running f' = running f" "length (held f') \<le> 32 * 1024" "out_ok k r tr S f"
  shows "out_ok k r tr S f'"
proof -
  have o: "clean k tr S f \<or> on_way k tr S f \<or> arrived k tr S f" "running f \<Longrightarrow> \<not> busy r S \<Longrightarrow> clean k tr S f"
    "\<And>us. us \<in> set (users S) \<Longrightarrow> writer_ok k r tr S f us"
    using assms(4) by (simp_all add: out_ok_def)
  have same: "out_ok k r tr S f'" if "copied f' = copied f" "held f' = held f" "running f' \<longrightarrow> running f"
  proof -
    have places: "clean k tr S f' = clean k tr S f" "on_way k tr S f' = on_way k tr S f" "arrived k tr S f' = arrived k tr S f"
      using that by (simp_all add: clean_def on_way_def arrived_def)
    show ?thesis
    proof (rule out_okI)
      fix us assume us: "us \<in> set (users S)" "writing r us"
      then have "running f' = running f" using assms(2) by blast
      then show "writer_ok k r tr S f' us"
        using o(3)[OF us(1)] by (simp add: writer_ok_def places that(2) cong: sender.case_cong)
    next
      show "u < length (users S) \<Longrightarrow> v < length (users S) \<Longrightarrow> writing r (users S ! u) \<Longrightarrow> writing r (users S ! v) \<Longrightarrow> u = v" for u v
        using assms(4) unfolding out_ok_def by blast
    qed (use o places that assms(3) in auto)
  qed
  from assms(1) show ?thesis
  proof cases
    case (f_read p rest)
    have "held f \<noteq> []" if "us \<in> set (users S)" "writing r us" for us
      using o(3)[OF that(1)] that(2) by (auto simp: writer_ok_def writing_iff)
    then have free: "\<not> busy r S" using f_read(3) by blast
    then have "clean k tr S f'" using o(2) f_read by (simp add: clean_def)
    then show ?thesis using free assms(3) by (intro out_okI) (auto dest: nth_mem)
  qed (use same in simp_all)
qed

lemma call_outcome:
  assumes "(e, us, s') \<in> set (api_steps (AWrite r p) s)"
  shows "s' = s" "e = WriteErr r ErrClosed \<and> us = UIdle \<or> e = Tau \<and> us = USend (sendData (tc_id (heap s ! r)) p) (KWrite r p)"
  using assms by (auto simp: api_steps_def tc_Write_def split: if_splits)

lemma out_call:
  assumes r: "run (start n) tr S" "step S e S'" and o: "out_ok k r tr S f"
    and call: "\<not> busy r S" "running f" "held f \<noteq> []" "u < length (users S)"
      "(e, us, s') \<in> set (api_steps (AWrite r (held f)) (sess S))" "S' = S\<lparr>sess := s', users := (users S)[u := us]\<rparr>"
  shows "out_ok k r (tr @ [e]) S' (f\<lparr>running := (us \<noteq> UIdle)\<rparr>)"
proof -
  note c = call_outcome[OF call(5)]
  have "bearing k S' = bearing k S" by (rule bearing_step(1)[OF r]) (use c(2) in \<open>auto simp: aside_def\<close>)
  moreover have "written k (tr @ [e]) = written k tr" using c(2) by auto
  moreover have "clean k tr S f" using o call(1,2) by (simp add: out_ok_def)
  ultimately have w: "clean k (tr @ [e]) S' g" if "copied g = copied f" for g using that by (simp add: clean_def)
  have idle: "\<not> writing r (users S ! v)" if "v < length (users S)" for v using call(1) that by (meson nth_mem)
  have one: "v = u" if "v < length (users S)" "writing r (users S' ! v)" for v
    using idle that call(6) by (cases "v = u") auto
  have len: "\<And>v. v < length (users S') \<longleftrightarrow> v < length (users S)" using call(6) by simp
  show ?thesis
  proof (rule out_okI)
    show "clean k (tr @ [e]) S' (f\<lparr>running := (us \<noteq> UIdle)\<rparr>) \<or> on_way k (tr @ [e]) S' (f\<lparr>running := (us \<noteq> UIdle)\<rparr>)
        \<or> arrived k (tr @ [e]) S' (f\<lparr>running := (us \<noteq> UIdle)\<rparr>)"
      "clean k (tr @ [e]) S' (f\<lparr>running := (us \<noteq> UIdle)\<rparr>)" using w by simp_all
    show "length (held (f\<lparr>running := (us \<noteq> UIdle)\<rparr>)) \<le> 32 * 1024" using o by (simp add: out_ok_def)
    show "v < length (users S') \<Longrightarrow> v' < length (users S') \<Longrightarrow> writing r (users S' ! v) \<Longrightarrow> writing r (users S' ! v') \<Longrightarrow> v = v'" for v v'
      using one[of v] one[of v'] len by blast
    fix x assume "x \<in> set (users S')" "writing r x"
    then obtain v where v: "v < length (users S)" "x = users S' ! v" using call(6) by (auto simp: in_set_conv_nth)
    then have "v = u" using one \<open>writing r x\<close> by blast
    then have "x = us" using v call(6) by simp
    then show "writer_ok k r (tr @ [e]) S' (f\<lparr>running := (us \<noteq> UIdle)\<rparr>) x"
      using c(2) call(3) w by (auto simp: writer_ok_def sendData_def enqueueData_def)
  qed
qed

lemma out_done:
  assumes r: "run (start n) tr S" "step S (WriteOk r p) S'" and o: "out_ok k r tr S f"
  shows "out_ok k r (tr @ [WriteOk r p]) S' (f\<lparr>copied := copied f @ held f, held := []\<rparr>)"
proof -
  obtain u q where u: "u < length (users S)" "users S ! u = USend (Waiting q) (KWrite r p)"
    "wr_err (reqs (sess S) ! q) = Some None" "users S' = (users S)[u := UIdle]" by (rule done_by[OF r(2)])
  have "users S ! u \<in> set (users S)" using u(1) by simp
  then have "arrived k tr S f" using o u by (auto simp: out_ok_def writer_ok_def)
  moreover have "bearing k S' = bearing k S" by (rule bearing_step(1)[OF r]) (simp add: aside_def)
  ultimately have c: "clean k (tr @ [WriteOk r p]) S' (f\<lparr>copied := copied f @ held f, held := []\<rparr>)"
    by (simp add: clean_def arrived_def)
  have "\<not> writing r (users S' ! v)" if "v < length (users S)" for v
  proof (cases "v = u")
    case False
    have "writing r (users S ! u)" using u(2) by (simp add: writing_def)
    then show ?thesis using o u(1,4) that False unfolding out_ok_def by (metis nth_list_update_neq)
  qed (use u in \<open>simp add: writing_def\<close>)
  then have "\<not> writing r us" if "us \<in> set (users S')" for us
    using that u(4) by (metis in_set_conv_nth length_list_update)
  then show ?thesis using c by (intro out_okI) (auto dest: nth_mem)
qed

lemma out_step_ok:
  assumes "run (start n) tr S" "out_step r (S, f) es (S', f')" "only k r S'" "out_ok k r tr S f"
  shows "run (start n) (tr @ es) S' \<and> out_ok k r (tr @ es) S' f' \<and> (flow_ok f \<longrightarrow> flow_ok f')"
  using assms(2)
proof cases
  case o_source
  then show ?thesis using out_source[OF o_source(3)] assms(1,4) flow_step_ok by auto
next
  case (o_call u e us s')
  have "step S e S'" using step_api[OF o_call(7-9)] o_call(2) by simp
  then show ?thesis using out_call[OF assms(1) _ assms(4) o_call(4-7,9,2)] o_call(1,3) assms(1)
    by (auto simp: flow_ok_def intro: run_snoc)
next
  case (o_done p)
  then show ?thesis using out_done[OF assms(1) o_done(3) assms(4)] assms(1) by (auto simp: flow_ok_def intro: run_snoc)
next
  case (o_failed er)
  have b: "bearing k S' = bearing k S" by (rule bearing_step(1)[OF assms(1) o_failed(3)]) (simp add: aside_def)
  have "written k (tr @ [WriteErr r er]) = written k tr" by simp
  note places = places_same[OF assms(1) o_failed(3) this b]
  have "clean k (tr @ es) S' f' \<or> on_way k (tr @ es) S' f' \<or> arrived k (tr @ es) S' f'"
    using assms(4) places o_failed(1,2) by (auto simp: out_ok_def clean_def on_way_def arrived_def)
  then have "out_ok k r (tr @ es) S' f'"
    using assms(4) o_failed(1,2,5) by (intro out_okI) (auto simp: out_ok_def dest: nth_mem)
  then show ?thesis using o_failed assms(1) by (auto simp: flow_ok_def intro: run_snoc)
next
  case (o_other e)
  have "out_ok k r (tr @ [e]) S' f"
    by (rule out_other[OF assms(1) o_other(3) assms(4,3)]) (use o_other in blast)+
  then show ?thesis using o_other assms(1) by (auto intro: run_snoc)
qed

lemma out_start: "out_ok k r [] (start n) new_flow"
proof -
  have "load (start n) = {#}" by (simp add: load_def start_def NewSession_def chan_def)
  then show ?thesis
    by (intro out_okI) (auto simp: clean_def bearing_def new_flow_def start_def writing_def)
qed

lemma out_prefix: "out_ok k r tr S f \<Longrightarrow> flow_ok f \<Longrightarrow> prefix (written k tr) (copy_flow.sent f)"
  by (auto simp: out_ok_def flow_ok_def clean_def on_way_def arrived_def)

end
