(* ===== verification/Sockets.thy ===== *)
theory Sockets
  imports Feeding
begin

text \<open>
  A socket at one end of the tunnel and one at the other: the copy that \<open>Proxy\<close> runs from the first
  into a tunnel connection, the two sessions, and the copy from the tunnel connection with the same id
  into the second. Joins \<open>Link\<close> and \<open>Forwarding\<close>: what comes out of the second socket is what went
  into the first.
\<close>

section \<open>The copy out of the tunnel\<close>

text \<open>
  The copy from the tunnel connection \<open>r\<close> into a socket: its source is what \<open>Read\<close> returns, and no
  one else reads from the connection.
\<close>
inductive down_step :: "nat \<Rightarrow> sys \<times> copy_flow \<Rightarrow> event list \<Rightarrow> sys \<times> copy_flow \<Rightarrow> bool" where
  d_read: "step S (ReadOk r x) S' \<Longrightarrow> running f \<Longrightarrow> held f = []
    \<Longrightarrow> down_step r (S, f) [ReadOk r x] (S', f\<lparr>copy_flow.sent := copy_flow.sent f @ x, held := x\<rparr>)"
| d_end: "step S (ReadErr r er) S' \<Longrightarrow> running f \<Longrightarrow> held f = []
    \<Longrightarrow> down_step r (S, f) [ReadErr r er] (S', f\<lparr>ended := True, running := False\<rparr>)"
| d_sink: "flow_step False f f' \<Longrightarrow> copy_flow.sent f' = copy_flow.sent f \<Longrightarrow> down_step r (S, f) [] (S, f')"
| d_other: "step S e S' \<Longrightarrow> (\<And>x. e \<noteq> ReadOk r x) \<Longrightarrow> down_step r (S, f) [e] (S', f)"

definition down_ok :: "nat \<Rightarrow> event list \<Rightarrow> copy_flow \<Rightarrow> bool" where
  "down_ok r tr f \<longleftrightarrow> flow_ok f \<and> unread f = [] \<and> reads r tr = copy_flow.sent f"

lemma down_step_ok:
  assumes "down_step r (S, f) es (S', f')" "down_ok r tr f"
  shows "down_ok r (tr @ es) f'"
  using assms(1)
proof cases
  case d_read
  then show ?thesis using assms(2) by (auto simp: down_ok_def flow_ok_def)
next
  case d_end
  then show ?thesis using assms(2) by (auto simp: down_ok_def flow_ok_def)
next
  case d_sink
  from d_sink(3) have "unread f' = []"
    using assms(2) d_sink(4) by cases (auto simp: down_ok_def)
  then show ?thesis using assms(2) d_sink flow_step_ok[OF d_sink(3)] by (auto simp: down_ok_def)
next
  case (d_other e)
  then show ?thesis using assms(2) trace_other(1)[of e r tr] by (auto simp: down_ok_def)
qed

section \<open>From one socket to the other\<close>

definition site :: "bool \<Rightarrow> tunnel \<Rightarrow> sys" where
  "site b T = (if b then endA T else endB T)"

text \<open>A step of one end, whether of its session or only of its copy.\<close>
definition moves :: "bool \<Rightarrow> tunnel \<Rightarrow> event list \<Rightarrow> sys \<Rightarrow> tunnel \<Rightarrow> bool" where
  "moves b T es S T' \<longleftrightarrow> site b T' = S \<and> (case es of [] \<Rightarrow> T' = T | e # rest \<Rightarrow> rest = [] \<and> tunnel_step T (b, e) T')"

text \<open>The copy into connection \<open>r\<close> at end \<open>b\<close>, the two sessions, and the copy from connection \<open>r'\<close> at the other end.\<close>
inductive carry_step :: "bool \<Rightarrow> nat \<Rightarrow> nat \<Rightarrow> tunnel \<times> copy_flow \<times> copy_flow \<Rightarrow> (bool \<times> event) list
    \<Rightarrow> tunnel \<times> copy_flow \<times> copy_flow \<Rightarrow> bool" where
  c_out: "out_step r (site b T, up) es (S, up') \<Longrightarrow> moves b T es S T'
    \<Longrightarrow> carry_step b r r' (T, up, down) (map (Pair b) es) (T', up', down)"
| c_down: "down_step r' (site (\<not> b) T, down) es (S, down') \<Longrightarrow> moves (\<not> b) T es S T'
    \<Longrightarrow> carry_step b r r' (T, up, down) (map (Pair (\<not> b)) es) (T', up, down')"

inductive carry_run :: "bool \<Rightarrow> nat \<Rightarrow> nat \<Rightarrow> tunnel \<times> copy_flow \<times> copy_flow \<Rightarrow> (bool \<times> event) list
    \<Rightarrow> tunnel \<times> copy_flow \<times> copy_flow \<Rightarrow> bool" for b r r' x where
  carry_nil: "carry_run b r r' x [] x"
| carry_snoc: "carry_run b r r' x tr y \<Longrightarrow> carry_step b r r' y es z \<Longrightarrow> carry_run b r r' x (tr @ es) z"

lemma at_end_append: "at_end b (tr @ tr') = at_end b tr @ at_end b tr'"
  by (simp add: at_end_def)

lemma at_end_Pair: "at_end b (map (Pair c) es) = (if c = b then es else [])"
  by (cases "c = b") (simp_all add: at_end_def comp_def)

lemma site_run:
  assumes "tunnel_run (tunnel_start n m) tr T"
  shows "run (start (if b then n else m)) (at_end b tr) (site b T)"
    "prefix (concat (map got (at_end (\<not> b) tr))) (concat (map put (at_end b tr)))"
  using ends_run[OF assms refl] by (cases b; auto simp: site_def)+

lemma moves_run:
  assumes "tunnel_run (tunnel_start n m) tr T" "moves b T es S T'"
  shows "tunnel_run (tunnel_start n m) (tr @ map (Pair b) es) T'"
  using assms by (cases es) (auto simp: moves_def intro: tunnel_snoc)

lemma moves_other: "moves b T es S T' \<Longrightarrow> site (\<not> b) T' = site (\<not> b) T"
  by (cases es) (auto simp: moves_def site_def elim!: tunnel_step.cases)

lemma moves_step: "moves b T [e] S T' \<Longrightarrow> step (site b T) e S"
  by (auto simp: moves_def site_def elim!: tunnel_step.cases)

section \<open>The invariant of the whole\<close>

definition carry_ok :: "u64 \<Rightarrow> bool \<Rightarrow> nat \<Rightarrow> nat \<Rightarrow> (bool \<times> event) list \<Rightarrow> tunnel \<times> copy_flow \<times> copy_flow \<Rightarrow> bool" where
  "carry_ok k b r r' tr x = (case x of (T, up, down) \<Rightarrow>
     out_ok k r (at_end b tr) (site b T) up \<and> flow_ok up \<and> down_ok r' (at_end (\<not> b) tr) down
     \<and> all_routed k r' (at_end (\<not> b) tr)
     \<and> (fst (routed r' (at_end (\<not> b) tr)) = None \<longrightarrow> opened_first k (concat (map put (at_end b tr)))))"

lemma site_only:
  assumes "tunnel_run (tunnel_start n m) tr T" "moves b T es S T'" "only k r S"
  shows "only k r (site b T)"
proof (cases es)
  case Nil
  then show ?thesis using assms(2,3) by (auto simp: moves_def)
next
  case (Cons e es')
  then have "es = [e]" using assms(2) by (auto simp: moves_def)
  then show ?thesis using only_before[OF assms(3) site_run(1)[OF assms(1)] moves_step] assms(2) by blast
qed

text \<open>A record with data is written only after an open, or when the other end has the connection.\<close>
lemma opened_first_step:
  assumes T: "tunnel_run (tunnel_start n m) tr T" "moves b T es S T'" and o: "only k r S" "only k r' (site (\<not> b) T)"
    and f: "fst (routed r' (at_end (\<not> b) tr)) = None" "opened_first k (concat (map put (at_end b tr)))"
  shows "opened_first k (concat (map put (at_end b tr @ es)))"
proof (cases es)
  case (Cons e es')
  then have es: "es = [e]" using T(2) by (auto simp: moves_def)
  note r = site_run(1)[OF T(1), of b] and st = moves_step[OF T(2)[unfolded es]]
  show ?thesis
  proof (cases "\<exists>q d. e = Wrote q d \<and> data_of k d \<noteq> []")
    case True
    then obtain q d where e: "e = Wrote q d" "data_of k d \<noteq> []" by blast
    have "\<exists>rec \<in> set (concat (map put (at_end b tr))). opens k rec"
    proof (rule ccontr)
      assume "\<not> (\<exists>rec \<in> set (concat (map put (at_end b tr))). opens k rec)"
      then obtain rec where rec: "rec \<in> set (concat (map got (at_end b tr)))" "opens k rec"
        using data_given[OF r st[unfolded e(1)] only_before[OF o(1) r st] e(2)] by blast
      then have "rec \<in> set (concat (map put (at_end (\<not> b) tr)))"
        using site_run(2)[OF T(1), of "\<not> b"] set_mono_prefix by fastforce
      from opens_stored[OF site_run(1)[OF T(1)] this rec(2)] have "r' < length (heap (sess (site (\<not> b) T)))"
        using o(2) by (auto simp: only_def)
      then show False
        using stream.both.global[OF site_run(1)[OF T(1), of "\<not> b"], of r'] f(1) by (simp add: stream_inv_def)
    qed
    then show ?thesis using opened_first_snoc[OF f(2)] e es by (simp add: put_def)
  next
    case False
    then have "put e = [] \<or> (\<exists>d. put e = [d] \<and> data_of k d = [])" by (auto simp: put_def split: event.splits)
    then show ?thesis using f(2) opened_first_snoc[OF f(2)] es by auto
  qed
qed (use f in simp)

lemma carry_step_tunnel:
  assumes T: "tunnel_run (tunnel_start n m) tr T" and s: "carry_step b r r' (T, up, down) es (T', up', down')"
  shows "tunnel_run (tunnel_start n m) (tr @ es) T'"
    "only k r (site b T') \<Longrightarrow> only k r (site b T)" "only k r' (site (\<not> b) T') \<Longrightarrow> only k r' (site (\<not> b) T)"
proof -
  from s obtain c fs S where es: "es = map (Pair c) fs" "moves c T fs S T'" by cases auto
  show "tunnel_run (tunnel_start n m) (tr @ es) T'" using moves_run[OF T es(2)] es(1) by simp
  have "only j x (site d T)" if "only j x (site d T')" for j x d
  proof (cases "d = c")
    case True
    have "site c T' = S" using es(2) by (simp add: moves_def)
    then show ?thesis using site_only[OF T es(2)] that True by simp
  next
    case False
    then have "d = (\<not> c)" by simp
    then show ?thesis using moves_other[OF es(2)] that by simp
  qed
  then show "only k r (site b T') \<Longrightarrow> only k r (site b T)" "only k r' (site (\<not> b) T') \<Longrightarrow> only k r' (site (\<not> b) T)"
    by blast+
qed

lemma carry_step_ok:
  assumes T: "tunnel_run (tunnel_start n m) tr T" and s: "carry_step b r r' (T, up, down) es (T', up', down')"
    and o: "only k r (site b T')" "only k r' (site (\<not> b) T')" and ok: "carry_ok k b r r' tr (T, up, down)"
  shows "carry_ok k b r r' (tr @ es) (T', up', down')"
  using s
proof cases
  case (c_out es' S)
  have S: "site b T' = S" using c_out(4) by (simp add: moves_def)
  have other: "site (\<not> b) T' = site (\<not> b) T" by (rule moves_other[OF c_out(4)])
  have "out_ok k r (at_end b tr @ es') S up' \<and> flow_ok up'"
    using out_step_ok[OF site_run(1)[OF T] c_out(3)] o(1) S ok by (simp add: carry_ok_def)
  moreover have "fst (routed r' (at_end (\<not> b) tr)) = None \<longrightarrow> opened_first k (concat (map put (at_end b tr @ es')))"
    using opened_first_step[OF T c_out(4), of k r r'] o S other ok by (auto simp: carry_ok_def)
  moreover have "at_end b (tr @ es) = at_end b tr @ es'" "at_end (\<not> b) (tr @ es) = at_end (\<not> b) tr"
    using c_out(1) by (simp_all add: at_end_append at_end_Pair)
  ultimately show ?thesis
    using ok c_out(1,2) S other by (simp add: carry_ok_def)
next
  case (c_down es' S)
  have S: "site (\<not> b) T' = S" using c_down(4) by (simp add: moves_def)
  have other: "site b T' = site b T" using moves_other[OF c_down(4)] by simp
  have at: "at_end b (tr @ es) = at_end b tr" "at_end (\<not> b) (tr @ es) = at_end (\<not> b) tr @ es'"
    using c_down(1) by (simp_all add: at_end_append at_end_Pair)
  have d: "down_ok r' (at_end (\<not> b) tr @ es') down'" using down_step_ok[OF c_down(3)] ok by (simp add: carry_ok_def)
  have "all_routed k r' (at_end (\<not> b) tr @ es')
      \<and> (fst (routed r' (at_end (\<not> b) tr @ es')) = None \<longrightarrow> fst (routed r' (at_end (\<not> b) tr)) = None)"
  proof (cases es')
    case (Cons e rest)
    then have e: "es' = [e]" using c_down(4) by (auto simp: moves_def)
    have "opened_first k (concat (map got (at_end (\<not> b) tr)))" if "fst (routed r' (at_end (\<not> b) tr)) = None"
      using ok that site_run(2)[OF T, of b] opened_first_prefix by (auto simp: carry_ok_def prefix_def)
    moreover have "fst (routed r' (tr @ [e])) = None \<Longrightarrow> fst (routed r' tr) = None" for tr
      by (auto simp: routed_step_def split: event.splits if_splits)
    ultimately show ?thesis
      using all_routed_step[OF site_run(1)[OF T] moves_step[OF c_down(4)[unfolded e]], of k r'] o(2) S ok e
      by (auto simp: carry_ok_def)
  qed (use ok in \<open>simp add: carry_ok_def\<close>)
  then show ?thesis
    using ok c_down(1,2) S other d at by (simp add: carry_ok_def)
qed

lemma carry_run_ok:
  assumes "carry_run b r r' x tr y" "x = (tunnel_start n m, new_flow, new_flow)"
  shows "tunnel_run (tunnel_start n m) tr (fst y)
    \<and> (only k r (site b (fst y)) \<longrightarrow> only k r' (site (\<not> b) (fst y)) \<longrightarrow> carry_ok k b r r' tr y)"
  using assms
proof (induction rule: carry_run.induct)
  case carry_nil
  have "opened_first k []" by (simp add: opened_first_def)
  then show ?case
    using carry_nil out_start[of k r n] out_start[of k r m]
    by (auto simp: carry_ok_def down_ok_def all_routed_def flow_ok_def new_flow_def site_def tunnel_start_def intro: tunnel_nil)
next
  case (carry_snoc tr y es z)
  obtain T up down T' up' down' where yz: "y = (T, up, down)" "z = (T', up', down')" by (cases y, cases z) blast
  note IH = carry_snoc.IH[OF carry_snoc.prems, unfolded yz fst_conv]
  then have T: "tunnel_run (tunnel_start n m) tr T" by blast
  note s = carry_snoc.hyps(2)[unfolded yz]
  show ?case
    unfolding yz fst_conv using carry_step_tunnel[OF T s] carry_step_ok[OF T s] IH by blast
qed

section \<open>Runs from a schedule\<close>

datatype cmove = CSend "byte list" | CRead | CCall nat | CTunnel bool move | CSink

definition no_start :: "nat \<Rightarrow> sys \<Rightarrow> sys \<Rightarrow> bool" where
  "no_start r S S' \<longleftrightarrow> list_all (\<lambda>u. writing r (users S' ! u) \<longrightarrow> writing r (users S ! u)) [0..<length (users S')]"

text \<open>What a step of the tunnel at the end of the first copy is to it, and at the end of the second.\<close>
definition out_move :: "nat \<Rightarrow> event \<Rightarrow> sys \<Rightarrow> sys \<Rightarrow> copy_flow \<Rightarrow> copy_flow option" where
  "out_move r e S S' f =
     (if (case e of WriteOk x p \<Rightarrow> x = r | _ \<Rightarrow> False) then Some (f\<lparr>copied := copied f @ held f, held := []\<rparr>)
      else if no_start r S S' \<and> (case e of WriteErr x er \<Rightarrow> x \<noteq> r | _ \<Rightarrow> True) then Some f else None)"

definition down_move :: "nat \<Rightarrow> event \<Rightarrow> copy_flow \<Rightarrow> copy_flow option" where
  "down_move r e f = (case e of
     ReadOk x p \<Rightarrow> if x \<noteq> r then Some f
       else if running f \<and> held f = [] then Some (f\<lparr>copy_flow.sent := copy_flow.sent f @ p, held := p\<rparr>) else None
   | _ \<Rightarrow> Some f)"

definition do_carry :: "bool \<Rightarrow> nat \<Rightarrow> nat \<Rightarrow> cmove \<Rightarrow> tunnel \<times> copy_flow \<times> copy_flow
    \<Rightarrow> ((bool \<times> event) list \<times> tunnel \<times> copy_flow \<times> copy_flow) option" where
  "do_carry b r r' mv x = (case x of (T, up, down) \<Rightarrow> (case mv of
     CSend p \<Rightarrow> if ended up \<or> 32 * 1024 < length (held up) then None
       else Some ([], T, up\<lparr>copy_flow.sent := copy_flow.sent up @ p, unread := unread up @ p\<rparr>, down)
   | CRead \<Rightarrow> if running up \<and> held up = [] \<and> unread up \<noteq> [] \<and> length (unread up) \<le> 32 * 1024
       then Some ([], T, up\<lparr>held := unread up, unread := []\<rparr>, down) else None
   | CCall u \<Rightarrow> if list_all (\<lambda>us. \<not> writing r us) (users (site b T)) \<and> running up \<and> held up \<noteq> []
       then (case do_tmove (b, MApi u (AWrite r (held up)) 0) T of
               Some (e, T') \<Rightarrow> Some ([e], T', up\<lparr>running := (users (site b T') ! u \<noteq> UIdle)\<rparr>, down) | None \<Rightarrow> None)
       else None
   | CTunnel c mv \<Rightarrow> (case do_tmove (c, mv) T of
       None \<Rightarrow> None
     | Some (e, T') \<Rightarrow>
         if c = b
         then map_option (\<lambda>f. ([e], T', f, down)) (out_move r (snd e) (site b T) (site b T') up)
         else map_option (\<lambda>f. ([e], T', up, f)) (down_move r' (snd e) down))
   | CSink \<Rightarrow> if running down \<and> held down \<noteq> []
       then Some ([], T, up, down\<lparr>copied := copied down @ held down, held := []\<rparr>) else None))"

fun cplay :: "bool \<Rightarrow> nat \<Rightarrow> nat \<Rightarrow> cmove list \<Rightarrow> (bool \<times> event) list \<times> tunnel \<times> copy_flow \<times> copy_flow
    \<Rightarrow> ((bool \<times> event) list \<times> tunnel \<times> copy_flow \<times> copy_flow) option" where
  "cplay b r r' [] y = Some y"
| "cplay b r r' (mv # mvs) (tr, x) =
     (case do_carry b r r' mv x of None \<Rightarrow> None | Some (es, x') \<Rightarrow> cplay b r r' mvs (tr @ es, x'))"

lemma do_tmove_moves:
  assumes "do_tmove (c, mv) T = Some (e, T')"
  shows "moves c T [snd e] (site c T') T'" "e = (c, snd e)" "do_move mv (site c T) = Some (snd e, site c T')"
proof -
  show e: "e = (c, snd e)" and "do_move mv (site c T) = Some (snd e, site c T')"
    using assms by (auto simp: do_tmove_def Let_def site_def split: option.splits if_splits)
  show "moves c T [snd e] (site c T') T'" using do_tmove_step[OF assms] e by (simp add: moves_def)
qed

lemma out_move_step:
  assumes "out_move r e S S' f = Some f'" "step S e S'"
  shows "out_step r (S, f) [e] (S', f')"
proof (cases "\<exists>p. e = WriteOk r p")
  case True
  then show ?thesis using assms o_done by (auto simp: out_move_def)
next
  case False
  then have "\<not> (case e of WriteOk x p \<Rightarrow> x = r | _ \<Rightarrow> False)" by (auto split: event.splits)
  then have "no_start r S S'" "\<And>er. e \<noteq> WriteErr r er" "f' = f"
    using assms(1) by (auto simp: out_move_def split: if_splits event.splits)
  then show ?thesis using o_other[OF assms(2)] False by (auto simp: no_start_def list_all_iff)
qed

lemma down_move_step: "down_move r e f = Some f' \<Longrightarrow> step S e S' \<Longrightarrow> down_step r (S, f) [e] (S', f')"
  by (auto simp: down_move_def intro: d_read d_other split: event.splits if_splits)

lemma do_carry_step: "do_carry b r r' mv (T, up, down) = Some (es, y) \<Longrightarrow> carry_step b r r' (T, up, down) es y"
proof (cases mv)
  case (CSend p)
  assume "do_carry b r r' mv (T, up, down) = Some (es, y)"
  then show ?thesis
    using CSend c_out[where es = "[]" and T = T and T' = T and S = "site b T" and b = b] o_source[OF f_send[of up True p]]
    by (auto simp: do_carry_def moves_def split: if_splits)
next
  case CRead
  assume "do_carry b r r' mv (T, up, down) = Some (es, y)"
  then show ?thesis
    using CRead c_out[where es = "[]" and T = T and T' = T and S = "site b T" and b = b] o_source[OF f_read[of up "unread up" "[]" True]]
    by (auto simp: do_carry_def moves_def split: if_splits)
next
  case CSink
  assume "do_carry b r r' mv (T, up, down) = Some (es, y)"
  then show ?thesis
    using CSink c_down[where es = "[]" and T = T and T' = T and S = "site (\<not> b) T" and b = b] d_sink[OF f_write[of down]]
    by (auto simp: do_carry_def moves_def split: if_splits)
next
  case (CCall u)
  assume "do_carry b r r' mv (T, up, down) = Some (es, y)"
  then obtain e T' where t: "do_tmove (b, MApi u (AWrite r (held up)) 0) T = Some (e, T')"
    "\<not> busy r (site b T)" "running up" "held up \<noteq> []"
    "es = [e]" "y = (T', up\<lparr>running := (users (site b T') ! u \<noteq> UIdle)\<rparr>, down)"
    using CCall by (auto simp: do_carry_def list_all_iff split: if_splits option.splits)
  note d = do_tmove_moves[OF t(1)]
  from d(3) obtain us s' where u: "u < length (users (site b T))" "users (site b T) ! u = UIdle"
    "(snd e, us, s') \<in> set (api_steps (AWrite r (held up)) (sess (site b T)))"
    "site b T' = (site b T)\<lparr>sess := s', users := (users (site b T))[u := us]\<rparr>"
    by (auto simp: do_move_def put_user_def split: if_splits dest!: pick_set)
  have "out_step r (site b T, up) [snd e] (site b T', up\<lparr>running := (us \<noteq> UIdle)\<rparr>)"
    using o_call[OF t(2-4) u(1-3)] u(4) by simp
  from c_out[OF this d(1)] show ?thesis using t(5,6) d(2) u(1,4) by simp
next
  case (CTunnel c mv')
  assume a: "do_carry b r r' mv (T, up, down) = Some (es, y)"
  then obtain e T' where t: "do_tmove (c, mv') T = Some (e, T')" using CTunnel by (auto simp: do_carry_def split: option.splits)
  note d = do_tmove_moves[OF t] moves_step[OF do_tmove_moves(1)[OF t]]
  show ?thesis
  proof (cases "c = b")
    case True
    then obtain f where "out_move r (snd e) (site b T) (site b T') up = Some f" "es = [e]" "y = (T', f, down)"
      using a CTunnel t by (auto simp: do_carry_def)
    then show ?thesis using c_out[OF out_move_step] d True by fastforce
  next
    case False
    then obtain f where "down_move r' (snd e) down = Some f" "es = [e]" "y = (T', up, f)" and c: "c = (\<not> b)"
      using a CTunnel t by (auto simp: do_carry_def)
    then show ?thesis using c_down[OF down_move_step] d by fastforce
  qed
qed

lemma cplay_run: "cplay b r r' mvs (tr, x) = Some (tr', x') \<Longrightarrow> carry_run b r r' x0 tr x \<Longrightarrow> carry_run b r r' x0 tr' x'"
proof (induction mvs arbitrary: tr x)
  case (Cons mv mvs)
  obtain T up down where x: "x = (T, up, down)" by (cases x)
  with Cons.prems(1) obtain es y where y: "do_carry b r r' mv (T, up, down) = Some (es, y)"
    "cplay b r r' mvs (tr @ es, y) = Some (tr', x')" by (auto split: option.splits)
  from Cons.IH[OF y(2) carry_snoc[OF Cons.prems(2)]] do_carry_step[OF y(1)] x show ?case by simp
qed simp

text \<open>One end dials, the other accepts, and two bytes go from socket to socket.\<close>
definition through :: "cmove list" where
  "through = map (CTunnel True) outbound
     @ map (CTunnel False) [MRecv (EncodeOpen 1 ''a''), MRead 0, MRead 0, MApi 0 AAccept 0]
     @ [CSend [7, 8], CRead, CCall 0] @ map (CTunnel True) [MUser 0 0, MWrite 0, MWrite 0, MUser 0 0]
     @ map (CTunnel False) [MRecv (EncodeData 1 [7, 8]), MRead 0, MRead 0, MApi 0 (ARead 0 9) 0] @ [CSink]"

section \<open>Properties\<close>



end
