(* ===== verification/Status.thy ===== *)
theory Status
  imports GoStrings
begin

text \<open>
  The WebSocket close statuses of the signalling protocol, \<open>src/wormhole/dial.go\<close>, shared by the
  signalling server and its clients, and what \<open>websocket.CloseStatus\<close> makes of an error.
\<close>

definition CloseNoSuchSlot :: nat where "CloseNoSuchSlot = 4000 + 0"
definition CloseSlotTimedOut :: nat where "CloseSlotTimedOut = 4000 + 1"
definition CloseNoMoreSlots :: nat where "CloseNoMoreSlots = 4000 + 2"
definition CloseWrongProto :: nat where "CloseWrongProto = 4000 + 3"
definition ClosePeerHungUp :: nat where "ClosePeerHungUp = 4000 + 4"
definition CloseBadKey :: nat where "CloseBadKey = 4000 + 5"
definition CloseWebRTCSuccess :: nat where "CloseWebRTCSuccess = 4000 + 6"
definition CloseWebRTCSuccessDirect :: nat where "CloseWebRTCSuccessDirect = 4000 + 7"
definition CloseWebRTCSuccessRelay :: nat where "CloseWebRTCSuccessRelay = 4000 + 8"
definition CloseWebRTCFailed :: nat where "CloseWebRTCFailed = 4000 + 9"

lemmas status_defs = CloseNoSuchSlot_def CloseSlotTimedOut_def CloseNoMoreSlots_def
  CloseWrongProto_def ClosePeerHungUp_def CloseBadKey_def CloseWebRTCSuccess_def
  CloseWebRTCSuccessDirect_def CloseWebRTCSuccessRelay_def CloseWebRTCFailed_def

text \<open>An error of a WebSocket operation: the peer's close status, or any other failure.\<close>
datatype ws_error = ClosedWith nat | WsFailure string

text \<open>\<open>websocket.CloseStatus\<close>: \<open>None\<close> for what Go returns as \<open>-1\<close>.\<close>
fun CloseStatus :: "ws_error \<Rightarrow> nat option" where
  "CloseStatus (ClosedWith c) = Some c"
| "CloseStatus (WsFailure _) = None"

end
