(* ===== verification/Closing.thy ===== *)
theory Closing
  imports Status
begin

text \<open>
  Opening and closing a connection: the callbacks of the data channel and \<open>Close\<close> of
  \<open>src/wormhole/dial.go\<close>, \<open>CloseCtx\<close> of \<open>src/wormhole/dial_ctx.go\<close>, and the record interface over it. Both wait for the data channel to be
  flushed, one second at a time: a loop that may not end is a partial function, and \<open>None\<close> is not
  returning. What \<open>BufferedAmount\<close> gives in round \<open>i\<close> is \<open>buffered i\<close>.
\<close>

record 'e channel =
  buffered :: "nat \<Rightarrow> nat"
  rwc_close :: "'e option option"
  d_close :: "'e option"
  pc_close :: "'e option"

text \<open>How a call ends: it never returns, it panics, or it returns an error or \<open>nil\<close>.\<close>
datatype 'e ending = Hangs | Panics | Returns "'e option"

section \<open>Opening\<close>

text \<open>
  The callbacks on the data channel, against the \<open>select\<close> that waits for them in \<open>New\<close> and \<open>Join\<close>:
  \<open>detached\<close> tells whether \<open>rwc\<close> is set, \<open>senders\<close> are the callbacks waiting to send their error on the
  unbuffered \<open>err\<close>, \<open>chosen\<close> what the \<open>select\<close> went on with. WebRTC opens the channel once.
\<close>
datatype 'e way = ByOpened | ByErr 'e | ByTimeout

record 'e dc_open =
  detached :: bool
  opened :: bool
  senders :: "'e list"
  chosen :: "'e way option"

definition new_opening :: "'e dc_open" where
  "new_opening = \<lparr>detached = False, opened = False, senders = [], chosen = None\<rparr>"

text \<open>\<open>open\<close>, with the error of \<open>Detach\<close>.\<close>
definition open_callback :: "'e option \<Rightarrow> 'e dc_open \<Rightarrow> 'e dc_open" where
  "open_callback err c = (case err of
     Some e \<Rightarrow> c\<lparr>senders := senders c @ [e]\<rparr>
   | None \<Rightarrow> c\<lparr>detached := True, opened := True\<rparr>)"

definition error_callback :: "'e \<Rightarrow> 'e dc_open \<Rightarrow> 'e dc_open" where
  "error_callback e c = c\<lparr>senders := senders c @ [e]\<rparr>"

text \<open>The ready cases of the \<open>select\<close>; the time may have run out.\<close>
definition select_ready :: "bool \<Rightarrow> 'e dc_open \<Rightarrow> 'e dc_open list" where
  "select_ready late c =
     (if opened c then [c\<lparr>chosen := Some ByOpened\<rparr>] else [])
     @ map (\<lambda>e. c\<lparr>senders := remove1 e (senders c), chosen := Some (ByErr e)\<rparr>) (senders c)
     @ (if late then [c\<lparr>chosen := Some ByTimeout\<rparr>] else [])"

inductive opening_step :: "'e dc_open \<Rightarrow> 'e dc_open \<Rightarrow> bool" where
  os_open: "\<not> opened c \<Longrightarrow> opening_step c (open_callback err c)"
| os_error: "opening_step c (error_callback e c)"
| os_select: "chosen c = None \<Longrightarrow> c' \<in> set (select_ready late c) \<Longrightarrow> opening_step c c'"

text \<open>A handshake that succeeds has its channel, so that no method of it meets a nil one.\<close>
theorem opened_detached:
  assumes "opening_step\<^sup>*\<^sup>* new_opening c" "chosen c = Some ByOpened"
  shows "detached c"
proof -
  have "(opened c \<longrightarrow> detached c) \<and> (chosen c = Some ByOpened \<longrightarrow> opened c)"
    using assms(1)
  proof (induction rule: rtranclp_induct)
    case (step c c')
    from step.hyps(2) step.IH show ?case
      by cases (auto simp: open_callback_def error_callback_def select_ready_def split: option.splits if_splits)
  qed (simp add: new_opening_def)
  then show ?thesis using assms(2) by blast
qed

text \<open>
  An error that WebRTC reports after the \<open>select\<close> has gone on blocks its callback for ever: no one
  receives from \<open>err\<close> any more.
\<close>
theorem late_error_blocks:
  assumes "chosen c \<noteq> None" "opening_step\<^sup>*\<^sup>* (error_callback e c) c'"
  shows "e \<in> set (senders c')"
proof -
  have "chosen c' \<noteq> None \<and> e \<in> set (senders c')"
    using assms(2)
  proof (induction rule: rtranclp_induct)
    case base
    then show ?case using assms(1) by (simp add: error_callback_def)
  next
    case (step c c')
    from step.hyps(2) step.IH show ?case
      by cases (auto simp: open_callback_def error_callback_def split: option.splits)
  qed
  then show ?thesis ..
qed

section \<open>Close\<close>

text \<open>The number of seconds slept before the buffers are empty.\<close>
partial_function (option) flush :: "(nat \<Rightarrow> nat) \<Rightarrow> nat \<Rightarrow> nat option" where
  "flush amount i = (if amount i \<noteq> 0 then flush amount (i + 1) else Some i)"

text \<open>
  The deferred calls of \<open>tryclose\<close>, last first: the detached channel, the data channel, the peer
  connection. A channel that was never opened has a nil \<open>rwc\<close>, whose \<open>Close\<close> panics.
\<close>
definition tryclose :: "'e option \<Rightarrow> 'e option \<Rightarrow> 'e option" where
  "tryclose e err = (if e \<noteq> None then e else err)"

definition Close :: "'e channel \<Rightarrow> 'e ending" where
  "Close c =
     (case flush (buffered c) 0 of
        None \<Rightarrow> Hangs
      | Some _ \<Rightarrow>
          (case rwc_close c of
             None \<Rightarrow> Panics
           | Some e \<Rightarrow> Returns (fold tryclose [e, d_close c, pc_close c] None)))"

section \<open>CloseCtx\<close>

text \<open>
  \<open>elapsed i\<close> is the time in milliseconds since the call at round \<open>i\<close>, \<open>cancelled i\<close> whether the
  context is done by then.
\<close>
partial_function (option) flushCtx :: "(nat \<Rightarrow> nat) \<Rightarrow> (nat \<Rightarrow> bool) \<Rightarrow> (nat \<Rightarrow> nat) \<Rightarrow> nat \<Rightarrow> nat option" where
  "flushCtx amount cancelled elapsed i =
     (if amount i \<noteq> 0
      then if cancelled i then Some i
           else if 5000 \<le> elapsed i then Some i
           else flushCtx amount cancelled elapsed (i + 1)
      else Some i)"

definition trycloseCtx :: "'e option \<Rightarrow> 'e option \<Rightarrow> 'e option" where
  "trycloseCtx e err = (if e \<noteq> None \<and> err = None then e else err)"

definition CloseCtx :: "(nat \<Rightarrow> bool) \<Rightarrow> (nat \<Rightarrow> nat) \<Rightarrow> 'e channel \<Rightarrow> 'e ending" where
  "CloseCtx cancelled elapsed c =
     (case flushCtx (buffered c) cancelled elapsed 0 of
        None \<Rightarrow> Hangs
      | Some _ \<Rightarrow>
          (case rwc_close c of
             None \<Rightarrow> Panics
           | Some e \<Rightarrow> Returns (fold trycloseCtx [e, d_close c, pc_close c] None)))"

section \<open>Records\<close>

definition sctpMaxMessageSize :: nat where "sctpMaxMessageSize = 64 * 1024"

text \<open>What \<open>Read\<close> of the channel does with a buffer of the given length.\<close>
definition ReadRecord :: "(nat \<Rightarrow> 'e + byte list) \<Rightarrow> 'e + byte list" where
  "ReadRecord read = (case read sctpMaxMessageSize of Inl err \<Rightarrow> Inl err | Inr p \<Rightarrow> Inr p)"

definition WriteRecord :: "(byte list \<Rightarrow> nat \<times> 'e option) \<Rightarrow> byte list \<Rightarrow> 'e option" where
  "WriteRecord write msg = snd (write msg)"

text \<open>The context of \<open>wormholeRecordIOCtx.Close\<close> is done after six seconds.\<close>
definition recordCloseCtx :: "(nat \<Rightarrow> nat) \<Rightarrow> 'e channel \<Rightarrow> 'e ending" where
  "recordCloseCtx elapsed = CloseCtx (\<lambda>i. 6000 \<le> elapsed i) elapsed"

section \<open>Lemmas\<close>

lemma flush_flushed: "flush amount i = Some n \<Longrightarrow> amount n = 0"
  by (erule flush.raw_induct[where P = "\<lambda>a i n. a n = 0", rotated]) (auto split: if_splits)

lemma flush_returns: "amount (i + n) = 0 \<Longrightarrow> \<exists>m \<le> n. flush amount i = Some (i + m)"
proof (induction n arbitrary: i)
  case 0
  then show ?case by (subst flush.simps) simp
next
  case (Suc n)
  show ?case
  proof (cases "amount i = 0")
    case True
    then show ?thesis by (subst flush.simps) auto
  next
    case False
    obtain m where "m \<le> n" "flush amount (Suc i) = Some (Suc i + m)"
      using Suc.IH[of "Suc i"] Suc.prems by auto
    then show ?thesis using False by (subst flush.simps) (auto intro!: exI[of _ "Suc m"])
  qed
qed

lemma flushCtx_returns:
  "5000 \<le> elapsed (i + n) \<Longrightarrow> \<exists>m \<le> n. flushCtx amount cancelled elapsed i = Some (i + m)"
proof (induction n arbitrary: i)
  case 0
  then show ?case by (subst flushCtx.simps) simp
next
  case (Suc n)
  show ?case
  proof (cases "amount i = 0 \<or> cancelled i \<or> 5000 \<le> elapsed i")
    case True
    then show ?thesis by (subst flushCtx.simps) auto
  next
    case False
    obtain m where "m \<le> n" "flushCtx amount cancelled elapsed (Suc i) = Some (Suc i + m)"
      using Suc.IH[of "Suc i"] Suc.prems by auto
    then show ?thesis using False by (subst flushCtx.simps) (auto intro!: exI[of _ "Suc m"])
  qed
qed

lemma seconds_pass:
  assumes "\<And>i. elapsed i + 1000 \<le> elapsed (Suc i)"
  shows "1000 * i \<le> elapsed (i :: nat)"
proof (induction i)
  case (Suc i)
  then show ?case using assms[of i] by simp
qed simp

section \<open>Properties\<close>

text \<open>
  C30. \<open>CloseCtx\<close> always comes back: after at most five sleeps of a second, whatever the peer does with
  the data, with the first error of the three closes. \<open>Close\<close> comes back exactly when the buffers
  drain at some time, and then with the last error.
\<close>
theorem CloseCtx_terminates:
  assumes "\<And>i. elapsed i + 1000 \<le> elapsed (Suc i)" "rwc_close c = Some e"
  shows "(\<exists>n \<le> 5. flushCtx (buffered c) cancelled elapsed 0 = Some n)
    \<and> CloseCtx cancelled elapsed c =
        Returns (if e \<noteq> None then e else if d_close c \<noteq> None then d_close c else pc_close c)
    \<and> (Close c = Hangs \<longleftrightarrow> (\<forall>i. buffered c i \<noteq> 0))
    \<and> (Close c \<noteq> Hangs \<longrightarrow>
        Close c = Returns (if pc_close c \<noteq> None then pc_close c else if d_close c \<noteq> None then d_close c else e))"
proof (intro conjI)
  have "5000 \<le> elapsed (0 + 5)" using seconds_pass[of elapsed 5, OF assms(1)] by simp
  from flushCtx_returns[of elapsed 0 5, OF this] show f: "\<exists>n \<le> 5. flushCtx (buffered c) cancelled elapsed 0 = Some n" by simp
  then show "CloseCtx cancelled elapsed c =
      Returns (if e \<noteq> None then e else if d_close c \<noteq> None then d_close c else pc_close c)"
    using assms(2) by (auto simp: CloseCtx_def trycloseCtx_def)
  have r: "Close c = Hangs \<longleftrightarrow> flush (buffered c) 0 = None"
    using assms(2) by (simp add: Close_def split: option.split)
  also have "\<dots> \<longleftrightarrow> (\<forall>i. buffered c i \<noteq> 0)"
  proof (cases "flush (buffered c) 0")
    case None
    then show ?thesis using flush_returns[of "buffered c" 0] by auto
  next
    case (Some n)
    then show ?thesis using flush_flushed[OF Some] by auto
  qed
  finally show "Close c = Hangs \<longleftrightarrow> (\<forall>i. buffered c i \<noteq> 0)" .
  show "Close c \<noteq> Hangs \<longrightarrow>
      Close c = Returns (if pc_close c \<noteq> None then pc_close c else if d_close c \<noteq> None then d_close c else e)"
    using r assms(2) by (auto simp: Close_def tryclose_def)
qed

lemma CloseCtx_terminates_witness:
  "let c = \<lparr>buffered = \<lambda>_. 7, rwc_close = Some (Some ''eof''), d_close = None, pc_close = Some ''pc''\<rparr>
   in CloseCtx (\<lambda>_. False) (\<lambda>i. 1000 * i) c = Returns (Some ''eof'') \<and> Close c = Hangs"
  using CloseCtx_terminates[of "\<lambda>i. 1000 * i"
    "\<lparr>buffered = \<lambda>_. 7, rwc_close = Some (Some ''eof''), d_close = None, pc_close = Some ''pc''\<rparr>" "Some ''eof''" "\<lambda>_. False"]
  by simp

end
