(* ===== verification/Slots.thy ===== *)
theory Slots
  imports Status "HOL-Library.AList"
begin

text \<open>
  The parts of the signalling server that do not wait, \<open>src/cmd/ww/server.go\<close>: slot allocation,
  the ICE servers handed to clients, the checks of the command line, and the routing of HTTP
  requests. The random source, the clock and the message authentication code are parameters.
\<close>

section \<open>Slot allocation\<close>

text \<open>
  One of the loops of \<open>freeslot\<close>: \<open>n\<close> rounds of \<open>rand.Intn(bound)\<close>, where \<open>rnd i\<close> is the number
  the random source gives to the \<open>i\<close>-th call.
\<close>
primrec try_slots :: "(string \<times> 'c) list \<Rightarrow> (nat \<Rightarrow> nat) \<Rightarrow> nat \<Rightarrow> nat \<Rightarrow> nat \<Rightarrow> string option" where
  "try_slots m rnd bound i 0 = None"
| "try_slots m rnd bound i (Suc n) =
     (let s = Itoa (of_nat (rnd i mod bound))
      in if map_of m s = None then Some s else try_slots m rnd bound (Suc i) n)"

definition freeslot :: "(string \<times> 'c) list \<Rightarrow> (nat \<Rightarrow> nat) \<Rightarrow> string option" where
  "freeslot m rnd =
     (case try_slots m rnd (2 ^ 7) 0 64 of Some s \<Rightarrow> Some s
      | None \<Rightarrow>
        (case try_slots m rnd (2 ^ 11) 64 1024 of Some s \<Rightarrow> Some s
         | None \<Rightarrow>
           (case try_slots m rnd (2 ^ 16) (64 + 1024) 2048 of Some s \<Rightarrow> Some s
            | None \<Rightarrow> try_slots m rnd (2 ^ 21) (64 + 1024 + 2048) 2048)))"

text \<open>The reference: the slot drawn in round \<open>i\<close>, and the first one drawn that is free.\<close>
definition slot_bound :: "nat \<Rightarrow> nat" where
  "slot_bound i = (if i < 64 then 2 ^ 7 else if i < 1088 then 2 ^ 11
                   else if i < 3136 then 2 ^ 16 else 2 ^ 21)"

definition slot_draw :: "(nat \<Rightarrow> nat) \<Rightarrow> nat \<Rightarrow> string" where
  "slot_draw rnd i = Itoa (of_nat (rnd i mod slot_bound i))"

lemma find_append: "List.find P (xs @ ys) = (case List.find P xs of Some x \<Rightarrow> Some x | None \<Rightarrow> List.find P ys)"
  by (induction xs) auto

lemma try_slots_find:
  "\<forall>j. i \<le> j \<and> j < i + n \<longrightarrow> slot_bound j = bound \<Longrightarrow>
     try_slots m rnd bound i n = List.find (\<lambda>s. map_of m s = None) (map (slot_draw rnd) [i..<i + n])"
proof (induction n arbitrary: i)
  case (Suc n)
  have "slot_draw rnd i = Itoa (of_nat (rnd i mod bound))" using Suc.prems by (simp add: slot_draw_def)
  moreover have "[i..<i + Suc n] = i # [Suc i..<Suc i + n]" by (simp add: upt_conv_Cons)
  ultimately show ?case using Suc.IH[of "Suc i"] Suc.prems by (simp add: Let_def)
qed simp

text \<open>
  C28. Slot allocation is the same as this: draw 5184 slots, the first 64 below \<open>2 ^ 7\<close>, then 1024
  below \<open>2 ^ 11\<close>, 2048 below \<open>2 ^ 16\<close> and 2048 below \<open>2 ^ 21\<close>, and take the first that is free.
\<close>
theorem freeslot_eq_find:
  "freeslot m rnd = List.find (\<lambda>s. map_of m s = None) (map (slot_draw rnd) [0..<5184])"
proof -
  have e: "[0..<5184] = [0..<64] @ [64..<1088] @ [1088..<3136] @ [3136..<5184]"
    using upt_add_eq_append[of 0 64 1024] upt_add_eq_append[of 0 1088 2048]
      upt_add_eq_append[of 0 3136 2048] by (simp del: upt_rec_numeral)
  have "try_slots m rnd (2 ^ 7) 0 64 = List.find (\<lambda>s. map_of m s = None) (map (slot_draw rnd) [0..<64])"
    "try_slots m rnd (2 ^ 11) 64 1024 = List.find (\<lambda>s. map_of m s = None) (map (slot_draw rnd) [64..<1088])"
    "try_slots m rnd (2 ^ 16) 1088 2048 = List.find (\<lambda>s. map_of m s = None) (map (slot_draw rnd) [1088..<3136])"
    "try_slots m rnd (2 ^ 21) 3136 2048 = List.find (\<lambda>s. map_of m s = None) (map (slot_draw rnd) [3136..<5184])"
    using try_slots_find[of 0 64 "2 ^ 7" m rnd] try_slots_find[of 64 1024 "2 ^ 11" m rnd]
      try_slots_find[of 1088 2048 "2 ^ 16" m rnd] try_slots_find[of 3136 2048 "2 ^ 21" m rnd]
    by (simp_all add: slot_bound_def del: upt_rec_numeral)
  then show ?thesis
    unfolding e map_append find_append freeslot_def by (simp del: upt_rec_numeral split: option.split)
qed

lemma slot_draw_small: "\<exists>k < 2 ^ 21. slot_draw rnd i = Itoa (of_nat k)"
proof -
  have "0 < slot_bound i \<and> slot_bound i \<le> 2 ^ 21" by (simp add: slot_bound_def)
  then have "rnd i mod slot_bound i < 2 ^ 21" by (meson less_le_trans mod_less_divisor)
  then show ?thesis by (auto simp: slot_draw_def)
qed

lemma freeslot_free:
  assumes "freeslot m rnd = Some s"
  shows "map_of m s = None" "\<exists>k < 2 ^ 21. s = Itoa (of_nat k)"
  using assms slot_draw_small by (auto simp: freeslot_eq_find find_Some_iff)

section \<open>ICE servers\<close>

record ICEServer =
  URLs :: "string list"
  Username :: string
  Credential :: string

text \<open>
  \<open>turnServers\<close>: \<open>expiry\<close> is the Unix time \<open>slotTimeout\<close> from now and \<open>mac\<close> the standard base64 of
  the HMAC-SHA1 of a message under a key.
\<close>
definition turnServers :: "(string \<Rightarrow> string \<Rightarrow> string) \<Rightarrow> goint \<Rightarrow> string \<Rightarrow> string \<Rightarrow> ICEServer list" where
  "turnServers mac expiry turnServer turnSecret =
     (if turnServer = '''' then []
      else
        let username = Itoa expiry @ '':wormhole''
        in [\<lparr>URLs = [turnServer], Username = username, Credential = mac turnSecret username\<rparr>])"

section \<open>The command line\<close>

text \<open>The list of STUN servers; empty items are skipped.\<close>
definition stunServers :: "string \<Rightarrow> ICEServer list" where
  "stunServers flag =
     map (\<lambda>s. \<lparr>URLs = [s], Username = '''', Credential = ''''\<rparr>)
       (filter (\<lambda>s. s \<noteq> '''') (Split1 (CHR '','') flag))"

text \<open>The checks of \<open>server\<close> before it listens; \<open>Some\<close> is the message it ends with.\<close>
definition server_check :: "string \<Rightarrow> string \<Rightarrow> string \<Rightarrow> string \<Rightarrow> string option" where
  "server_check cert key turnServer turnSecret =
     (if (cert = '''') \<noteq> (key = '''')
      then Some ''-cert and -key options must be provided together or both left empty''
      else if turnServer \<noteq> '''' \<and> turnSecret = ''''
      then Some ''cannot use a TURN server without a secret''
      else None)"

section \<open>Requests\<close>

record request =
  Upgrade :: string
  Host :: string
  Path :: string
  GoGet :: string

text \<open>The page of the go-import meta tag, the service worker's page with status 404, or the file server.\<close>
datatype body = ImportMeta | ServiceWorkerPage | StaticFile

datatype reply =
    ToRelay
  | Redirect string nat
  | Serve "(string \<times> string) list" body

text \<open>
  \<open>strings.ToLower(h) == "websocket"\<close> on the bytes of \<open>h\<close>: besides the capital letters, the Kelvin
  sign is lowered to a letter of that word.
\<close>
fun lower_bytes :: "string \<Rightarrow> string" where
  "lower_bytes (c # d # e # s) =
     (if byte_val c = 0xE2 \<and> byte_val d = 0x84 \<and> byte_val e = 0xAA then CHR ''k'' # lower_bytes s
      else (if 65 \<le> byte_val c \<and> byte_val c \<le> 90 then char_of (byte_val c + 32) else c) # lower_bytes (d # e # s))"
| "lower_bytes (c # s) =
     (if 65 \<le> byte_val c \<and> byte_val c \<le> 90 then char_of (byte_val c + 32) else c) # lower_bytes s"
| "lower_bytes [] = []"

definition csp :: "string \<Rightarrow> string" where
  "csp hosts =
     ''default-src 'self'; script-src 'self' 'unsafe-eval'; img-src 'self' blob:; connect-src 'self' ws://localhost/''
     @ concat (map (\<lambda>host. '' wss://'' @ host) (Split1 (CHR '','') hosts))"

definition handler :: "string \<Rightarrow> string \<Rightarrow> request \<Rightarrow> reply" where
  "handler hosts httpsaddr r =
     (if lower_bytes (Upgrade r) = ''websocket'' then ToRelay
      else if Host r = ''webwormhole.io'' then Redirect (''https://webwormhole.com'' @ Path r) 307
      else
        let headers = [(''Access-Control-Allow-Origin'', ''*''), (''Content-Security-Policy'', csp hosts),
                       (''Cache-Control'', ''no-cache'')]
              @ (if httpsaddr \<noteq> '''' then [(''Strict-Transport-Security'', ''max-age=63072000'')] else [])
        in if GoGet r = ''1'' \<or> Path r = ''/cmd/ww'' then Serve headers ImportMeta
           else if HasPrefix (Path r) ''/_/'' then Serve headers ServiceWorkerPage
           else Serve headers StaticFile)"

end
