(* ===== verification/Proc.thy ===== *)
theory Proc
  imports Slots
begin

text \<open>
  The signalling client as an interaction tree: a \<open>proc\<close> either returns, panics, or asks its
  environment for one effect (a WebSocket operation, a call into WebRTC, randomness, waiting) and
  goes on with the answer. The libraries without effects (\<open>net/url\<close>, CPACE, HKDF, secretbox, the
  JSON of the exchanged values) are the fields of a record \<open>lib\<close> the client is a function of.
\<close>

section \<open>Errors\<close>

text \<open>
  The error values of \<open>src/wormhole/dial.go\<close>, errors of the WebSocket, and the errors of the other
  libraries, which the client only passes on.
\<close>
datatype dial_err =
    ErrBadVersion
  | ErrBadKey
  | ErrNoSuchSlot
  | ErrTimedOut
  | WsErr ws_error
  | LibErr string

text \<open>\<open>websocket.CloseStatus\<close> of any error, and of a call's error when there is one.\<close>
fun err_status :: "dial_err \<Rightarrow> nat option" where
  "err_status (WsErr e) = CloseStatus e"
| "err_status _ = None"

fun close_status :: "dial_err + 'a \<Rightarrow> nat option" where
  "close_status (Inl e) = err_status e"
| "close_status (Inr _) = None"

section \<open>Libraries\<close>

record URL =
  Scheme :: string
  UrlPath :: string
  UrlRest :: string

text \<open>
  \<open>'d\<close> are session descriptions and \<open>'c\<close> ICE candidates. \<open>cpace_Start\<close> gives the first message and
  the method \<open>Finish\<close> of the state it returns; its first argument, as that of \<open>cpace_Exchange\<close>, is
  the randomness it draws.
\<close>
record ('d, 'c) lib =
  url_Parse :: "string \<Rightarrow> dial_err + URL"
  url_String :: "URL \<Rightarrow> string"
  init_Unmarshal :: "string \<Rightarrow> dial_err + string \<times> ICEServer list"
  cpace_Start :: "nat \<Rightarrow> string \<Rightarrow> dial_err + byte list \<times> (byte list \<Rightarrow> dial_err + byte list)"
  cpace_Exchange :: "nat \<Rightarrow> string \<Rightarrow> byte list \<Rightarrow> dial_err + byte list \<times> byte list"
  hkdf_key :: "byte list \<Rightarrow> dial_err + byte list"
  box_Seal :: "byte list \<Rightarrow> byte list \<Rightarrow> byte list \<Rightarrow> byte list"
  box_Open :: "byte list \<Rightarrow> byte list \<Rightarrow> byte list \<Rightarrow> byte list option"
  sd_Marshal :: "'d \<Rightarrow> dial_err + byte list"
  sd_Unmarshal :: "byte list \<Rightarrow> dial_err + 'd"
  cand_Marshal :: "'c \<Rightarrow> dial_err + byte list"
  cand_Unmarshal :: "byte list \<Rightarrow> dial_err + 'c"

section \<open>Effects\<close>

text \<open>A context: the one that is never done, or one that may be.\<close>
datatype goctx = TODO | Ctx nat

text \<open>What \<open>select\<close> waits for: the data channel opens, it reports an error, or 30 seconds pass.\<close>
datatype wake = Opened | Errored dial_err | After30s

text \<open>The statistics \<open>IsRelay\<close> looks at.\<close>
datatype stat =
    CandidatePair bool string string
  | Candidate bool
  | OtherStats

datatype ('d, 'c, 'r) proc =
    Return 'r
  | Panic
  | DialWs goctx string "dial_err + unit \<Rightarrow> ('d, 'c, 'r) proc"
  | GoCloseWhenDone goctx nat "('d, 'c, 'r) proc"
  | ReadWs goctx "dial_err + string \<Rightarrow> ('d, 'c, 'r) proc"
  | WriteWs goctx string "dial_err + unit \<Rightarrow> ('d, 'c, 'r) proc"
  | CloseWs nat "('d, 'c, 'r) proc"
  | SendSlot string "('d, 'c, 'r) proc"
  | NewPeerConnection "ICEServer list" "dial_err + unit \<Rightarrow> ('d, 'c, 'r) proc"
  | CreateDataChannel "dial_err + unit \<Rightarrow> ('d, 'c, 'r) proc"
  | DrawSeed "nat \<Rightarrow> ('d, 'c, 'r) proc"
  | ReadRand nat "dial_err + byte list \<Rightarrow> ('d, 'c, 'r) proc"
  | OnICECandidate goctx "byte list" "('d, 'c, 'r) proc"
  | CreateOffer "dial_err + 'd \<Rightarrow> ('d, 'c, 'r) proc"
  | CreateAnswer "dial_err + 'd \<Rightarrow> ('d, 'c, 'r) proc"
  | SetLocalDescription 'd "dial_err + unit \<Rightarrow> ('d, 'c, 'r) proc"
  | SetRemoteDescription 'd "dial_err + unit \<Rightarrow> ('d, 'c, 'r) proc"
  | AddICECandidate 'c "dial_err + unit \<Rightarrow> ('d, 'c, 'r) proc"
  | GoHandleRemoteCandidates goctx "byte list" "('d, 'c, 'r) proc"
  | GetStats "(string \<times> stat) list \<Rightarrow> ('d, 'c, 'r) proc"
  | PollDone goctx "bool \<Rightarrow> ('d, 'c, 'r) proc"
  | Select "wake \<Rightarrow> ('d, 'c, 'r) proc"
  | SelectCtx goctx "wake \<Rightarrow> ('d, 'c, 'r) proc" "dial_err \<Rightarrow> ('d, 'c, 'r) proc"

text \<open>Sequencing: run the first, then go on with what it returns.\<close>
primrec andthen :: "('d, 'c, 'r) proc \<Rightarrow> ('r \<Rightarrow> ('d, 'c, 's) proc) \<Rightarrow> ('d, 'c, 's) proc" where
  "andthen (Return r) f = f r"
| "andthen Panic f = Panic"
| "andthen (DialWs ctx a k) f = DialWs ctx a (\<lambda>x. andthen (k x) f)"
| "andthen (GoCloseWhenDone ctx st p) f = GoCloseWhenDone ctx st (andthen p f)"
| "andthen (ReadWs ctx k) f = ReadWs ctx (\<lambda>x. andthen (k x) f)"
| "andthen (WriteWs ctx m k) f = WriteWs ctx m (\<lambda>x. andthen (k x) f)"
| "andthen (CloseWs st p) f = CloseWs st (andthen p f)"
| "andthen (SendSlot s p) f = SendSlot s (andthen p f)"
| "andthen (NewPeerConnection ice k) f = NewPeerConnection ice (\<lambda>x. andthen (k x) f)"
| "andthen (CreateDataChannel k) f = CreateDataChannel (\<lambda>x. andthen (k x) f)"
| "andthen (DrawSeed k) f = DrawSeed (\<lambda>x. andthen (k x) f)"
| "andthen (ReadRand n k) f = ReadRand n (\<lambda>x. andthen (k x) f)"
| "andthen (OnICECandidate ctx key p) f = OnICECandidate ctx key (andthen p f)"
| "andthen (CreateOffer k) f = CreateOffer (\<lambda>x. andthen (k x) f)"
| "andthen (CreateAnswer k) f = CreateAnswer (\<lambda>x. andthen (k x) f)"
| "andthen (SetLocalDescription d k) f = SetLocalDescription d (\<lambda>x. andthen (k x) f)"
| "andthen (SetRemoteDescription d k) f = SetRemoteDescription d (\<lambda>x. andthen (k x) f)"
| "andthen (AddICECandidate c k) f = AddICECandidate c (\<lambda>x. andthen (k x) f)"
| "andthen (GoHandleRemoteCandidates ctx key p) f = GoHandleRemoteCandidates ctx key (andthen p f)"
| "andthen (GetStats k) f = GetStats (\<lambda>x. andthen (k x) f)"
| "andthen (PollDone ctx k) f = PollDone ctx (\<lambda>x. andthen (k x) f)"
| "andthen (Select k) f = Select (\<lambda>x. andthen (k x) f)"
| "andthen (SelectCtx ctx k d) f = SelectCtx ctx (\<lambda>x. andthen (k x) f) (\<lambda>e. andthen (d e) f)"

text \<open>\<open>return nil, err\<close>; and \<open>if err != nil { return nil, err }\<close> before going on with the value.\<close>
definition fail :: "dial_err \<Rightarrow> ('d, 'c, dial_err + 's) proc" where
  "fail e = Return (Inl e)"

definition orfail :: "dial_err + 'a \<Rightarrow> ('a \<Rightarrow> ('d, 'c, dial_err + 's) proc) \<Rightarrow> ('d, 'c, dial_err + 's) proc" where
  "orfail r k = (case r of Inl e \<Rightarrow> fail e | Inr x \<Rightarrow> k x)"

definition attempt ::
  "('d, 'c, dial_err + 'a) proc \<Rightarrow> ('a \<Rightarrow> ('d, 'c, dial_err + 's) proc) \<Rightarrow> ('d, 'c, dial_err + 's) proc" where
  "attempt p k = andthen p (\<lambda>r. orfail r k)"

text \<open>
  The program without its context: the operations wait for nothing but their own end, no goroutine
  closes the connection, and a wait is only for the WebRTC connection.
\<close>
primrec uncancelled :: "('d, 'c, 'r) proc \<Rightarrow> ('d, 'c, 'r) proc" where
  "uncancelled (Return r) = Return r"
| "uncancelled Panic = Panic"
| "uncancelled (DialWs ctx a k) = DialWs TODO a (\<lambda>x. uncancelled (k x))"
| "uncancelled (GoCloseWhenDone ctx st p) = uncancelled p"
| "uncancelled (ReadWs ctx k) = ReadWs TODO (\<lambda>x. uncancelled (k x))"
| "uncancelled (WriteWs ctx m k) = WriteWs TODO m (\<lambda>x. uncancelled (k x))"
| "uncancelled (CloseWs st p) = CloseWs st (uncancelled p)"
| "uncancelled (SendSlot s p) = SendSlot s (uncancelled p)"
| "uncancelled (NewPeerConnection ice k) = NewPeerConnection ice (\<lambda>x. uncancelled (k x))"
| "uncancelled (CreateDataChannel k) = CreateDataChannel (\<lambda>x. uncancelled (k x))"
| "uncancelled (DrawSeed k) = DrawSeed (\<lambda>x. uncancelled (k x))"
| "uncancelled (ReadRand n k) = ReadRand n (\<lambda>x. uncancelled (k x))"
| "uncancelled (OnICECandidate ctx key p) = OnICECandidate TODO key (uncancelled p)"
| "uncancelled (CreateOffer k) = CreateOffer (\<lambda>x. uncancelled (k x))"
| "uncancelled (CreateAnswer k) = CreateAnswer (\<lambda>x. uncancelled (k x))"
| "uncancelled (SetLocalDescription d k) = SetLocalDescription d (\<lambda>x. uncancelled (k x))"
| "uncancelled (SetRemoteDescription d k) = SetRemoteDescription d (\<lambda>x. uncancelled (k x))"
| "uncancelled (AddICECandidate c k) = AddICECandidate c (\<lambda>x. uncancelled (k x))"
| "uncancelled (GoHandleRemoteCandidates ctx key p) = GoHandleRemoteCandidates TODO key (uncancelled p)"
| "uncancelled (GetStats k) = GetStats (\<lambda>x. uncancelled (k x))"
| "uncancelled (PollDone ctx k) = uncancelled (k False)"
| "uncancelled (Select k) = Select (\<lambda>x. uncancelled (k x))"
| "uncancelled (SelectCtx ctx k d) = Select (\<lambda>x. uncancelled (k x))"

named_theorems proc_simps \<open>sequencing and error handling of the client\<close>

lemma andthen_assoc [proc_simps]: "andthen (andthen p f) g = andthen p (\<lambda>x. andthen (f x) g)"
  by (induction p) simp_all

lemma andthen_Return [simp]: "andthen p Return = p"
  by (induction p) simp_all

lemma orfail_simps [proc_simps]:
  "orfail (Inl e) k = Return (Inl e)" "orfail (Inr x) k = k x"
  by (simp_all add: orfail_def fail_def)

lemma andthen_orfail [proc_simps]:
  "andthen (orfail r k) f = (case r of Inl e \<Rightarrow> f (Inl e) | Inr x \<Rightarrow> andthen (k x) f)"
  by (cases r) (simp_all add: orfail_def fail_def)

lemma uncancelled_andthen [proc_simps]:
  "uncancelled (andthen p f) = andthen (uncancelled p) (\<lambda>x. uncancelled (f x))"
  by (induction p) simp_all

lemma uncancelled_attempt [proc_simps]:
  "uncancelled (attempt p k) = attempt (uncancelled p) (\<lambda>x. uncancelled (k x))"
proof -
  have "uncancelled (orfail r k) = orfail r (\<lambda>x. uncancelled (k x))" for r
    by (cases r) (simp_all add: orfail_def fail_def)
  then show ?thesis by (simp add: attempt_def uncancelled_andthen)
qed

lemma attempt_assoc [proc_simps]:
  "attempt (attempt p k) j = attempt p (\<lambda>x. attempt (k x) j)"
  by (simp add: attempt_def andthen_assoc andthen_orfail orfail_def fail_def sum.case_distrib[of "\<lambda>p. andthen p f" for f]
      cong: sum.case_cong)

end
