(* ===== verification/Base64.thy ===== *)
theory Base64
  imports Prelude
begin

text \<open>
  \<open>base64.URLEncoding\<close> of Go's standard library, as the signalling protocol uses it: padded, with
  line breaks ignored and trailing bits not checked when decoding. A decoding error is \<open>None\<close>;
  Go's partial output next to an error is never looked at.
\<close>

definition b64_char :: "nat \<Rightarrow> char" where
  "b64_char n = (if n < 26 then char_of (65 + n) else if n < 52 then char_of (71 + n)
     else if n < 62 then char_of (n - 4) else if n = 62 then CHR ''-'' else CHR ''_'')"

definition b64_val :: "char \<Rightarrow> nat option" where
  "b64_val c = (let x = of_char c :: nat in
     if 65 \<le> x \<and> x \<le> 90 then Some (x - 65)
     else if 97 \<le> x \<and> x \<le> 122 then Some (x - 71)
     else if 48 \<le> x \<and> x \<le> 57 then Some (x + 4)
     else if x = 45 then Some 62 else if x = 95 then Some 63 else None)"

fun EncodeToString :: "byte list \<Rightarrow> string" where
  "EncodeToString [] = []"
| "EncodeToString [a] =
     [b64_char (unat a div 4), b64_char (unat a mod 4 * 16), CHR ''='', CHR ''='']"
| "EncodeToString [a, b] =
     [b64_char (unat a div 4), b64_char (unat a mod 4 * 16 + unat b div 16),
      b64_char (unat b mod 16 * 4), CHR ''='']"
| "EncodeToString (a # b # c # bs) =
     [b64_char (unat a div 4), b64_char (unat a mod 4 * 16 + unat b div 16),
      b64_char (unat b mod 16 * 4 + unat c div 64), b64_char (unat c mod 64)] @ EncodeToString bs"

text \<open>The bytes of two, three and four sextets.\<close>
definition byte1 :: "nat \<Rightarrow> nat \<Rightarrow> byte" where "byte1 v w = of_nat (v * 4 + w div 16)"
definition byte2 :: "nat \<Rightarrow> nat \<Rightarrow> byte" where "byte2 w x = of_nat (w mod 16 * 16 + x div 4)"
definition byte3 :: "nat \<Rightarrow> nat \<Rightarrow> byte" where "byte3 x y = of_nat (x mod 4 * 64 + y)"

fun decode_quads :: "string \<Rightarrow> byte list option" where
  "decode_quads [] = Some []"
| "decode_quads (c0 # c1 # c2 # c3 # s) =
     (case (b64_val c0, b64_val c1) of
        (Some v, Some w) \<Rightarrow>
          if c2 = CHR ''='' then (if c3 = CHR ''='' \<and> s = [] then Some [byte1 v w] else None)
          else (case b64_val c2 of
              None \<Rightarrow> None
            | Some x \<Rightarrow>
                if c3 = CHR ''='' then (if s = [] then Some [byte1 v w, byte2 w x] else None)
                else (case b64_val c3 of
                    None \<Rightarrow> None
                  | Some y \<Rightarrow> map_option ((@) [byte1 v w, byte2 w x, byte3 x y]) (decode_quads s)))
      | _ \<Rightarrow> None)"
| "decode_quads _ = None"

definition is_break :: "char \<Rightarrow> bool" where
  "is_break c \<longleftrightarrow> c = char_of (10 :: nat) \<or> c = char_of (13 :: nat)"

definition DecodeString :: "string \<Rightarrow> byte list option" where
  "DecodeString s = decode_quads (filter (\<lambda>c. \<not> is_break c) s)"

lemma b64_code:
  assumes "n < 64"
  shows "of_char (b64_char n) = (if n < 26 then 65 + n else if n < 52 then 71 + n
    else if n < 62 then n - 4 else if n = 62 then 45 else 95 :: nat)"
  using assms by (simp add: b64_char_def of_char_of take_bit_nat_def)

lemma b64_cases:
  assumes "n < 64"
  shows "b64_val (b64_char n) = Some n \<and> b64_char n \<noteq> CHR ''='' \<and> \<not> is_break (b64_char n)"
proof (intro conjI)
  show "b64_val (b64_char n) = Some n"
    using assms by (auto simp: b64_val_def b64_code[OF assms] Let_def)
  have g: "of_char (b64_char n) \<noteq> (61 :: nat)" "of_char (b64_char n) \<noteq> (10 :: nat)"
    "of_char (b64_char n) \<noteq> (13 :: nat)" using assms unfolding b64_code[OF assms] by auto
  from g(1) show "b64_char n \<noteq> CHR ''=''" by auto
  from g show "\<not> is_break (b64_char n)" by (auto simp: is_break_def of_char_of take_bit_nat_def)
qed

lemma b64_simps [simp]:
  "n < 64 \<Longrightarrow> b64_val (b64_char n) = Some n" "n < 64 \<Longrightarrow> b64_char n \<noteq> CHR ''=''"
  "n < 64 \<Longrightarrow> \<not> is_break (b64_char n)"
  using b64_cases by auto

lemma byte_lt: "unat (a :: byte) < 256"
  using unsigned_less[of a] by simp

lemma sextets [simp]:
  "unat (a :: byte) div 4 < 64" "unat a mod 4 * 16 + unat (b :: byte) div 16 < 64" "unat a mod 4 * 16 < 64"
  "unat b mod 16 * 4 + unat (c :: byte) div 64 < 64" "unat b mod 16 * 4 < 64" "unat c mod 64 < 64"
  using byte_lt[of a] byte_lt[of b] byte_lt[of c] by auto

lemma byte_back:
  "byte1 (unat a div 4) (unat a mod 4 * 16 + unat b div 16) = a" "byte1 (unat a div 4) (unat a mod 4 * 16) = a"
  "byte2 (unat a mod 4 * 16 + unat b div 16) (unat b mod 16 * 4 + unat c div 64) = b"
  "byte2 (unat a mod 4 * 16 + unat b div 16) (unat b mod 16 * 4) = b"
  "byte3 (unat b mod 16 * 4 + unat c div 64) (unat c mod 64) = c"
proof -
  have b: "unat b div 16 < 16" "unat c div 64 < 4" using byte_lt[of b] byte_lt[of c] by auto
  have "unat a div 4 * 4 + (unat a mod 4 * 16 + unat b div 16) div 16 = unat a" using b by simp
  then show "byte1 (unat a div 4) (unat a mod 4 * 16 + unat b div 16) = a" by (simp add: byte1_def)
  have "unat a div 4 * 4 + (unat a mod 4 * 16) div 16 = unat a" by simp
  then show "byte1 (unat a div 4) (unat a mod 4 * 16) = a" by (simp add: byte1_def)
  have e: "(unat a mod 4 * 16 + unat b div 16) mod 16 = unat b div 16" using b by simp
  have "(unat b mod 16 * 4 + unat c div 64) div 4 = unat b mod 16" using b by simp
  with e show "byte2 (unat a mod 4 * 16 + unat b div 16) (unat b mod 16 * 4 + unat c div 64) = b"
    "byte2 (unat a mod 4 * 16 + unat b div 16) (unat b mod 16 * 4) = b" by (simp_all add: byte2_def)
  have "(unat b mod 16 * 4 + unat c div 64) mod 4 = unat c div 64" using b by simp
  then show "byte3 (unat b mod 16 * 4 + unat c div 64) (unat c mod 64) = c" by (simp add: byte3_def)
qed

lemma is_break_eq [simp]: "\<not> is_break (CHR ''='')"
  by code_simp

lemma encode_no_break: "filter (\<lambda>c. \<not> is_break c) (EncodeToString bs) = EncodeToString bs"
  by (induction bs rule: EncodeToString.induct) simp_all

lemma decode_encode: "decode_quads (EncodeToString bs) = Some bs"
  by (induction bs rule: EncodeToString.induct) (simp_all add: byte_back)

lemma DecodeString_Encode [simp]: "DecodeString (EncodeToString bs) = Some bs"
  by (simp add: DecodeString_def encode_no_break decode_encode)

end
