(* ===== verification/Handshake.thy ===== *)
theory Handshake
  imports Proc Base64
begin

text \<open>
  The signalling handshake of \<open>src/wormhole/dial.go\<close> and its context-aware copy
  \<open>src/wormhole/dial_ctx.go\<close>, statement by statement. \<open>New\<close> and \<open>Join\<close> return \<open>Inl err\<close> for
  \<open>nil, err\<close> and \<open>Inr e\<close> for a \<open>*Wormhole\<close> with the error \<open>e\<close>. A text message is the string of its
  bytes.
\<close>

definition Protocol :: string where "Protocol = ''4''"

section \<open>Messages\<close>

text \<open>
  \<open>encrypted[:24]\<close> and \<open>encrypted[24:]\<close> need 24 bytes: \<open>encrypted[24:]\<close> panics on a shorter slice.
\<close>
definition readEncJSON ::
  "('d, 'c) lib \<Rightarrow> byte list \<Rightarrow> (byte list \<Rightarrow> dial_err + 'v) \<Rightarrow> ('d, 'c, dial_err + 'v) proc" where
  "readEncJSON L key unmarshal =
     attempt (ReadWs TODO Return) (\<lambda>buf.
     (case DecodeString buf of
        None \<Rightarrow> fail (LibErr ''base64'')
      | Some encrypted \<Rightarrow>
          if length encrypted < 24 then Panic
          else (case box_Open L (drop 24 encrypted) (take 24 encrypted) key of
              None \<Rightarrow> fail ErrBadKey
            | Some jsonmsg \<Rightarrow> Return (unmarshal jsonmsg))))"

text \<open>The last argument is the result of \<open>json.Marshal(v)\<close>.\<close>
definition writeEncJSON ::
  "('d, 'c) lib \<Rightarrow> byte list \<Rightarrow> dial_err + byte list \<Rightarrow> ('d, 'c, dial_err + unit) proc" where
  "writeEncJSON L key marshalled =
     orfail marshalled (\<lambda>jsonmsg.
     attempt (ReadRand 24 Return) (\<lambda>nonce.
     WriteWs TODO (EncodeToString (nonce @ box_Seal L jsonmsg nonce key)) Return))"

definition readBase64 :: "('d, 'c, dial_err + byte list) proc" where
  "readBase64 =
     attempt (ReadWs TODO Return) (\<lambda>buf.
     (case DecodeString buf of None \<Rightarrow> fail (LibErr ''base64'') | Some p \<Rightarrow> Return (Inr p)))"

definition writeBase64 :: "byte list \<Rightarrow> ('d, 'c, dial_err + unit) proc" where
  "writeBase64 p = WriteWs TODO (EncodeToString p) Return"

definition readInitMsg :: "('d, 'c) lib \<Rightarrow> ('d, 'c, dial_err + string \<times> ICEServer list) proc" where
  "readInitMsg L = attempt (ReadWs TODO Return) (\<lambda>buf. Return (init_Unmarshal L buf))"

section \<open>The peer connection\<close>

definition newPeerConnection :: "ICEServer list \<Rightarrow> ('d, 'c, dial_err + unit) proc" where
  "newPeerConnection ice =
     attempt (NewPeerConnection ice Return) (\<lambda>_.
     attempt (CreateDataChannel Return) (\<lambda>_.
     Return (Inr ())))"

text \<open>\<open>stats\<close> is Go's map from identifiers; a failed type assertion skips the pair.\<close>
definition relayed :: "(string \<times> stat) list \<Rightarrow> bool" where
  "relayed stats \<longleftrightarrow>
     list_ex (\<lambda>(_, s). case s of
         CandidatePair nominated lid rid \<Rightarrow>
           nominated \<and>
           (case (map_of stats lid, map_of stats rid) of
              (Some (Candidate lrelay), Some (Candidate rrelay)) \<Rightarrow> rrelay \<or> lrelay
            | _ \<Rightarrow> False)
       | _ \<Rightarrow> False) stats"

definition IsRelay :: "('d, 'c, bool) proc" where
  "IsRelay = GetStats (\<lambda>stats. Return (relayed stats))"

text \<open>
  The callback on a local candidate, \<open>None\<close> when gathering ends; its errors are only logged.
\<close>
definition onICECandidate :: "('d, 'c) lib \<Rightarrow> byte list \<Rightarrow> 'c option \<Rightarrow> ('d, 'c, unit) proc" where
  "onICECandidate L key candidate =
     (case candidate of
        None \<Rightarrow> Return ()
      | Some c \<Rightarrow> andthen (writeEncJSON L key (cand_Marshal L c)) (\<lambda>_. Return ()))"

text \<open>The first \<open>n\<close> rounds of the goroutine's loop; \<open>True\<close> when it has returned.\<close>
primrec handleRemoteCandidates :: "('d, 'c) lib \<Rightarrow> byte list \<Rightarrow> nat \<Rightarrow> ('d, 'c, bool) proc" where
  "handleRemoteCandidates L key 0 = Return False"
| "handleRemoteCandidates L key (Suc n) =
     andthen (readEncJSON L key (cand_Unmarshal L)) (\<lambda>r. case r of
       Inl e \<Rightarrow> Return True
     | Inr candidate \<Rightarrow>
         AddICECandidate candidate (\<lambda>r'. case r' of
           Inl e \<Rightarrow> Return True
         | Inr _ \<Rightarrow> handleRemoteCandidates L key n))"

section \<open>The handshake\<close>

text \<open>\<open>u.Scheme\<close> of the signalling server's address becomes that of a WebSocket.\<close>
definition ws_scheme :: "URL \<Rightarrow> URL" where
  "ws_scheme u = u\<lparr>Scheme := if Scheme u = ''http'' \<or> Scheme u = ''ws'' then ''ws'' else ''wss''\<rparr>"

text \<open>The final \<open>select\<close>, the same text in \<open>New\<close> and \<open>Join\<close>.\<close>
definition await_open :: "('d, 'c, dial_err + dial_err option) proc" where
  "await_open =
     Select (\<lambda>w. case w of
       Opened \<Rightarrow>
         andthen IsRelay (\<lambda>relay.
         CloseWs (if relay then CloseWebRTCSuccessRelay else CloseWebRTCSuccessDirect) (Return (Inr None)))
     | Errored err \<Rightarrow> CloseWs CloseWebRTCFailed (Return (Inr (Some err)))
     | After30s \<Rightarrow> CloseWs CloseWebRTCFailed (Return (Inr (Some ErrTimedOut))))"

definition New :: "('d, 'c) lib \<Rightarrow> string \<Rightarrow> string \<Rightarrow> ('d, 'c, dial_err + dial_err option) proc" where
  "New L pass sigserv =
     orfail (url_Parse L sigserv) (\<lambda>u.
     attempt (DialWs TODO (url_String L (ws_scheme u)) Return) (\<lambda>_.
     andthen (readInitMsg L) (\<lambda>r.
     if close_status r = Some CloseWrongProto then fail ErrBadVersion else
     orfail r (\<lambda>(assignedSlot, iceServers).
     SendSlot assignedSlot (
     attempt (newPeerConnection iceServers) (\<lambda>_.
     attempt readBase64 (\<lambda>msgA.
     DrawSeed (\<lambda>seed.
     orfail (cpace_Exchange L seed pass msgA) (\<lambda>(msgB, mk).
     orfail (hkdf_key L mk) (\<lambda>key.
     attempt (writeBase64 msgB) (\<lambda>_.
     OnICECandidate TODO key (
     attempt (CreateOffer Return) (\<lambda>offer.
     attempt (writeEncJSON L key (sd_Marshal L offer)) (\<lambda>_.
     attempt (SetLocalDescription offer Return) (\<lambda>_.
     andthen (readEncJSON L key (sd_Unmarshal L)) (\<lambda>r.
     if close_status r = Some CloseBadKey then fail ErrBadKey else
     orfail r (\<lambda>answer.
     attempt (SetRemoteDescription answer Return) (\<lambda>_.
     GoHandleRemoteCandidates TODO key await_open))))))))))))))))))"

definition Join_slot :: "('d, 'c) lib \<Rightarrow> string \<Rightarrow> string \<Rightarrow> string \<Rightarrow> ('d, 'c, dial_err + dial_err option) proc" where
  "Join_slot L slot pass sigserv =
     orfail (url_Parse L sigserv) (\<lambda>u.
     let u = ws_scheme u; u = u\<lparr>UrlPath := UrlPath u @ slot\<rparr> in
     attempt (DialWs TODO (url_String L u) Return) (\<lambda>_.
     andthen (readInitMsg L) (\<lambda>r.
     if close_status r = Some CloseWrongProto then fail ErrBadVersion else
     orfail r (\<lambda>(_, iceServers).
     attempt (newPeerConnection iceServers) (\<lambda>_.
     DrawSeed (\<lambda>seed.
     orfail (cpace_Start L seed pass) (\<lambda>(msgA, Finish).
     attempt (writeBase64 msgA) (\<lambda>_.
     andthen readBase64 (\<lambda>r.
     if close_status r = Some CloseWrongProto then fail ErrBadVersion else
     orfail r (\<lambda>msgB.
     orfail (Finish msgB) (\<lambda>mk.
     orfail (hkdf_key L mk) (\<lambda>key.
     andthen (readEncJSON L key (sd_Unmarshal L)) (\<lambda>r.
     if r = Inl ErrBadKey then CloseWs CloseBadKey (fail ErrBadKey) else
     orfail r (\<lambda>offer.
     OnICECandidate TODO key (
     attempt (SetRemoteDescription offer Return) (\<lambda>_.
     attempt (CreateAnswer Return) (\<lambda>answer.
     attempt (writeEncJSON L key (sd_Marshal L answer)) (\<lambda>_.
     attempt (SetLocalDescription answer Return) (\<lambda>_.
     GoHandleRemoteCandidates TODO key await_open)))))))))))))))))))"

end
