(* ===== verification/HandshakeCtx.thy ===== *)
theory HandshakeCtx
  imports Handshake
begin

text \<open>
  The context-aware handshake, \<open>src/wormhole/dial_ctx.go\<close>. A goroutine that waits for the context to
  be done, then closes the WebSocket and the peer connection, is the effect \<open>GoCloseWhenDone\<close>.
\<close>

definition readEncJSONCtx ::
  "goctx \<Rightarrow> ('d, 'c) lib \<Rightarrow> byte list \<Rightarrow> (byte list \<Rightarrow> dial_err + 'v) \<Rightarrow> ('d, 'c, dial_err + 'v) proc" where
  "readEncJSONCtx ctx L key unmarshal =
     attempt (ReadWs ctx Return) (\<lambda>buf.
     (case DecodeString buf of
        None \<Rightarrow> fail (LibErr ''base64'')
      | Some encrypted \<Rightarrow>
          if length encrypted < 24 then Panic
          else (case box_Open L (drop 24 encrypted) (take 24 encrypted) key of
              None \<Rightarrow> fail ErrBadKey
            | Some jsonmsg \<Rightarrow> Return (unmarshal jsonmsg))))"

definition writeEncJSONCtx ::
  "goctx \<Rightarrow> ('d, 'c) lib \<Rightarrow> byte list \<Rightarrow> dial_err + byte list \<Rightarrow> ('d, 'c, dial_err + unit) proc" where
  "writeEncJSONCtx ctx L key marshalled =
     orfail marshalled (\<lambda>jsonmsg.
     attempt (ReadRand 24 Return) (\<lambda>nonce.
     WriteWs ctx (EncodeToString (nonce @ box_Seal L jsonmsg nonce key)) Return))"

definition readBase64Ctx :: "goctx \<Rightarrow> ('d, 'c, dial_err + byte list) proc" where
  "readBase64Ctx ctx =
     attempt (ReadWs ctx Return) (\<lambda>buf.
     (case DecodeString buf of None \<Rightarrow> fail (LibErr ''base64'') | Some p \<Rightarrow> Return (Inr p)))"

definition writeBase64Ctx :: "goctx \<Rightarrow> byte list \<Rightarrow> ('d, 'c, dial_err + unit) proc" where
  "writeBase64Ctx ctx p = WriteWs ctx (EncodeToString p) Return"

definition readInitMsgCtx :: "goctx \<Rightarrow> ('d, 'c) lib \<Rightarrow> ('d, 'c, dial_err + string \<times> ICEServer list) proc" where
  "readInitMsgCtx ctx L = attempt (ReadWs ctx Return) (\<lambda>buf. Return (init_Unmarshal L buf))"

definition onICECandidateCtx :: "goctx \<Rightarrow> ('d, 'c) lib \<Rightarrow> byte list \<Rightarrow> 'c option \<Rightarrow> ('d, 'c, unit) proc" where
  "onICECandidateCtx ctx L key candidate =
     (case candidate of
        None \<Rightarrow> Return ()
      | Some c \<Rightarrow> andthen (writeEncJSONCtx ctx L key (cand_Marshal L c)) (\<lambda>_. Return ()))"

primrec handleRemoteCandidatesCtx :: "goctx \<Rightarrow> ('d, 'c) lib \<Rightarrow> byte list \<Rightarrow> nat \<Rightarrow> ('d, 'c, bool) proc" where
  "handleRemoteCandidatesCtx ctx L key 0 = Return False"
| "handleRemoteCandidatesCtx ctx L key (Suc n) =
     PollDone ctx (\<lambda>d. if d then Return True else
     andthen (readEncJSONCtx ctx L key (cand_Unmarshal L)) (\<lambda>r. case r of
       Inl e \<Rightarrow> Return True
     | Inr candidate \<Rightarrow>
         AddICECandidate candidate (\<lambda>r'. case r' of
           Inl e \<Rightarrow> Return True
         | Inr _ \<Rightarrow> handleRemoteCandidatesCtx ctx L key n)))"

definition await_openCtx :: "goctx \<Rightarrow> ('d, 'c, dial_err + dial_err option) proc" where
  "await_openCtx ctx =
     SelectCtx ctx (\<lambda>w. case w of
       Opened \<Rightarrow>
         andthen IsRelay (\<lambda>relay.
         CloseWs (if relay then CloseWebRTCSuccessRelay else CloseWebRTCSuccessDirect) (Return (Inr None)))
     | Errored err \<Rightarrow> CloseWs CloseWebRTCFailed (Return (Inr (Some err)))
     | After30s \<Rightarrow> CloseWs CloseWebRTCFailed (Return (Inr (Some ErrTimedOut))))
     (\<lambda>err. Return (Inr (Some err)))"

definition NewCtx :: "goctx \<Rightarrow> ('d, 'c) lib \<Rightarrow> string \<Rightarrow> string \<Rightarrow> ('d, 'c, dial_err + dial_err option) proc" where
  "NewCtx ctx L pass sigserv =
     orfail (url_Parse L sigserv) (\<lambda>u.
     attempt (DialWs ctx (url_String L (ws_scheme u)) Return) (\<lambda>_.
     GoCloseWhenDone ctx CloseWebRTCFailed (
     andthen (readInitMsgCtx ctx L) (\<lambda>r.
     if close_status r = Some CloseWrongProto then fail ErrBadVersion else
     orfail r (\<lambda>(assignedSlot, iceServers).
     SendSlot assignedSlot (
     attempt (newPeerConnection iceServers) (\<lambda>_.
     attempt (readBase64Ctx ctx) (\<lambda>msgA.
     DrawSeed (\<lambda>seed.
     orfail (cpace_Exchange L seed pass msgA) (\<lambda>(msgB, mk).
     orfail (hkdf_key L mk) (\<lambda>key.
     attempt (writeBase64Ctx ctx msgB) (\<lambda>_.
     OnICECandidate ctx key (
     attempt (CreateOffer Return) (\<lambda>offer.
     attempt (writeEncJSONCtx ctx L key (sd_Marshal L offer)) (\<lambda>_.
     attempt (SetLocalDescription offer Return) (\<lambda>_.
     andthen (readEncJSONCtx ctx L key (sd_Unmarshal L)) (\<lambda>r.
     if close_status r = Some CloseBadKey then fail ErrBadKey else
     orfail r (\<lambda>answer.
     attempt (SetRemoteDescription answer Return) (\<lambda>_.
     GoHandleRemoteCandidates ctx key (await_openCtx ctx))))))))))))))))))))"

definition JoinCtx :: "goctx \<Rightarrow> ('d, 'c) lib \<Rightarrow> string \<Rightarrow> string \<Rightarrow> string \<Rightarrow> ('d, 'c, dial_err + dial_err option) proc" where
  "JoinCtx ctx L slot pass sigserv =
     orfail (url_Parse L sigserv) (\<lambda>u.
     let u = ws_scheme u; u = u\<lparr>UrlPath := UrlPath u @ slot\<rparr> in
     attempt (DialWs ctx (url_String L u) Return) (\<lambda>_.
     GoCloseWhenDone ctx CloseWebRTCFailed (
     andthen (readInitMsgCtx ctx L) (\<lambda>r.
     if close_status r = Some CloseWrongProto then fail ErrBadVersion else
     orfail r (\<lambda>(_, iceServers).
     attempt (newPeerConnection iceServers) (\<lambda>_.
     DrawSeed (\<lambda>seed.
     orfail (cpace_Start L seed pass) (\<lambda>(msgA, Finish).
     attempt (writeBase64Ctx ctx msgA) (\<lambda>_.
     andthen (readBase64Ctx ctx) (\<lambda>r.
     if close_status r = Some CloseWrongProto then fail ErrBadVersion else
     orfail r (\<lambda>msgB.
     orfail (Finish msgB) (\<lambda>mk.
     orfail (hkdf_key L mk) (\<lambda>key.
     andthen (readEncJSONCtx ctx L key (sd_Unmarshal L)) (\<lambda>r.
     if r = Inl ErrBadKey then CloseWs CloseBadKey (fail ErrBadKey) else
     orfail r (\<lambda>offer.
     OnICECandidate ctx key (
     attempt (SetRemoteDescription offer Return) (\<lambda>_.
     attempt (CreateAnswer Return) (\<lambda>answer.
     attempt (writeEncJSONCtx ctx L key (sd_Marshal L answer)) (\<lambda>_.
     attempt (SetLocalDescription answer Return) (\<lambda>_.
     GoHandleRemoteCandidates ctx key (await_openCtx ctx)))))))))))))))))))))"

section \<open>The two versions agree\<close>

lemma uncancelled_orfail [proc_simps]:
  "uncancelled (orfail r k) = orfail r (\<lambda>x. uncancelled (k x))"
  by (cases r) (simp_all add: orfail_def fail_def)

lemma uncancelled_fail [proc_simps]: "uncancelled (fail e) = fail e"
  by (simp add: fail_def)

lemma uncancelled_if [proc_simps]:
  "uncancelled (if b then p else q) = (if b then uncancelled p else uncancelled q)"
  by simp

lemma uncancelled_cases [proc_simps]:
  "uncancelled (case x of None \<Rightarrow> p | Some a \<Rightarrow> f a) = (case x of None \<Rightarrow> uncancelled p | Some a \<Rightarrow> uncancelled (f a))"
  "uncancelled (case y of (a, b) \<Rightarrow> g a b) = (case y of (a, b) \<Rightarrow> uncancelled (g a b))"
  "uncancelled (case w of Opened \<Rightarrow> p1 | Errored e \<Rightarrow> h e | After30s \<Rightarrow> p2)
     = (case w of Opened \<Rightarrow> uncancelled p1 | Errored e \<Rightarrow> uncancelled (h e) | After30s \<Rightarrow> uncancelled p2)"
  by (auto split: option.splits prod.splits wake.splits)

lemma uncancelled_messages [proc_simps]:
  "uncancelled (readEncJSONCtx ctx L key u) = readEncJSON L key u"
  "uncancelled (writeEncJSONCtx ctx L key m) = writeEncJSON L key m"
  "uncancelled (readBase64Ctx ctx) = readBase64"
  "uncancelled (writeBase64Ctx ctx p) = writeBase64 p"
  "uncancelled (readInitMsgCtx ctx L) = readInitMsg L"
  "uncancelled (newPeerConnection ice) = newPeerConnection ice"
  "uncancelled (await_openCtx ctx) = await_open"
  by (simp_all add: readEncJSONCtx_def readEncJSON_def writeEncJSONCtx_def writeEncJSON_def readBase64Ctx_def
      readBase64_def writeBase64Ctx_def writeBase64_def readInitMsgCtx_def readInitMsg_def newPeerConnection_def
      await_openCtx_def await_open_def IsRelay_def proc_simps cong: option.case_cong wake.case_cong if_cong)

lemma uncancelled_programs:
  "uncancelled (NewCtx ctx L pass sigserv) = New L pass sigserv"
  "uncancelled (JoinCtx ctx L slot pass sigserv) = Join_slot L slot pass sigserv"
  by (simp_all add: NewCtx_def New_def JoinCtx_def Join_slot_def proc_simps Let_def cong: if_cong)

text \<open>
  C17. The context-aware handshake is a faithful copy: without its context \<open>NewCtx\<close> is \<open>New\<close>, effect
  for effect, and \<open>JoinCtx\<close> is \<open>Join\<close>.
\<close>
theorem ctx_versions_agree:
  "uncancelled (NewCtx ctx L pass sigserv) = New L pass sigserv \<and>
   uncancelled (JoinCtx ctx L slot pass sigserv) = Join_slot L slot pass sigserv"
  by (simp add: uncancelled_programs)

lemma candidates_agree [proc_simps]:
  "uncancelled (handleRemoteCandidatesCtx ctx L key n) = handleRemoteCandidates L key n"
  by (induction n) (auto simp: proc_simps fun_eq_iff split: sum.splits intro!: arg_cong[of _ _ "andthen (readEncJSON L key (cand_Unmarshal L))"])

end
