(* ===== verification/Tables.thy ===== *)
theory Tables
  imports GoStrings "HOL-Library.Multiset"
begin

text \<open>
  The two word tables of \<open>src/wordlist/wordlist.go\<close>, word for word: 512 words each, two for every
  byte value, the even-indexed one for even positions of a code and the odd-indexed one for odd
  positions. Each table is given in eighths, which keeps the terms the simplifier works on small.
  What the codecs need of a table is stated once as \<open>word_table\<close>: its length, that its words are
  lower-case ASCII, and that no word occurs twice. The last is checked on numeric keys: the even and
  the odd words of a table are each sorted but for one neighbouring pair, so one merge pass over
  both decides it.
\<close>

definition enWords_1 :: "string list" where
  "enWords_1 =
    [''acorn'', ''acre'', ''acts'', ''afar'', ''affix'', ''aged'',
     ''agent'', ''agile'', ''aging'', ''agony'', ''aide'', ''aids'',
     ''aim'', ''alarm'', ''alike'', ''alive'', ''aloe'', ''aloft'',
     ''alone'', ''amend'', ''ample'', ''amuse'', ''angel'', ''anger'',
     ''apple'', ''april'', ''apron'', ''area'', ''argue'', ''armed'',
     ''armor'', ''army'', ''arson'', ''art'', ''atlas'', ''atom'',
     ''avert'', ''avoid'', ''axis'', ''bacon'', ''baker'', ''balmy'',
     ''barn'', ''basil'', ''baton'', ''bats'', ''blank'', ''blast'',
     ''blend'', ''blimp'', ''blob'', ''blog'', ''blurt'', ''boil'',
     ''bok'', ''bolt'', ''bony'', ''bribe'', ''bring'', ''broad'',
     ''broil'', ''broke'', ''bud'', ''bunch'']"

definition enWords_2 :: "string list" where
  "enWords_2 =
    [''bunt'', ''bust'', ''calm'', ''canal'', ''candy'', ''card'',
     ''case'', ''cedar'', ''chump'', ''civic'', ''civil'', ''clamp'',
     ''clasp'', ''class'', ''clay'', ''clear'', ''cleft'', ''clerk'',
     ''cling'', ''clip'', ''cold'', ''come'', ''comic'', ''cork'',
     ''cost'', ''cover'', ''craft'', ''cramp'', ''crank'', ''crisp'',
     ''crop'', ''crown'', ''crust'', ''cub'', ''cupid'', ''cure'',
     ''curl'', ''cut'', ''cycle'', ''dab'', ''dad'', ''dart'',
     ''deal'', ''debt'', ''debug'', ''decaf'', ''decal'', ''decor'',
     ''dent'', ''dig'', ''dimly'', ''ditch'', ''doing'', ''donor'',
     ''down'', ''drab'', ''drank'', ''dress'', ''drift'', ''drill'',
     ''drum'', ''dry'', ''dust'', ''early'']"

definition enWords_3 :: "string list" where
  "enWords_3 =
    [''earth'', ''east'', ''eaten'', ''ebony'', ''echo'', ''edge'',
     ''eel'', ''elder'', ''elf'', ''elk'', ''elm'', ''elude'',
     ''elves'', ''email'', ''emit'', ''empty'', ''emu'', ''enter'',
     ''envoy'', ''equal'', ''erase'', ''error'', ''erupt'', ''evade'',
     ''even'', ''evict'', ''evil'', ''evoke'', ''fable'', ''fact'',
     ''fall'', ''fang'', ''femur'', ''fend'', ''fetal'', ''fetch'',
     ''fever'', ''fifth'', ''film'', ''final'', ''fit'', ''five'',
     ''flag'', ''fled'', ''fling'', ''flint'', ''flip'', ''flirt'',
     ''flyer'', ''foam'', ''fox'', ''frail'', ''fray'', ''fresh'',
     ''from'', ''front'', ''frost'', ''fruit'', ''gap'', ''gas'',
     ''gem'', ''genre'', ''gift'', ''given'']"

definition enWords_4 :: "string list" where
  "enWords_4 =
    [''giver'', ''glad'', ''glass'', ''goal'', ''golf'', ''gong'',
     ''grab'', ''grant'', ''grasp'', ''grass'', ''green'', ''grew'',
     ''grid'', ''grill'', ''gut'', ''habit'', ''halt'', ''harm'',
     ''hasty'', ''hatch'', ''haven'', ''hazel'', ''help'', ''herbs'',
     ''hers'', ''hub'', ''hug'', ''hull'', ''human'', ''hump'',
     ''hung'', ''hunt'', ''hurry'', ''hurt'', ''hut'', ''ice'',
     ''icing'', ''icon'', ''igloo'', ''image'', ''ion'', ''iron'',
     ''item'', ''ivory'', ''ivy'', ''jam'', ''jet'', ''job'',
     ''jog'', ''jolt'', ''judge'', ''july'', ''jump'', ''junky'',
     ''jury'', ''keep'', ''keg'', ''kept'', ''kilt'', ''king'',
     ''kite'', ''knee'', ''knelt'', ''koala'']"

definition enWords_5 :: "string list" where
  "enWords_5 =
    [''ladle'', ''lake'', ''land'', ''last'', ''latch'', ''left'',
     ''legal'', ''lens'', ''level'', ''lid'', ''lilac'', ''lily'',
     ''limb'', ''line'', ''lip'', ''liver'', ''lunar'', ''lure'',
     ''lurk'', ''maker'', ''mango'', ''manor'', ''map'', ''march'',
     ''mardi'', ''marry'', ''match'', ''malt'', ''mom'', ''most'',
     ''motor'', ''mount'', ''mud'', ''mug'', ''mulch'', ''mule'',
     ''mumbo'', ''mural'', ''nag'', ''nail'', ''name'', ''nap'',
     ''near'', ''nerd'', ''net'', ''next'', ''ninth'', ''oak'',
     ''oat'', ''ocean'', ''oil'', ''old'', ''olive'', ''omen'',
     ''only'', ''open'', ''opera'', ''opt'', ''ounce'', ''outer'',
     ''oval'', ''pagan'', ''palm'', ''pants'']"

definition enWords_6 :: "string list" where
  "enWords_6 =
    [''paper'', ''park'', ''party'', ''patch'', ''pep'', ''perm'',
     ''pest'', ''petal'', ''petri'', ''plank'', ''plant'', ''plot'',
     ''plus'', ''pod'', ''poem'', ''poker'', ''polar'', ''pond'',
     ''prank'', ''print'', ''prism'', ''proof'', ''props'', ''pry'',
     ''pug'', ''pull'', ''pulp'', ''punk'', ''pupil'', ''quake'',
     ''query'', ''quill'', ''quit'', ''rabid'', ''radar'', ''raft'',
     ''ramp'', ''rank'', ''rant'', ''recap'', ''relax'', ''reply'',
     ''rerun'', ''rigor'', ''ritzy'', ''river'', ''robin'', ''rope'',
     ''rug'', ''ruin'', ''rule'', ''rust'', ''rut'', ''salt'',
     ''same'', ''scale'', ''scan'', ''scold'', ''score'', ''scorn'',
     ''scrap'', ''sect'', ''self'', ''send'']"

definition enWords_7 :: "string list" where
  "enWords_7 =
    [''set'', ''seven'', ''share'', ''shirt'', ''shrug'', ''silk'',
     ''silo'', ''sip'', ''siren'', ''skip'', ''skirt'', ''sky'',
     ''slam'', ''slang'', ''slept'', ''slurp'', ''small'', ''smirk'',
     ''smog'', ''snap'', ''snare'', ''snarl'', ''snort'', ''speak'',
     ''spent'', ''spill'', ''sport'', ''spot'', ''spur'', ''stamp'',
     ''stand'', ''stark'', ''start'', ''stem'', ''sting'', ''stir'',
     ''stole'', ''stop'', ''storm'', ''suds'', ''surf'', ''swirl'',
     ''tag'', ''tall'', ''talon'', ''tamer'', ''tank'', ''taper'',
     ''taps'', ''tart'', ''taste'', ''theft'', ''thumb'', ''tidal'',
     ''tidy'', ''tiger'', ''tilt'', ''tint'', ''tiny'', ''train'',
     ''trap'', ''trek'', ''trend'', ''trial'']"

definition enWords_8 :: "string list" where
  "enWords_8 =
    [''trunk'', ''try'', ''tulip'', ''tutor'', ''uncle'', ''uncut'',
     ''unify'', ''union'', ''unit'', ''upon'', ''upper'', ''urban'',
     ''used'', ''user'', ''utter'', ''value'', ''vapor'', ''vegan'',
     ''venue'', ''vest'', ''vice'', ''viral'', ''virus'', ''visor'',
     ''vocal'', ''void'', ''volt'', ''voter'', ''wad'', ''wafer'',
     ''wager'', ''wagon'', ''walk'', ''wasp'', ''watch'', ''water'',
     ''widen'', ''wife'', ''wilt'', ''wind'', ''wing'', ''wiry'',
     ''wok'', ''wolf'', ''womb'', ''wool'', ''word'', ''work'',
     ''woven'', ''wrist'', ''xerox'', ''yam'', ''yard'', ''year'',
     ''yeast'', ''yelp'', ''yield'', ''yodel'', ''yoga'', ''zebra'',
     ''zero'', ''zesty'', ''zippy'', ''zone'']"

definition enWords :: "string list" where
  "enWords = enWords_1 @ enWords_2 @ enWords_3 @ enWords_4
     @ enWords_5 @ enWords_6 @ enWords_7 @ enWords_8"

definition pgpWords_1 :: "string list" where
  "pgpWords_1 =
    [''aardvark'', ''adroitness'', ''absurd'', ''adviser'',
     ''accrue'', ''aftermath'', ''acme'', ''aggregate'',
     ''adrift'', ''alkali'', ''adult'', ''almighty'',
     ''afflict'', ''amulet'', ''ahead'', ''amusement'',
     ''aimless'', ''antenna'', ''algol'', ''applicant'',
     ''allow'', ''apollo'', ''alone'', ''armistice'',
     ''ammo'', ''article'', ''ancient'', ''asteroid'',
     ''apple'', ''atlantic'', ''artist'', ''atmosphere'',
     ''assume'', ''autopsy'', ''athens'', ''babylon'',
     ''atlas'', ''backwater'', ''aztec'', ''barbecue'',
     ''baboon'', ''belowground'', ''backfield'', ''bifocals'',
     ''backward'', ''bodyguard'', ''banjo'', ''bookseller'',
     ''beaming'', ''borderline'', ''bedlamp'', ''bottomless'',
     ''beehive'', ''bradbury'', ''beeswax'', ''bravado'',
     ''befriend'', ''brazilian'', ''belfast'', ''breakaway'',
     ''berserk'', ''burlington'', ''billiard'', ''businessman'']"

definition pgpWords_2 :: "string list" where
  "pgpWords_2 =
    [''bison'', ''butterfat'', ''blackjack'', ''camelot'',
     ''blockade'', ''candidate'', ''blowtorch'', ''cannonball'',
     ''bluebird'', ''capricorn'', ''bombast'', ''caravan'',
     ''bookshelf'', ''caretaker'', ''brackish'', ''celebrate'',
     ''breadline'', ''cellulose'', ''breakup'', ''certify'',
     ''brickyard'', ''chambermaid'', ''briefcase'', ''cherokee'',
     ''burbank'', ''chicago'', ''button'', ''clergyman'',
     ''buzzard'', ''coherence'', ''cement'', ''combustion'',
     ''chairlift'', ''commando'', ''chatter'', ''company'',
     ''checkup'', ''component'', ''chisel'', ''concurrent'',
     ''choking'', ''confidence'', ''chopper'', ''conformist'',
     ''christmas'', ''congregate'', ''clamshell'', ''consensus'',
     ''classic'', ''consulting'', ''classroom'', ''corporate'',
     ''cleanup'', ''corrosion'', ''clockwork'', ''councilman'',
     ''cobra'', ''crossover'', ''commence'', ''crucifix'',
     ''concert'', ''cumbersome'', ''cowbell'', ''customer'']"

definition pgpWords_3 :: "string list" where
  "pgpWords_3 =
    [''crackdown'', ''dakota'', ''cranky'', ''decadence'',
     ''crowfoot'', ''december'', ''crucial'', ''decimal'',
     ''crumpled'', ''designing'', ''crusade'', ''detector'',
     ''cubic'', ''detergent'', ''dashboard'', ''determine'',
     ''deadbolt'', ''dictator'', ''deckhand'', ''dinosaur'',
     ''dogsled'', ''direction'', ''dragnet'', ''disable'',
     ''drainage'', ''disbelief'', ''dreadful'', ''disruptive'',
     ''drifter'', ''distortion'', ''dropper'', ''document'',
     ''drumbeat'', ''embezzle'', ''drunken'', ''enchanting'',
     ''dupont'', ''enrollment'', ''dwelling'', ''enterprise'',
     ''eating'', ''equation'', ''edict'', ''equipment'',
     ''egghead'', ''escapade'', ''eightball'', ''eskimo'',
     ''endorse'', ''everyday'', ''endow'', ''examine'',
     ''enlist'', ''existence'', ''erase'', ''exodus'',
     ''escape'', ''fascinate'', ''exceed'', ''filament'',
     ''eyeglass'', ''finicky'', ''eyetooth'', ''forever'']"

definition pgpWords_4 :: "string list" where
  "pgpWords_4 =
    [''facial'', ''fortitude'', ''fallout'', ''frequency'',
     ''flagpole'', ''gadgetry'', ''flatfoot'', ''galveston'',
     ''flytrap'', ''getaway'', ''fracture'', ''glossary'',
     ''framework'', ''gossamer'', ''freedom'', ''graduate'',
     ''frighten'', ''gravity'', ''gazelle'', ''guitarist'',
     ''geiger'', ''hamburger'', ''glitter'', ''hamilton'',
     ''glucose'', ''handiwork'', ''goggles'', ''hazardous'',
     ''goldfish'', ''headwaters'', ''gremlin'', ''hemisphere'',
     ''guidance'', ''hesitate'', ''hamlet'', ''hideaway'',
     ''highchair'', ''holiness'', ''hockey'', ''hurricane'',
     ''indoors'', ''hydraulic'', ''indulge'', ''impartial'',
     ''inverse'', ''impetus'', ''involve'', ''inception'',
     ''island'', ''indigo'', ''jawbone'', ''inertia'',
     ''keyboard'', ''infancy'', ''kickoff'', ''inferno'',
     ''kiwi'', ''informant'', ''klaxon'', ''insincere'',
     ''locale'', ''insurgent'', ''lockup'', ''integrate'']"

definition pgpWords_5 :: "string list" where
  "pgpWords_5 =
    [''merit'', ''intention'', ''minnow'', ''inventive'',
     ''miser'', ''istanbul'', ''mohawk'', ''jamaica'',
     ''mural'', ''jupiter'', ''music'', ''leprosy'',
     ''necklace'', ''letterhead'', ''neptune'', ''liberty'',
     ''newborn'', ''maritime'', ''nightbird'', ''matchmaker'',
     ''oakland'', ''maverick'', ''obtuse'', ''medusa'',
     ''offload'', ''megaton'', ''optic'', ''microscope'',
     ''orca'', ''microwave'', ''payday'', ''midsummer'',
     ''peachy'', ''millionaire'', ''pheasant'', ''miracle'',
     ''physique'', ''misnomer'', ''playhouse'', ''molasses'',
     ''pluto'', ''molecule'', ''preclude'', ''montana'',
     ''prefer'', ''monument'', ''preshrunk'', ''mosquito'',
     ''printer'', ''narrative'', ''prowler'', ''nebula'',
     ''pupil'', ''newsletter'', ''puppy'', ''norwegian'',
     ''python'', ''october'', ''quadrant'', ''ohio'',
     ''quiver'', ''onlooker'', ''quota'', ''opulent'']"

definition pgpWords_6 :: "string list" where
  "pgpWords_6 =
    [''ragtime'', ''orlando'', ''ratchet'', ''outfielder'',
     ''rebirth'', ''pacific'', ''reform'', ''pandemic'',
     ''regain'', ''pandora'', ''reindeer'', ''paperweight'',
     ''rematch'', ''paragon'', ''repay'', ''paragraph'',
     ''retouch'', ''paramount'', ''revenge'', ''passenger'',
     ''reward'', ''pedigree'', ''rhythm'', ''pegasus'',
     ''ribcage'', ''penetrate'', ''ringbolt'', ''perceptive'',
     ''robust'', ''performance'', ''rocker'', ''pharmacy'',
     ''ruffled'', ''phonetic'', ''sailboat'', ''photograph'',
     ''sawdust'', ''pioneer'', ''scallion'', ''pocketful'',
     ''scenic'', ''politeness'', ''scorecard'', ''positive'',
     ''scotland'', ''potato'', ''seabird'', ''processor'',
     ''select'', ''provincial'', ''sentence'', ''proximate'',
     ''shadow'', ''puberty'', ''shamrock'', ''publisher'',
     ''showgirl'', ''pyramid'', ''skullcap'', ''quantity'',
     ''skydive'', ''racketeer'', ''slingshot'', ''rebellion'']"

definition pgpWords_7 :: "string list" where
  "pgpWords_7 =
    [''slowdown'', ''recipe'', ''snapline'', ''recover'',
     ''snapshot'', ''repellent'', ''snowcap'', ''replica'',
     ''snowslide'', ''reproduce'', ''solo'', ''resistor'',
     ''southward'', ''responsive'', ''soybean'', ''retraction'',
     ''spaniel'', ''retrieval'', ''spearhead'', ''retrospect'',
     ''spellbind'', ''revenue'', ''spheroid'', ''revival'',
     ''spigot'', ''revolver'', ''spindle'', ''sandalwood'',
     ''spyglass'', ''sardonic'', ''stagehand'', ''saturday'',
     ''stagnate'', ''savagery'', ''stairway'', ''scavenger'',
     ''standard'', ''sensation'', ''stapler'', ''sociable'',
     ''steamship'', ''souvenir'', ''sterling'', ''specialist'',
     ''stockman'', ''speculate'', ''stopwatch'', ''stethoscope'',
     ''stormy'', ''stupendous'', ''sugar'', ''supportive'',
     ''surmount'', ''surrender'', ''suspense'', ''suspicious'',
     ''sweatband'', ''sympathy'', ''swelter'', ''tambourine'',
     ''tactics'', ''telephone'', ''talon'', ''therapist'']"

definition pgpWords_8 :: "string list" where
  "pgpWords_8 =
    [''tapeworm'', ''tobacco'', ''tempest'', ''tolerance'',
     ''tiger'', ''tomorrow'', ''tissue'', ''torpedo'',
     ''tonic'', ''tradition'', ''topmost'', ''travesty'',
     ''tracker'', ''trombonist'', ''transit'', ''truncated'',
     ''trauma'', ''typewriter'', ''treadmill'', ''ultimate'',
     ''trojan'', ''undaunted'', ''trouble'', ''underfoot'',
     ''tumor'', ''unicorn'', ''tunnel'', ''unify'',
     ''tycoon'', ''universe'', ''uncut'', ''unravel'',
     ''unearth'', ''upcoming'', ''unwind'', ''vacancy'',
     ''uproot'', ''vagabond'', ''upset'', ''vertigo'',
     ''upshot'', ''virginia'', ''vapor'', ''visitor'',
     ''village'', ''vocalist'', ''virus'', ''voyager'',
     ''vulcan'', ''warranty'', ''waffle'', ''waterloo'',
     ''wallet'', ''whimsical'', ''watchword'', ''wichita'',
     ''wayside'', ''wilmington'', ''willow'', ''wyoming'',
     ''woodlark'', ''yesteryear'', ''zulu'', ''yucatan'']"

definition pgpWords :: "string list" where
  "pgpWords = pgpWords_1 @ pgpWords_2 @ pgpWords_3 @ pgpWords_4
     @ pgpWords_5 @ pgpWords_6 @ pgpWords_7 @ pgpWords_8"

lemmas enWords_defs = enWords_1_def enWords_2_def enWords_3_def enWords_4_def
  enWords_5_def enWords_6_def enWords_7_def enWords_8_def

lemmas pgpWords_defs = pgpWords_1_def pgpWords_2_def pgpWords_3_def pgpWords_4_def
  pgpWords_5_def pgpWords_6_def pgpWords_7_def pgpWords_8_def

definition word_table :: "string list \<Rightarrow> bool" where
  "word_table list \<longleftrightarrow> length list = 512 \<and> list_all lower_word list \<and> distinct list"

section \<open>Deciding distinctness\<close>

text \<open>The first seven letters as a number that orders words alphabetically.\<close>
definition key :: "string \<Rightarrow> nat" where
  "key w = foldl (\<lambda>n c. 32 * n + (byte_val c - 96)) 0 (take 7 (w @ ''```````''))"

fun evens :: "'a list \<Rightarrow> 'a list" where
  "evens (x # y # r) = x # evens r"
| "evens xs = xs"

fun odds :: "'a list \<Rightarrow> 'a list" where
  "odds (x # y # r) = y # odds r"
| "odds xs = []"

text \<open>One pass from the right that carries an element to the left past every larger one.\<close>
fun swap_in :: "nat \<Rightarrow> nat list \<Rightarrow> nat list" where
  "swap_in x (y # ys) = (if x \<le> y then x # y # ys else y # x # ys)"
| "swap_in x [] = [x]"

fun bubble :: "nat list \<Rightarrow> nat list" where
  "bubble [] = []"
| "bubble (x # xs) = swap_in x (bubble xs)"

text \<open>The merge of two lists is strictly ascending from \<open>k\<close>.\<close>
fun walk :: "nat \<Rightarrow> nat list \<Rightarrow> nat list \<Rightarrow> bool" where
  "walk k (x # xs) (y # ys) =
     (if x < y then k < x \<and> walk x xs (y # ys) else k < y \<and> walk y (x # xs) ys)"
| "walk k (x # xs) [] = (k < x \<and> walk x xs [])"
| "walk k [] (y # ys) = (k < y \<and> walk y [] ys)"
| "walk k [] [] = True"

lemma walk_distinct: "walk k xs ys \<Longrightarrow> distinct (xs @ ys) \<and> (\<forall>z \<in> set (xs @ ys). k < z)"
proof (induction k xs ys rule: walk.induct)
  case (1 k x xs y ys)
  show ?case
  proof (cases "x < y")
    case True
    with 1 show ?thesis by (auto dest: order.strict_trans)
  next
    case False
    with 1 show ?thesis by (auto dest: order.strict_trans)
  qed
qed auto

lemma mset_evens_odds: "mset (evens xs) + mset (odds xs) = mset xs"
  by (induction xs rule: evens.induct) auto

lemma mset_swap_in: "mset (swap_in x ys) = add_mset x (mset ys)"
  by (cases ys) auto

lemma mset_bubble: "mset (bubble xs) = mset xs"
  by (induction xs) (auto simp: mset_swap_in)

lemma distinct_by_walk:
  assumes "walk 0 (bubble (evens (map key ws))) (bubble (odds (map key ws)))"
  shows "distinct ws"
proof -
  have "mset (bubble (evens (map key ws)) @ bubble (odds (map key ws))) = mset (map key ws)"
    by (simp only: mset_append mset_bubble mset_evens_odds)
  then have "distinct (map key ws)"
    using walk_distinct[OF assms] by (metis mset_eq_imp_distinct_iff)
  then show ?thesis by (simp add: distinct_map)
qed

section \<open>Both tables qualify\<close>

lemma length_enWords [simp]: "length enWords = 512"
  by (simp add: enWords_def enWords_defs)

lemma length_pgpWords [simp]: "length pgpWords = 512"
  by (simp add: pgpWords_def pgpWords_defs)

lemma lower_enWords: "list_all lower_word enWords"
  by (simp add: enWords_def enWords_defs lower_word_def is_lower_def)

lemma lower_pgpWords: "list_all lower_word pgpWords"
  by (simp add: pgpWords_def pgpWords_defs lower_word_def is_lower_def)

lemma distinct_enWords: "distinct enWords"
  by (rule distinct_by_walk) (simp add: enWords_def enWords_defs key_def)

lemma distinct_pgpWords: "distinct pgpWords"
  by (rule distinct_by_walk) (simp add: pgpWords_def pgpWords_defs key_def)

lemma word_table_enWords: "word_table enWords"
  by (simp add: word_table_def lower_enWords distinct_enWords)

lemma word_table_pgpWords: "word_table pgpWords"
  by (simp add: word_table_def lower_pgpWords distinct_pgpWords)

end
