(* ===== verification/Wordlist.thy ===== *)
theory Wordlist
  imports Tables
begin

text \<open>
  Wormhole codes, \<open>src/wordlist/wordlist.go\<close>: a code carries the slot number of the rendezvous
  server and the one-time password. The Go interface \<open>encoding\<close> has three implementations; its
  values are the datatype \<open>encoding\<close>, its methods dispatch on it, and the contract the package
  relies on is the locale \<open>code_book\<close>, interpreted on each implementation. A \<open>nil\<close> password, the
  mark of an invalid code, is \<open>None\<close>.
\<close>

section \<open>The codecs\<close>

text \<open>Both separators become spaces, then the code is split into fields.\<close>
definition code_parts :: "string \<Rightarrow> string list" where
  "code_parts code =
     (let code = ReplaceAll1 (CHR ''-'') (CHR '' '') code;
          code = ReplaceAll1 (CHR ''+'') (CHR '' '') code
      in Fields code)"

text \<open>\<open>indexOf\<close>: the first index whose word equals \<open>word\<close> up to case, or \<open>-1\<close>.\<close>
fun indexOf_from :: "nat \<Rightarrow> string list \<Rightarrow> string \<Rightarrow> int" where
  "indexOf_from i [] word = -1"
| "indexOf_from i (w # ws) word = (if EqualFold word w then int i else indexOf_from (Suc i) ws word)"

definition indexOf :: "string list \<Rightarrow> string \<Rightarrow> int" where
  "indexOf list word = indexOf_from 0 list word"

fun first_with_prefix :: "string list \<Rightarrow> string \<Rightarrow> string" where
  "first_with_prefix [] pre = []"
| "first_with_prefix (w # ws) pre = (if HasPrefix w pre then w else first_with_prefix ws pre)"

definition match_word :: "string list \<Rightarrow> string \<Rightarrow> string" where
  "match_word list pre = (if pre = [] then [] else first_with_prefix list pre)"

text \<open>The words of a byte sequence whose first byte stands at position \<open>i\<close>.\<close>
fun code_words :: "string list \<Rightarrow> nat \<Rightarrow> byte list \<Rightarrow> string list" where
  "code_words list i [] = []"
| "code_words list i (b # bs) = list ! (unat b * 2 + i mod 2) # code_words list (Suc i) bs"

text \<open>The loop that turns words back into bytes, checking the parity of each position.\<close>
fun word_bytes :: "string list \<Rightarrow> nat \<Rightarrow> string list \<Rightarrow> byte list option" where
  "word_bytes list i [] = Some []"
| "word_bytes list i (p # ps) =
     (let j = indexOf list p in
      if j < 0 then None
      else if int i mod 2 \<noteq> j mod 2 then None
      else map_option (Cons (word_of_int (j div 2))) (word_bytes list (Suc i) ps))"

definition varint_Encode :: "string list \<Rightarrow> goint \<Rightarrow> byte list \<Rightarrow> string" where
  "varint_Encode list slot pass =
     (if pass = [] then []
      else let slotbytes = PutUvarint slot; n = length slotbytes
           in Join (code_words list 0 slotbytes @ code_words list n pass) ''-'')"

definition varint_Decode :: "string list \<Rightarrow> string \<Rightarrow> (goint \<times> byte list) option" where
  "varint_Decode list code =
     (case word_bytes list 0 (code_parts code) of None \<Rightarrow> None
      | Some buf \<Rightarrow>
          (case Uvarint buf of (s, n) \<Rightarrow> if n \<le> 0 then None else Some (s, drop (nat n) buf)))"

definition magic_Encode :: "string list \<Rightarrow> goint \<Rightarrow> byte list \<Rightarrow> string" where
  "magic_Encode list slot pass =
     (if pass = [] then []
      else Itoa slot @ concat (map (\<lambda>w. CHR ''-'' # w) (code_words list 0 pass)))"

definition magic_Decode :: "string list \<Rightarrow> string \<Rightarrow> (goint \<times> byte list) option" where
  "magic_Decode list code =
     (let parts = code_parts code in
      if length parts < 2 then None
      else (case Atoi (hd parts) of None \<Rightarrow> None
            | Some slot \<Rightarrow>
                (case word_bytes list 0 (tl parts) of None \<Rightarrow> None
                 | Some pass \<Rightarrow> Some (slot, pass))))"

text \<open>Each byte with its parity in a ninth bit, as three octal digits.\<close>
fun octal_words :: "nat \<Rightarrow> byte list \<Rightarrow> string list" where
  "octal_words i [] = []"
| "octal_words i (b # bs) = Format03o (unat b OR push_bit 8 (i AND 1)) # octal_words (Suc i) bs"

fun octal_bytes :: "nat \<Rightarrow> string list \<Rightarrow> byte list option" where
  "octal_bytes i [] = Some []"
| "octal_bytes i (p # ps) =
     (case ParseInt 8 16 p of None \<Rightarrow> None
      | Some n \<Rightarrow>
          if drop_bit 8 n AND 1 \<noteq> int i mod 2 then None
          else map_option (Cons (word_of_int (n AND 0xff))) (octal_bytes (Suc i) ps))"

definition octal_Encode :: "goint \<Rightarrow> byte list \<Rightarrow> string" where
  "octal_Encode slot pass =
     (if pass = [] then []
      else FormatInt 8 (sint slot) @ concat (map (\<lambda>w. CHR ''-'' # w) (octal_words 0 pass)))"

definition octal_Decode :: "string \<Rightarrow> (goint \<times> byte list) option" where
  "octal_Decode code =
     (let parts = code_parts code in
      if length parts < 2 then None
      else (case ParseInt 8 64 (hd parts) of None \<Rightarrow> None
            | Some s \<Rightarrow>
                (case octal_bytes 0 (tl parts) of None \<Rightarrow> None
                 | Some pass \<Rightarrow> Some (word_of_int s, pass))))"

section \<open>The interface and the package functions\<close>

datatype encoding = VarintEncoding "string list" | MagicWormholeEncoding "string list" | OctalEncoding

fun enc_Encode :: "encoding \<Rightarrow> goint \<Rightarrow> byte list \<Rightarrow> string" where
  "enc_Encode (VarintEncoding list) slot pass = varint_Encode list slot pass"
| "enc_Encode (MagicWormholeEncoding list) slot pass = magic_Encode list slot pass"
| "enc_Encode OctalEncoding slot pass = octal_Encode slot pass"

fun enc_Decode :: "encoding \<Rightarrow> string \<Rightarrow> (goint \<times> byte list) option" where
  "enc_Decode (VarintEncoding list) code = varint_Decode list code"
| "enc_Decode (MagicWormholeEncoding list) code = magic_Decode list code"
| "enc_Decode OctalEncoding code = octal_Decode code"

fun enc_Match :: "encoding \<Rightarrow> string \<Rightarrow> string" where
  "enc_Match (VarintEncoding list) pre = match_word list pre"
| "enc_Match (MagicWormholeEncoding list) pre = match_word list pre"
| "enc_Match OctalEncoding pre = []"

definition defaultEncodings :: "encoding list" where
  "defaultEncodings =
     [VarintEncoding enWords, MagicWormholeEncoding enWords, MagicWormholeEncoding pgpWords,
      OctalEncoding]"

definition wl_Encode :: "goint \<Rightarrow> byte list \<Rightarrow> string" where
  "wl_Encode slot pass = enc_Encode (defaultEncodings ! 0) slot pass"

fun decode_first :: "encoding list \<Rightarrow> string \<Rightarrow> (goint \<times> byte list) option" where
  "decode_first [] code = None"
| "decode_first (enc # encs) code =
     (case enc_Decode enc code of Some r \<Rightarrow> Some r | None \<Rightarrow> decode_first encs code)"

definition wl_Decode :: "string \<Rightarrow> (goint \<times> byte list) option" where
  "wl_Decode code = decode_first defaultEncodings code"

fun match_first :: "encoding list \<Rightarrow> string \<Rightarrow> string" where
  "match_first [] pre = []"
| "match_first (enc # encs) pre =
     (let hint = enc_Match enc pre in if hint \<noteq> [] then hint else match_first encs pre)"

definition wl_Match :: "string \<Rightarrow> string" where
  "wl_Match pre = match_first defaultEncodings pre"

section \<open>Codes as typed\<close>

text \<open>
  How a character of a code may be typed: a letter in either case, a separator as a dash, a plus
  sign or a space.
\<close>
definition typed_char :: "char \<Rightarrow> char \<Rightarrow> bool" where
  "typed_char c d \<longleftrightarrow> case_variant c d \<or> (d = CHR ''-'' \<and> c \<in> {CHR ''+'', CHR '' ''})"

abbreviation typed_as :: "string \<Rightarrow> string \<Rightarrow> bool" where
  "typed_as code' code \<equiv> list_all2 typed_char code' code"

text \<open>The parts a code is made of: lower-case words and numbers.\<close>
definition code_char :: "char \<Rightarrow> bool" where
  "code_char c \<longleftrightarrow> is_lower c \<or> is_digit c"

definition code_word :: "string \<Rightarrow> bool" where
  "code_word w \<longleftrightarrow> w \<noteq> [] \<and> list_all code_char w"

lemma typed_char_refl [simp]: "typed_char c c"
  by (simp add: typed_char_def)

lemma typed_as_refl [simp]: "typed_as code code"
  by (simp add: list_all2_same)

lemma code_word_lower: "lower_word w \<Longrightarrow> code_word w"
  by (auto simp: code_word_def lower_word_def code_char_def list_all_iff)

lemma code_word_digits: "list_all is_digit ds \<Longrightarrow> ds \<noteq> [] \<Longrightarrow> code_word ds"
  by (auto simp: code_word_def code_char_def list_all_iff)

definition unsep :: "string \<Rightarrow> string" where
  "unsep code = ReplaceAll1 (CHR ''+'') (CHR '' '') (ReplaceAll1 (CHR ''-'') (CHR '' '') code)"

lemma code_parts_unsep: "code_parts code = Fields (unsep code)"
  by (simp add: code_parts_def unsep_def Let_def)

lemma unsep_append: "unsep (a @ b) = unsep a @ unsep b"
  by (simp add: unsep_def ReplaceAll1_def)

lemma typed_code_char:
  assumes "typed_char c d" "code_char d"
  shows "case_variant c d" "unsep [c] = [c]" "is_ascii c \<and> \<not> is_space (byte_val c)"
proof -
  have "d \<noteq> CHR ''-''" using assms(2) by (auto simp: code_char_def is_lower_def is_digit_def)
  then show v: "case_variant c d" using assms(1) by (simp add: typed_char_def)
  have r: "(48 \<le> byte_val c \<and> byte_val c \<le> 57) \<or> (65 \<le> byte_val c \<and> byte_val c \<le> 90)
      \<or> (97 \<le> byte_val c \<and> byte_val c \<le> 122)"
    using v assms(2) by (auto simp: case_variant_def code_char_def is_lower_def is_digit_def)
  then have "c \<noteq> CHR ''-'' \<and> c \<noteq> CHR ''+''" by auto
  then show "unsep [c] = [c]" by (simp add: unsep_def ReplaceAll1_def)
  show "is_ascii c \<and> \<not> is_space (byte_val c)" using r by (auto simp: is_ascii_def is_space_def)
qed

lemma typed_code_word:
  assumes "typed_as v w" "code_word w"
  shows "list_all2 case_variant v w" "unsep v = v" "ascii_word v"
proof -
  have *: "list_all2 case_variant v w \<and> unsep v = v
      \<and> list_all (\<lambda>c. is_ascii c \<and> \<not> is_space (byte_val c)) v"
    using assms(1) assms(2)[unfolded code_word_def, THEN conjunct2]
  proof (induction rule: list_all2_induct)
    case Nil
    show ?case by (simp add: unsep_def ReplaceAll1_def)
  next
    case (Cons c v d w)
    then show ?case
      using typed_code_char[of c d] unsep_append[of "[c]" v] by auto
  qed
  have "v \<noteq> []" using assms by (auto simp: code_word_def)
  with * show "list_all2 case_variant v w" "unsep v = v" "ascii_word v"
    by (auto simp: ascii_word_def)
qed

lemma typed_sep:
  assumes "typed_char c (CHR ''-'')"
  shows "unsep [c] = '' ''"
  using assms by (auto simp: typed_char_def unsep_def ReplaceAll1_def case_variant_def is_lower_def)

lemma space_is_sep: "ascii_space (CHR '' '')"
  by (simp add: ascii_space_def is_ascii_def is_space_def)

text \<open>The parts of a typed code are its words, each in some mix of cases.\<close>
lemma code_parts_typed:
  assumes "list_all code_word ws" "typed_as code (Join ws ''-'')"
  shows "list_all2 (list_all2 case_variant) (code_parts code) ws"
  using assms
proof (induction ws "''-''" arbitrary: code rule: Join.induct)
  case 1
  then show ?case by (simp add: code_parts_unsep unsep_def ReplaceAll1_def)
next
  case (2 w)
  then show ?case
    using typed_code_word[of code w] by (simp add: code_parts_unsep Fields_word_end)
next
  case (3 w v ws)
  then obtain a c b where code: "code = a @ c # b" and a: "typed_as a w"
    and c: "typed_char c (CHR ''-'')" and b: "typed_as b (Join (v # ws) ''-'')"
    by (auto simp: list_all2_append2 list_all2_Cons2)
  have "code_parts code = a # code_parts b"
    using typed_code_word[OF a] typed_sep[OF c] 3(2) unsep_append[of a "c # b"]
      unsep_append[of "[c]" b]
    by (simp add: code code_parts_unsep Fields_word space_is_sep)
  then show ?case using 3(1)[of b] 3(2) a b typed_code_word(1)[OF a] by simp
qed

section \<open>Words and bytes\<close>

lemma indexOf_from_notin:
  "\<forall>u \<in> set ws. \<not> EqualFold w u \<Longrightarrow> indexOf_from i ws w = -1"
  by (induction ws arbitrary: i) auto

lemma indexOf_from_nth:
  assumes "k < length ws" "\<forall>j < k. \<not> EqualFold w (ws ! j)" "EqualFold w (ws ! k)"
  shows "indexOf_from i ws w = int (i + k)"
  using assms
proof (induction ws arbitrary: i k)
  case Nil
  then show ?case by simp
next
  case (Cons u ws)
  show ?case
  proof (cases k)
    case 0
    with Cons.prems show ?thesis by simp
  next
    case (Suc m)
    then have "\<not> EqualFold w u" using Cons.prems(2) by force
    moreover have "indexOf_from (Suc i) ws w = int (Suc i + m)"
      using Cons.prems Suc by (intro Cons.IH) auto
    ultimately show ?thesis by (simp add: Suc)
  qed
qed

lemma word_table_nth: "word_table list \<Longrightarrow> k < 512 \<Longrightarrow> lower_word (list ! k)"
  by (auto simp: word_table_def list_all_length)

lemma indexOf_nth:
  assumes t: "word_table list" and k: "k < 512" and v: "list_all2 case_variant v (list ! k)"
  shows "indexOf list v = int k"
proof -
  have low: "list_all is_lower (list ! j)" if "j < 512" for j
    using word_table_nth[OF t that] by (simp add: lower_word_def)
  have "EqualFold v (list ! j) \<longleftrightarrow> j = k" if "j < 512" for j
    using EqualFold_variant_iff[OF v low[OF k] low[OF that]] t k that
    by (auto simp: word_table_def nth_eq_iff_index_eq)
  then show ?thesis
    unfolding indexOf_def using t k by (subst indexOf_from_nth[of k]) (auto simp: word_table_def)
qed

lemma indexOf_digits:
  assumes "word_table list" "list_all is_digit ds" "ds \<noteq> []"
  shows "indexOf list ds = -1"
proof -
  have a: "list_all is_ascii ds" using assms(2) by (auto simp: list_all_iff is_digit_def is_ascii_def)
  have "\<not> EqualFold ds u" if u: "lower_word u" for u
  proof -
    obtain c ds' where ds: "ds = c # ds'" using assms(3) by (cases ds) auto
    obtain d u' where u': "u = d # u'" using u by (cases u) (auto simp: lower_word_def)
    have "\<not> rune_fold_eq (byte_val c) (byte_val d)"
      using assms(2) u by (auto simp: ds u' lower_word_def is_digit_def is_lower_def rune_fold_eq_def)
    then show ?thesis
      using runes_ascii[OF a] runes_ascii[OF lower_word_ascii[OF u]] by (simp add: EqualFold_def ds u')
  qed
  then show ?thesis
    using assms(1) unfolding indexOf_def
    by (intro indexOf_from_notin) (auto simp: word_table_def list_all_iff)
qed

lemma unat_byte_lt: "unat (b :: byte) < 256"
  using unsigned_less[of b] by simp

lemma word_index_lt: "unat (b :: byte) * 2 + i mod 2 < 512"
  using unat_byte_lt[of b] by linarith

lemma length_code_words [simp]: "length (code_words list i bs) = length bs"
  by (induction bs arbitrary: i) auto

lemma code_words_append:
  "code_words list i (as @ bs) = code_words list i as @ code_words list (i + length as) bs"
  by (induction as arbitrary: i) auto

lemma code_words_lower: "word_table list \<Longrightarrow> list_all lower_word (code_words list i bs)"
  by (induction bs arbitrary: i) (simp_all add: word_table_nth word_index_lt)

lemma code_words_code: "word_table list \<Longrightarrow> list_all code_word (code_words list i bs)"
  using code_words_lower[of list i bs] code_word_lower by (auto simp: list_all_iff)

text \<open>Turning the words of a byte sequence back, however their letters are cased.\<close>
lemma word_bytes_code_words:
  assumes "word_table list" "list_all2 (list_all2 case_variant) vs (code_words list i bs)"
  shows "word_bytes list i vs = Some bs"
  using assms(2)
proof (induction bs arbitrary: i vs)
  case Nil
  then show ?case by simp
next
  case (Cons b bs)
  then obtain v vs' where vs: "vs = v # vs'"
    and v: "list_all2 case_variant v (list ! (unat b * 2 + i mod 2))"
    and vs': "list_all2 (list_all2 case_variant) vs' (code_words list (Suc i) bs)"
    by (auto simp: list_all2_Cons2)
  have j: "indexOf list v = int (unat b * 2 + i mod 2)"
    by (rule indexOf_nth[OF assms(1) word_index_lt v])
  have "int (unat b * 2 + i mod 2) div 2 = uint b" "int i mod 2 = int (unat b * 2 + i mod 2) mod 2"
    by (simp_all add: zmod_int)
  moreover have "\<not> int (unat b * 2 + i mod 2) < 0" by linarith
  ultimately show ?case
    using Cons.IH[OF vs'] by (simp add: vs j Let_def del: of_nat_add of_nat_mult)
qed

lemma digits_variant: "list_all2 case_variant v ds \<Longrightarrow> list_all is_digit ds \<Longrightarrow> v = ds"
  by (induction rule: list_all2_induct) (auto simp: case_variant_def is_lower_def is_digit_def)

lemma digits_variants:
  "list_all2 (list_all2 case_variant) vs ws \<Longrightarrow> list_all (list_all is_digit) ws \<Longrightarrow> vs = ws"
  by (induction rule: list_all2_induct) (auto dest: digits_variant)

lemma octal_words_digits: "list_all (\<lambda>w. list_all is_digit w \<and> w \<noteq> []) (octal_words i bs)"
  by (induction bs arbitrary: i) (simp_all add: Format03o_digits)

text \<open>The parity bit and the byte of an octal group.\<close>
lemma octal_group:
  fixes b :: byte and i :: nat
  defines "n \<equiv> unat b OR push_bit 8 (i AND 1)"
  shows "n < 512" "drop_bit 8 (int n) AND 1 = int i mod 2" "word_of_int (int n AND 0xff) = b"
proof -
  have b: "\<not> bit b k" if "8 \<le> k" for k
    using that bit_imp_le_length[of b k] by auto
  have "n = unat b + push_bit 8 (i AND 1)"
    unfolding n_def
    by (rule disjunctive_add_eq_or[symmetric], rule bit_eqI) (auto simp: bit_simps b)
  then have n: "n = unat b + 256 * (i mod 2)"
    by (simp add: and_one_eq push_bit_eq_mult)
  then show "n < 512" using unat_byte_lt[of b] by linarith
  have "int n = uint b + 256 * (int i mod 2)" by (simp add: n zmod_int)
  moreover have "0 \<le> uint b" "uint b < 256" using uint_lt2p[of b] by auto
  ultimately have "int n div 256 = int i mod 2" "int n mod 256 = uint b" by auto
  moreover from this have "int n AND 0xff = uint b"
    using take_bit_eq_mask[of 8 "int n"] take_bit_eq_mod[of 8 "int n"]
    by (simp add: mask_eq_exp_minus_1)
  ultimately show "drop_bit 8 (int n) AND 1 = int i mod 2" "word_of_int (int n AND 0xff) = b"
    by (simp_all only: drop_bit_eq_div and_one_eq word_of_int_uint) simp
qed

lemma octal_bytes_words: "octal_bytes i (octal_words i bs) = Some bs"
proof (induction bs arbitrary: i)
  case (Cons b bs)
  have "ParseInt 8 16 (Format03o (unat b OR push_bit 8 (i AND 1)))
        = Some (int (unat b OR push_bit 8 (i AND 1)))"
    using octal_group(1)[of b i] by (intro ParseInt_Format03o) simp
  then show ?case
    using octal_group(2,3)[of b i] Cons.IH
    by (simp only: octal_words.simps octal_bytes.simps option.case if_False if_True simp_thms
        option.map)
qed simp

section \<open>The contract of a codec\<close>

text \<open>
  What the package relies on of an \<open>encoding\<close>: a code decodes to the slot and the password it was
  made of, however its letters are cased and its separators typed; a password is needed on both
  sides. \<open>in_range\<close> says which slots the codec can carry.
\<close>
locale code_book =
  fixes Enc :: "goint \<Rightarrow> byte list \<Rightarrow> string"
    and Dec :: "string \<Rightarrow> (goint \<times> byte list) option"
    and in_range :: "goint \<Rightarrow> bool"
  assumes Dec_typed:
      "in_range slot \<Longrightarrow> pass \<noteq> [] \<Longrightarrow> typed_as code (Enc slot pass) \<Longrightarrow> Dec code = Some (slot, pass)"
    and Enc_Nil: "Enc slot [] = []"
    and Dec_Nil: "Dec [] = None"
begin

lemma Dec_Enc: "in_range slot \<Longrightarrow> pass \<noteq> [] \<Longrightarrow> Dec (Enc slot pass) = Some (slot, pass)"
  by (rule Dec_typed) simp_all

lemma Enc_nonempty: "in_range slot \<Longrightarrow> pass \<noteq> [] \<Longrightarrow> Enc slot pass \<noteq> []"
  using Dec_Enc Dec_Nil by force

lemma Enc_empty_iff: "in_range slot \<Longrightarrow> Enc slot pass = [] \<longleftrightarrow> pass = []"
  using Enc_nonempty Enc_Nil by auto

lemma Enc_inject:
  assumes "in_range s" "in_range s'" "p \<noteq> []" "p' \<noteq> []"
  shows "Enc s p = Enc s' p' \<longleftrightarrow> s = s' \<and> p = p'"
  using Dec_Enc[OF assms(1,3)] Dec_Enc[OF assms(2,4)] by (metis option.inject prod.inject)

end

lemma Join_Cons: "Join (w # ws) sep = w @ concat (map (\<lambda>w. sep @ w) ws)"
  by (induction ws arbitrary: w) simp_all

lemma Join_digits: "w @ concat (map (\<lambda>w. CHR ''-'' # w) ws) = Join (w # ws) ''-''"
  by (simp add: Join_Cons)

lemma varint_parts:
  "Join (code_words list 0 sb @ code_words list (length sb) pass) sep
   = Join (code_words list 0 (sb @ pass)) sep"
  by (simp add: code_words_append)

lemma varint_code_book: "word_table list \<Longrightarrow> code_book (varint_Encode list) (varint_Decode list) (\<lambda>_. True)"
proof
  fix slot pass code
  assume t: "word_table list" and p: "pass \<noteq> []"
    and code: "typed_as code (varint_Encode list slot pass)"
  let ?buf = "PutUvarint slot @ pass"
  have "list_all2 (list_all2 case_variant) (code_parts code) (code_words list 0 ?buf)"
    using code p by (intro code_parts_typed code_words_code[OF t])
      (simp_all add: varint_Encode_def Let_def varint_parts)
  then have "word_bytes list 0 (code_parts code) = Some ?buf"
    by (rule word_bytes_code_words[OF t])
  then show "varint_Decode list code = Some (slot, pass)"
    by (simp add: varint_Decode_def Uvarint_PutUvarint)
qed (simp_all add: varint_Encode_def varint_Decode_def Uvarint_def code_parts_unsep unsep_def
      ReplaceAll1_def)

lemma Itoa_digits: "0 \<le> sint x \<Longrightarrow> list_all is_digit (Itoa x) \<and> Itoa x \<noteq> []"
  by (simp add: Itoa_def FormatInt_nonneg nat_digits_digit)

lemma magic_code_book:
  "word_table list \<Longrightarrow> code_book (magic_Encode list) (magic_Decode list) (\<lambda>slot. 0 \<le> sint slot)"
proof
  fix slot :: goint and pass code
  assume t: "word_table list" and s: "0 \<le> sint slot" and p: "pass \<noteq> []"
    and code: "typed_as code (magic_Encode list slot pass)"
  have "list_all2 (list_all2 case_variant) (code_parts code) (Itoa slot # code_words list 0 pass)"
    using code p s by (intro code_parts_typed)
      (simp_all add: magic_Encode_def Join_digits code_words_code[OF t] code_word_digits Itoa_digits)
  then obtain vs where parts: "code_parts code = Itoa slot # vs"
    and vs: "list_all2 (list_all2 case_variant) vs (code_words list 0 pass)"
    using digits_variant Itoa_digits[OF s] by (auto simp: list_all2_Cons2)
  have "vs \<noteq> []" using list_all2_lengthD[OF vs] p by auto
  then show "magic_Decode list code = Some (slot, pass)"
    using word_bytes_code_words[OF t vs] by (simp add: magic_Decode_def parts Atoi_Itoa s Let_def Suc_le_eq)
qed (simp_all add: magic_Encode_def magic_Decode_def code_parts_unsep unsep_def ReplaceAll1_def)

lemma octal_code_book: "code_book octal_Encode octal_Decode (\<lambda>slot. 0 \<le> sint slot)"
proof
  fix slot :: goint and pass code
  assume s: "0 \<le> sint slot" and p: "pass \<noteq> []"
    and code: "typed_as code (octal_Encode slot pass)"
  let ?n = "FormatInt 8 (sint slot)" and ?ws = "octal_words 0 pass"
  have n: "list_all is_digit ?n" "?n \<noteq> []" using s by (simp_all add: FormatInt_nonneg nat_digits_digit)
  have ds: "list_all (list_all is_digit) (?n # ?ws)"
    using n octal_words_digits[of 0 pass] by (auto simp: list_all_iff)
  have "list_all2 (list_all2 case_variant) (code_parts code) (?n # ?ws)"
    using code p n octal_words_digits[of 0 pass] by (intro code_parts_typed)
      (auto simp: octal_Encode_def Join_digits code_word_digits list_all_iff)
  then have parts: "code_parts code = ?n # ?ws"
    by (rule digits_variants[OF _ ds])
  have "?ws \<noteq> []" using p by (cases pass) auto
  then show "octal_Decode code = Some (slot, pass)"
    by (simp add: octal_Decode_def parts ParseInt8_FormatInt s octal_bytes_words Let_def Suc_le_eq)
qed (simp_all add: octal_Encode_def octal_Decode_def code_parts_unsep unsep_def ReplaceAll1_def)

interpretation en_varint: code_book "varint_Encode enWords" "varint_Decode enWords" "\<lambda>_. True"
  by (rule varint_code_book[OF word_table_enWords])

interpretation en_magic: code_book "magic_Encode enWords" "magic_Decode enWords" "\<lambda>s. 0 \<le> sint s"
  by (rule magic_code_book[OF word_table_enWords])

interpretation pgp_magic: code_book "magic_Encode pgpWords" "magic_Decode pgpWords" "\<lambda>s. 0 \<le> sint s"
  by (rule magic_code_book[OF word_table_pgpWords])

interpretation octal: code_book octal_Encode octal_Decode "\<lambda>s. 0 \<le> sint s"
  by (rule octal_code_book)

section \<open>The chain of decoders\<close>

lemma wl_Encode_eq: "wl_Encode slot pass = varint_Encode enWords slot pass"
  by (simp add: wl_Encode_def defaultEncodings_def)

lemma wl_Decode_eq:
  "wl_Decode code =
     (case varint_Decode enWords code of Some r \<Rightarrow> Some r | None \<Rightarrow>
      case magic_Decode enWords code of Some r \<Rightarrow> Some r | None \<Rightarrow>
      case magic_Decode pgpWords code of Some r \<Rightarrow> Some r | None \<Rightarrow> octal_Decode code)"
  by (simp add: wl_Decode_def defaultEncodings_def split: option.splits)

lemma code_parts_Join: "list_all code_word ws \<Longrightarrow> code_parts (Join ws ''-'') = ws"
proof (induction ws "''-''" rule: Join.induct)
  case 1
  show ?case by (simp add: code_parts_unsep unsep_def ReplaceAll1_def)
next
  case (2 w)
  then show ?case using typed_code_word[of w w] by (simp add: code_parts_unsep Fields_word_end)
next
  case (3 w v ws)
  have "unsep ''-'' = '' ''" by (simp add: unsep_def ReplaceAll1_def)
  then show ?case
    using 3 typed_code_word[of w w] unsep_append[of w "''-'' @ Join (v # ws) ''-''"]
      unsep_append[of "''-''" "Join (v # ws) ''-''"]
    by (simp add: code_parts_unsep Fields_word space_is_sep)
qed

lemma varint_Decode_number:
  assumes "word_table list" "list_all is_digit ds" "ds \<noteq> []" "code_parts code = ds # ps"
  shows "varint_Decode list code = None"
  using indexOf_digits[OF assms(1-3)] by (simp add: varint_Decode_def assms(4))

lemma magic_Decode_numbers:
  assumes "word_table list" "code_parts code = n # ds # ps" "list_all is_digit ds" "ds \<noteq> []"
  shows "magic_Decode list code = None"
  using indexOf_digits[OF assms(1,3,4)]
  by (simp add: magic_Decode_def assms(2) Let_def split: option.splits)

lemma parse_lower:
  assumes "lower_word w" "b \<le> 10"
  shows "ParseInt b bits w = None"
proof -
  obtain c cs where w: "w = c # cs" and c: "is_lower c"
    using assms(1) by (cases w) (auto simp: lower_word_def)
  have "c \<noteq> CHR ''-''" "c \<noteq> CHR ''+''" using c by (auto simp: is_lower_def)
  moreover have "digit_val c = Some (byte_val c - 87)"
    using c by (simp add: digit_val_def is_lower_def Let_def)
  moreover have "\<not> byte_val c - 87 < b"
    using c assms(2) unfolding is_lower_def by linarith
  ultimately show ?thesis by (simp add: ParseInt_def w Let_def)
qed

lemma wl_Decode_words:
  assumes "list_all lower_word ps"
  shows "wl_Decode (Join ps ''-'') = varint_Decode enWords (Join ps ''-'')"
proof -
  have parts: "code_parts (Join ps ''-'') = ps"
    using assms by (intro code_parts_Join) (auto simp: list_all_iff code_word_lower)
  have hd: "lower_word (hd ps)" if "\<not> length ps < 2"
    using that assms by (cases ps) auto
  have "magic_Decode list (Join ps ''-'') = None" for list
    using parse_lower[OF hd, of 10] by (simp add: magic_Decode_def parts Atoi_def Let_def)
  moreover have "octal_Decode (Join ps ''-'') = None"
    using parse_lower[OF hd, of 8] by (simp add: octal_Decode_def parts Let_def)
  ultimately show ?thesis by (simp add: wl_Decode_eq split: option.splits)
qed

text \<open>A word in a position of the wrong parity is refused.\<close>
lemma word_bytes_parity:
  assumes "word_table list" "k < length ps" "ps ! k = list ! m" "m < 512" "m mod 2 \<noteq> (i + k) mod 2"
  shows "word_bytes list i ps = None"
  using assms(2,3,5)
proof (induction ps arbitrary: i k)
  case (Cons p ps)
  show ?case
  proof (cases k)
    case 0
    then have "indexOf list p = int m"
      using Cons.prems assms(4) indexOf_nth[OF assms(1,4), of p] by (simp add: list_all2_same)
    moreover have "int i mod 2 \<noteq> int m mod 2"
      using Cons.prems(3) 0 by (metis add_0_right of_nat_eq_iff zmod_int of_nat_numeral)
    ultimately show ?thesis by (simp add: Let_def)
  next
    case (Suc l)
    then have "word_bytes list (Suc i) ps = None" using Cons by simp
    then show ?thesis by (simp add: Let_def)
  qed
qed simp

text \<open>The words of a code, and where they sit in the table.\<close>
definition words_of :: "goint \<Rightarrow> byte list \<Rightarrow> string list" where
  "words_of slot pass = code_words enWords 0 (PutUvarint slot @ pass)"

lemma code_words_nth: "k < length bs \<Longrightarrow> code_words list i bs ! k = list ! (unat (bs ! k) * 2 + (i + k) mod 2)"
  by (induction bs arbitrary: i k) (auto simp: nth_Cons split: nat.splits)

lemma words_of_lower: "list_all lower_word (words_of slot pass)"
  unfolding words_of_def by (rule code_words_lower[OF word_table_enWords])

lemma wl_Encode_words: "pass \<noteq> [] \<Longrightarrow> wl_Encode slot pass = Join (words_of slot pass) ''-''"
  by (simp add: wl_Encode_eq varint_Encode_def Let_def varint_parts words_of_def)

lemma words_of_moved:
  assumes "k < length ps" "ps ! k = words_of slot pass ! l" "l < length (words_of slot pass)"
    and "l mod 2 \<noteq> k mod 2" "list_all lower_word ps"
  shows "wl_Decode (Join ps ''-'') = None"
proof -
  let ?m = "unat ((PutUvarint slot @ pass) ! l) * 2 + (0 + l) mod 2"
  have "ps ! k = enWords ! ?m"
    using assms(2,3) unfolding words_of_def by (subst (asm) code_words_nth) simp_all
  then have "word_bytes enWords 0 ps = None"
    using assms(1,4) word_index_lt by (intro word_bytes_parity[OF word_table_enWords, of k _ ?m]) auto
  moreover have "code_parts (Join ps ''-'') = ps"
    using assms(5) by (intro code_parts_Join) (auto simp: list_all_iff code_word_lower)
  ultimately show ?thesis
    by (simp add: wl_Decode_words[OF assms(5)] varint_Decode_def)
qed

section \<open>Properties\<close>

text \<open>
  C15. Every code the tool prints decodes, through the whole chain of decoders, to the slot and the
  password it was made of: for any 64-bit slot and any password that is not empty, in any mix of
  upper and lower case, with dashes, plus signs or spaces between the words.
\<close>
theorem wl_Decode_Encode:
  assumes "pass \<noteq> []" and "typed_as code (wl_Encode slot pass)"
  shows "wl_Decode code = Some (slot, pass)"
  using en_varint.Dec_typed[OF TrueI assms[unfolded wl_Encode_eq]] by (simp add: wl_Decode_eq)

theorem wl_Decode_Encode_witness:
  "wl_Decode ''LADLE Aged+aloe-aloft'' = Some (256, [8, 8])"
proof (rule wl_Decode_Encode)
  have "PutUvarint 256 = [128, 2]" by (simp add: PutUvarint.simps)
  then show "typed_as ''LADLE Aged+aloe-aloft'' (wl_Encode 256 [8, 8])"
    by (simp add: wl_Encode_eq varint_Encode_def Let_def enWords_def enWords_defs typed_char_def
        case_variant_def is_lower_def)
qed simp

text \<open>
  The codes of the other encodings the chain supports, with a numeric slot in front, decode to
  their slot and password: the English word list, and the octal encoding.
\<close>
theorem wl_Decode_other_encodings:
  assumes "pass \<noteq> []" and "0 \<le> sint slot"
  shows "(\<forall>code. typed_as code (magic_Encode enWords slot pass) \<longrightarrow> wl_Decode code = Some (slot, pass))
    \<and> wl_Decode (octal_Encode slot pass) = Some (slot, pass)"
proof (intro conjI allI impI)
  fix code assume code: "typed_as code (magic_Encode enWords slot pass)"
  have "list_all2 (list_all2 case_variant) (code_parts code) (Itoa slot # code_words enWords 0 pass)"
    using code assms by (intro code_parts_typed)
      (simp_all add: magic_Encode_def Join_digits code_words_code[OF word_table_enWords]
        code_word_digits Itoa_digits)
  then obtain vs where "code_parts code = Itoa slot # vs"
    using digits_variant Itoa_digits[OF assms(2)] by (auto simp: list_all2_Cons2)
  then have "varint_Decode enWords code = None"
    using Itoa_digits[OF assms(2)] by (auto intro: varint_Decode_number[OF word_table_enWords])
  then show "wl_Decode code = Some (slot, pass)"
    using en_magic.Dec_typed[OF assms(2,1) code] by (simp add: wl_Decode_eq)
next
  let ?n = "FormatInt 8 (sint slot)" and ?code = "octal_Encode slot pass"
  obtain w ws where ws: "octal_words 0 pass = w # ws" using assms(1) by (cases pass) auto
  have n: "list_all is_digit ?n" "?n \<noteq> []"
    using assms(2) by (simp_all add: FormatInt_nonneg nat_digits_digit)
  have w: "list_all is_digit w" "w \<noteq> []" "list_all code_word ws"
    using octal_words_digits[of 0 pass] by (auto simp: ws list_all_iff code_word_digits)
  have enc: "?code = Join (?n # w # ws) ''-''"
    by (simp only: octal_Encode_def ws assms(1) if_False Join_digits)
  have parts: "code_parts ?code = ?n # w # ws"
    using n w unfolding enc by (intro code_parts_Join) (simp add: code_word_digits)
  then show "wl_Decode ?code = Some (slot, pass)"
    using varint_Decode_number[OF word_table_enWords n parts]
      magic_Decode_numbers[OF word_table_enWords parts w(1,2)]
      magic_Decode_numbers[OF word_table_pgpWords parts w(1,2)]
      octal.Dec_Enc[OF assms(2,1)]
    by (simp add: wl_Decode_eq)
qed

lemma Itoa_5: "Itoa 5 = ''5''"
proof -
  have "digit_char 5 = CHR ''5''" by code_simp
  then show ?thesis by (simp add: Itoa_def FormatInt_def nat_digits.simps)
qed

theorem wl_Decode_other_encodings_witness:
  "wl_Decode ''5-Axis+acre'' = Some (5, [19, 0])"
proof -
  have "typed_as ''5-Axis+acre'' (magic_Encode enWords 5 [19, 0])"
    by (simp add: Itoa_5 magic_Encode_def enWords_def enWords_1_def typed_char_def case_variant_def
        is_lower_def)
  then show ?thesis
    using wl_Decode_other_encodings[of "[19, 0]" 5] by simp
qed

text \<open>
  C34. A code in which one word was left out, other than the last, is refused by every decoder of the
  chain: the parity of the words that moved up gives it away.
\<close>
theorem wl_Decode_omission:
  assumes "pass \<noteq> []" and "ws = code_parts (wl_Encode slot pass)" and "Suc k < length ws"
  shows "wl_Decode (Join (take k ws @ drop (Suc k) ws) ''-'') = None"
proof -
  have ws: "ws = words_of slot pass"
    using assms(1,2) words_of_lower[of slot pass]
    by (simp add: wl_Encode_words code_parts_Join list_all_iff code_word_lower)
  then have low: "list_all lower_word ws" using words_of_lower by simp
  let ?ps = "take k ws @ drop (Suc k) ws"
  have "?ps ! k = words_of slot pass ! Suc k" "k < length ?ps"
    using assms(3) by (auto simp: ws nth_append)
  moreover have "list_all lower_word ?ps"
    using low by (auto simp: list_all_iff dest: in_set_takeD in_set_dropD)
  ultimately show ?thesis
    using assms(3) by (intro words_of_moved[of k _ slot pass "Suc k"]) (auto simp: ws mod_Suc)
qed

text \<open>
  C35. A code in which two neighbouring words changed places is refused by every decoder of the chain.
\<close>
theorem wl_Decode_transposition:
  assumes "pass \<noteq> []" and "ws = code_parts (wl_Encode slot pass)" and "Suc k < length ws"
  shows "wl_Decode (Join (ws[k := ws ! Suc k, Suc k := ws ! k]) ''-'') = None"
proof -
  have ws: "ws = words_of slot pass"
    using assms(1,2) words_of_lower[of slot pass]
    by (simp add: wl_Encode_words code_parts_Join list_all_iff code_word_lower)
  then have low: "list_all lower_word ws" using words_of_lower by simp
  let ?ps = "ws[k := ws ! Suc k, Suc k := ws ! k]"
  have "?ps ! k = words_of slot pass ! Suc k" "k < length ?ps"
    using assms(3) by (auto simp: ws)
  moreover have "list_all lower_word ?ps"
    using low assms(3) by (auto simp: list_all_length nth_list_update)
  ultimately show ?thesis
    using assms(3) by (intro words_of_moved[of k _ slot pass "Suc k"]) (auto simp: ws mod_Suc)
qed

text \<open>A code of the test file, in its words.\<close>
lemma code_parts_256: "code_parts (wl_Encode 256 [8, 8]) = [''ladle'', ''aged'', ''aloe'', ''aloft'']"
proof -
  have "PutUvarint 256 = [128, 2]" by (simp add: PutUvarint.simps)
  then have "words_of 256 [8, 8] = [''ladle'', ''aged'', ''aloe'', ''aloft'']"
    by (simp add: words_of_def enWords_def enWords_defs)
  then show ?thesis
    using words_of_lower[of 256 "[8, 8]"]
    by (simp add: wl_Encode_words code_parts_Join list_all_iff code_word_lower del: Join.simps)
qed

theorem wl_Decode_omission_witness: "wl_Decode ''aged-aloe-aloft'' = None"
  using wl_Decode_omission[of "[8, 8]" _ 256 0, OF _ refl] by (simp add: code_parts_256)

theorem wl_Decode_transposition_witness: "wl_Decode ''aged-ladle-aloe-aloft'' = None"
  using wl_Decode_transposition[of "[8, 8]" _ 256 0, OF _ refl] by (simp add: code_parts_256)

lemma first_with_prefix_some:
  "first_with_prefix ws p \<noteq> [] \<Longrightarrow> first_with_prefix ws p \<in> set ws \<and> HasPrefix (first_with_prefix ws p) p"
  by (induction ws) auto

lemma first_with_prefix_none:
  "list_all lower_word ws \<Longrightarrow> first_with_prefix ws p = [] \<longleftrightarrow> (\<forall>w \<in> set ws. \<not> HasPrefix w p)"
  by (induction ws) (auto simp: lower_word_def)

lemma wl_Match_eq:
  "wl_Match p = (if p = [] then []
                 else if first_with_prefix enWords p \<noteq> [] then first_with_prefix enWords p
                 else first_with_prefix pgpWords p)"
  by (simp add: wl_Match_def defaultEncodings_def match_word_def Let_def)

text \<open>
  C36. The completion of a typed prefix: \<open>Match\<close> returns a word of the tables that starts with the
  prefix, an English one if there is any, and the empty string exactly when the prefix is empty or no
  word starts with it.
\<close>
theorem wl_Match_spec:
  "(wl_Match p \<noteq> [] \<longrightarrow>
      prefix p (wl_Match p) \<and> (wl_Match p \<in> set enWords \<or>
        (wl_Match p \<in> set pgpWords \<and> (\<forall>w \<in> set enWords. \<not> prefix p w)))) \<and>
   (wl_Match p = [] \<longleftrightarrow> p = [] \<or> (\<forall>w \<in> set enWords \<union> set pgpWords. \<not> prefix p w))"
  using first_with_prefix_some[of enWords p] first_with_prefix_some[of pgpWords p]
    first_with_prefix_none[OF lower_enWords, of p] first_with_prefix_none[OF lower_pgpWords, of p]
  by (auto simp: wl_Match_eq HasPrefix_iff)

theorem wl_Match_spec_witness: "prefix ''ac'' ''acorn'' \<and> wl_Match ''ac'' = ''acorn''"
proof -
  have m: "wl_Match ''ac'' = ''acorn''"
    by (simp add: wl_Match_eq enWords_def enWords_1_def HasPrefix_def)
  then show ?thesis using wl_Match_spec[of "''ac''"] by simp
qed

text \<open>
  A code that holds the slot only is not refused: it decodes to the slot and a password that is
  empty but not \<open>nil\<close>, although \<open>Encode\<close> makes no code for an empty password and the other decoders
  ask for a password. The callers' \<open>pass == nil\<close> check lets it through.
\<close>
theorem wl_Decode_slot_only:
  "wl_Decode (Join (words_of slot []) ''-'') = Some (slot, []) \<and> wl_Encode slot [] = []"
proof -
  have low: "list_all lower_word (words_of slot [])" by (rule words_of_lower)
  then have "code_parts (Join (words_of slot []) ''-'') = words_of slot []"
    by (intro code_parts_Join) (auto simp: list_all_iff code_word_lower)
  moreover have "word_bytes enWords 0 (words_of slot []) = Some (PutUvarint slot)"
    unfolding words_of_def
    by (rule word_bytes_code_words[OF word_table_enWords]) (simp add: list_all2_same)
  ultimately show ?thesis
    using Uvarint_PutUvarint[of slot "[]"]
    by (simp add: wl_Decode_words[OF low] varint_Decode_def wl_Encode_eq en_varint.Enc_Nil)
qed

text \<open>
  The chain is not a decoder for the PGP word list: twelve words are in both lists, eight of them
  at indices of the same parity, and a code made of such words is read with the English list. The
  PGP code of slot 5 and password 11 comes back with password 9.
\<close>
theorem wl_Decode_pgp_ambiguous:
  "magic_Encode pgpWords 5 [11] = ''5-alone'' \<and> wl_Decode ''5-alone'' = Some (5, [9])"
proof -
  have "magic_Encode enWords 5 [9] = ''5-alone''"
    by (simp add: magic_Encode_def Itoa_5 enWords_def enWords_1_def)
  then have "typed_as ''5-alone'' (magic_Encode enWords 5 [9])" by simp
  moreover have "varint_Decode enWords ''5-alone'' = None"
  proof -
    have d: "list_all is_digit ''5''" by (simp add: is_digit_def)
    have "code_parts (Join [''5'', ''alone''] ''-'') = [''5'', ''alone'']"
      by (rule code_parts_Join) (simp add: code_word_def code_char_def is_digit_def is_lower_def)
    then show ?thesis by (intro varint_Decode_number[OF word_table_enWords d, of _ "[''alone'']"]) simp_all
  qed
  ultimately have "wl_Decode ''5-alone'' = Some (5, [9])"
    using en_magic.Dec_typed[of 5 "[9]" "''5-alone''"] by (simp add: wl_Decode_eq)
  moreover have "magic_Encode pgpWords 5 [11] = ''5-alone''"
    by (simp add: magic_Encode_def Itoa_5 pgpWords_def pgpWords_1_def)
  ultimately show ?thesis by simp
qed

section \<open>Length of a code\<close>

lemma length_PutUvarint:
  "0 < n \<Longrightarrow> n < 10 \<Longrightarrow> 2 ^ (7 * (n - 1)) \<le> unat x \<or> n = 1 \<Longrightarrow> unat x < 2 ^ (7 * n) \<Longrightarrow> length (PutUvarint x) = n"
proof (induction n arbitrary: x)
  case (Suc n)
  show ?case
  proof (cases "n = 0")
    case True
    then show ?thesis using Suc.prems by (subst PutUvarint.simps) (simp add: word_le_nat_alt)
  next
    case False
    then obtain m where m: "n = Suc m" by (cases n) auto
    have big: "2 ^ 7 * 2 ^ (7 * m) \<le> unat x" "unat x < 2 ^ (7 * n) * 2 ^ 7"
      using Suc.prems False m by (simp_all add: power_add)
    have "(2::nat) ^ 7 \<le> 2 ^ 7 * 2 ^ (7 * m)" by simp
    then have "2 ^ 7 \<le> unat x" using big(1) by (rule order_trans)
    then have x: "0x80 \<le> x" by (simp add: word_le_nat_alt)
    have d: "unat (drop_bit 7 x) = unat x div 2 ^ 7" by (simp add: drop_bit_eq_div unat_div)
    have "2 ^ (7 * m) \<le> unat (drop_bit 7 x)" "unat (drop_bit 7 x) < 2 ^ (7 * n)"
      using big by (simp_all add: d less_eq_div_iff_mult_less_eq less_mult_imp_div_less mult.commute)
    then have "length (PutUvarint (drop_bit 7 x)) = n"
      using Suc.prems False m by (intro Suc.IH) auto
    then show ?thesis using x by (subst PutUvarint.simps) simp
  qed
qed simp

text \<open>
  How many words a code has: one per password byte, and for the slot one word below 128, two
  below \<open>2^14\<close>, three below \<open>2^21\<close>. So every slot the server hands out takes at most three words.
\<close>
theorem code_length:
  assumes "pass \<noteq> []"
  shows "length (code_parts (wl_Encode slot pass)) = length (PutUvarint slot) + length pass \<and>
    (unat slot < 2 ^ 7 \<longrightarrow> length (PutUvarint slot) = 1) \<and>
    (2 ^ 7 \<le> unat slot \<and> unat slot < 2 ^ 14 \<longrightarrow> length (PutUvarint slot) = 2) \<and>
    (2 ^ 14 \<le> unat slot \<and> unat slot < 2 ^ 21 \<longrightarrow> length (PutUvarint slot) = 3)"
proof -
  have "code_parts (wl_Encode slot pass) = words_of slot pass"
    using assms words_of_lower[of slot pass]
    by (simp add: wl_Encode_words code_parts_Join list_all_iff code_word_lower)
  then show ?thesis
    using length_PutUvarint[of 1 slot] length_PutUvarint[of 2 slot] length_PutUvarint[of 3 slot]
    by (simp add: words_of_def)
qed

theorem code_length_witness: "length (code_parts (wl_Encode 16384 [1, 2])) = 5"
  using code_length[of "[1, 2]" 16384] by simp

end
