(* ===== verification/Relay.thy ===== *)
theory Relay
  imports Slots
begin

text \<open>
  The rendezvous of the signalling server, \<open>relay\<close> of \<open>src/cmd/ww/server.go\<close>, as a step relation
  over any number of WebSocket connections. Each runs two goroutines: one books a slot or joins
  one, the other forwards what the client sends. A booked slot holds an unbuffered channel, named
  here by the connection that made it; the two directions of the exchange over it are meetings of
  two goroutines. The clients, the timeouts and the outcome of each write are the environment;
  the race on \<open>rconn\<close> between the two goroutines is a single variable read and written at once.
\<close>

text \<open>
  The first goroutine: owners book a slot, announce it and wait on their channel for a joiner, whose
  connection they then receive; joiners take a slot, announce and receive the owner's connection,
  and send their own.
\<close>
datatype rphase =
    SStart
  | SAnnounce
  | SWait
  | SGot
  | JAnnounce nat
  | JWait nat
  | JSend nat
  | SEnd

record hstate =
  slotkey :: string
  rconn :: "nat option"
  ctx_done :: bool
  phase :: rphase
  reading :: bool

record server =
  slots :: "(string \<times> nat) list"
  slotsGuage :: nat
  hs :: "hstate list"

datatype revent =
    Quiet
  | Arrive string
  | Booked nat string
  | Announced nat
  | Matched nat nat
  | CloseConn nat nat
  | Forward nat nat "byte list"

text \<open>What \<open>conn.Read\<close> returns: a close status or another error, or a message.\<close>
type_synonym rd = "ws_error + byte list"

definition no_slots :: server where
  "no_slots = \<lparr>slots = [], slotsGuage = 0, hs = []\<rparr>"

definition set_h :: "nat \<Rightarrow> hstate \<Rightarrow> server \<Rightarrow> server" where
  "set_h j h s = s\<lparr>hs := (hs s)[j := h]\<rparr>"

definition set_slots :: "(string \<times> nat) list \<Rightarrow> server \<Rightarrow> server" where
  "set_slots m s = s\<lparr>slots := m, slotsGuage := length m\<rparr>"

definition unslot :: "string \<Rightarrow> server \<Rightarrow> server" where
  "unslot key s = set_slots (AList.delete key (slots s)) s"

text \<open>A new connection with the path \<open>/key\<close>; one that speaks another protocol is only closed.\<close>
definition arrive :: "bool \<Rightarrow> string \<Rightarrow> server \<Rightarrow> revent \<times> server" where
  "arrive right_protocol key s =
     (let h = \<lparr>slotkey = key, rconn = None, ctx_done = \<not> right_protocol,
               phase = (if right_protocol then SStart else SEnd), reading = right_protocol\<rparr>
      in (if right_protocol then Arrive key else CloseConn (length (hs s)) CloseWrongProto,
          s\<lparr>hs := hs s @ [h]\<rparr>))"

text \<open>The goroutine of connection \<open>j\<close>, without its meetings.\<close>
definition book :: "(nat \<Rightarrow> nat) \<Rightarrow> nat \<Rightarrow> server \<Rightarrow> (revent \<times> server) list" where
  "book rnd j s =
     (case freeslot (slots s) rnd of
        None \<Rightarrow> [(CloseConn j CloseNoMoreSlots, set_h j ((hs s ! j)\<lparr>phase := SEnd\<rparr>) s)]
      | Some key \<Rightarrow>
          [(Booked j key, set_h j ((hs s ! j)\<lparr>slotkey := key, phase := SAnnounce\<rparr>)
             (set_slots (AList.update key j (slots s)) s))])"

definition join :: "nat \<Rightarrow> server \<Rightarrow> (revent \<times> server) list" where
  "join j s =
     (case map_of (slots s) (slotkey (hs s ! j)) of
        None \<Rightarrow> [(CloseConn j CloseNoSuchSlot, set_h j ((hs s ! j)\<lparr>phase := SEnd\<rparr>) s)]
      | Some sc \<Rightarrow>
          [(Quiet, set_h j ((hs s ! j)\<lparr>phase := JAnnounce sc\<rparr>) (unslot (slotkey (hs s ! j)) s))])"

text \<open>The write of the first message succeeds, or fails.\<close>
definition announce :: "nat \<Rightarrow> server \<Rightarrow> (revent \<times> server) list" where
  "announce j s =
     [(Announced j, set_h j ((hs s ! j)\<lparr>phase := SWait\<rparr>) s),
      (Quiet, set_h j ((hs s ! j)\<lparr>phase := SEnd\<rparr>) (unslot (slotkey (hs s ! j)) s))]"

definition join_announce :: "nat \<Rightarrow> nat \<Rightarrow> server \<Rightarrow> (revent \<times> server) list" where
  "join_announce sc j s =
     [(Announced j, set_h j ((hs s ! j)\<lparr>phase := JWait sc\<rparr>) s),
      (Quiet, set_h j ((hs s ! j)\<lparr>phase := SEnd\<rparr>) s)]"

text \<open>\<open><-ctx.Done()\<close>: only the owner returns; the joiner goes on to send on the channel.\<close>
definition wait_done :: "nat \<Rightarrow> server \<Rightarrow> (revent \<times> server) list" where
  "wait_done j s =
     (if ctx_done (hs s ! j)
      then [(CloseConn j CloseSlotTimedOut,
             set_h j ((hs s ! j)\<lparr>phase := SEnd\<rparr>) (unslot (slotkey (hs s ! j)) s))]
      else [])"

definition join_wait_done :: "nat \<Rightarrow> nat \<Rightarrow> server \<Rightarrow> (revent \<times> server) list" where
  "join_wait_done sc j s =
     (if ctx_done (hs s ! j)
      then [(CloseConn j CloseSlotTimedOut, set_h j ((hs s ! j)\<lparr>phase := JSend sc\<rparr>) s)]
      else [])"

definition setup_steps :: "(nat \<Rightarrow> nat) \<Rightarrow> nat \<Rightarrow> server \<Rightarrow> (revent \<times> server) list" where
  "setup_steps rnd j s =
     (case phase (hs s ! j) of
        SStart \<Rightarrow> if slotkey (hs s ! j) = '''' then book rnd j s else join j s
      | SAnnounce \<Rightarrow> announce j s
      | SWait \<Rightarrow> wait_done j s
      | JAnnounce sc \<Rightarrow> join_announce sc j s
      | JWait sc \<Rightarrow> join_wait_done sc j s
      | _ \<Rightarrow> [])"

text \<open>
  \<open>sc <- conn\<close> of connection \<open>i\<close> meets \<open>rconn = <-sc\<close> of connection \<open>j\<close>, both on the channel \<open>sc\<close>: the
  receiver stores the sender's connection.
\<close>
definition sends_on :: "nat \<Rightarrow> nat \<Rightarrow> server \<Rightarrow> bool" where
  "sends_on sc i s \<longleftrightarrow> i < length (hs s) \<and> (phase (hs s ! i) = SWait \<and> sc = i \<or> phase (hs s ! i) = JSend sc)"

definition receives_on :: "nat \<Rightarrow> nat \<Rightarrow> server \<Rightarrow> bool" where
  "receives_on sc j s \<longleftrightarrow> j < length (hs s) \<and> (phase (hs s ! j) = SGot \<and> sc = j \<or> phase (hs s ! j) = JWait sc)"

definition after_send :: "hstate \<Rightarrow> hstate" where
  "after_send h = h\<lparr>phase := (if phase h = SWait then SGot else SEnd)\<rparr>"

definition after_receive :: "nat \<Rightarrow> nat \<Rightarrow> hstate \<Rightarrow> hstate" where
  "after_receive sc i h = h\<lparr>rconn := Some i, phase := (if phase h = SGot then SEnd else JSend sc)\<rparr>"

definition meet :: "nat \<Rightarrow> nat \<Rightarrow> nat \<Rightarrow> server \<Rightarrow> server" where
  "meet sc i j s = set_h j (after_receive sc i (hs s ! j)) (set_h i (after_send (hs s ! i)) s)"

text \<open>
  One round of the loop of \<open>relay\<close> on what the client sent. It ends with the deferred cancellation
  of the context; \<open>wrote\<close> tells whether the forwarding write succeeds.
\<close>
definition stop_reading :: "nat \<Rightarrow> server \<Rightarrow> server" where
  "stop_reading j s = set_h j ((hs s ! j)\<lparr>reading := False, ctx_done := True\<rparr>) s"

definition close_peer :: "nat \<Rightarrow> nat \<Rightarrow> server \<Rightarrow> revent" where
  "close_peer j status s = (case rconn (hs s ! j) of None \<Rightarrow> Quiet | Some k \<Rightarrow> CloseConn k status)"

definition ice_reports :: "nat list" where
  "ice_reports = [CloseWebRTCFailed, CloseWebRTCSuccess, CloseWebRTCSuccessDirect, CloseWebRTCSuccessRelay]"

definition on_read :: "nat \<Rightarrow> rd \<Rightarrow> bool \<Rightarrow> server \<Rightarrow> revent \<times> server" where
  "on_read j r wrote s =
     (case r of
        Inl e \<Rightarrow>
          (if CloseStatus e = Some CloseBadKey then close_peer j CloseBadKey s
           else if CloseStatus e \<in> Some ` set ice_reports then Quiet
           else close_peer j ClosePeerHungUp s,
           stop_reading j s)
      | Inr p \<Rightarrow>
          (case rconn (hs s ! j) of
             None \<Rightarrow> (Quiet, stop_reading j s)
           | Some k \<Rightarrow> (Forward j k p, if wrote then s else stop_reading j s)))"

inductive rstep :: "server \<Rightarrow> revent \<Rightarrow> server \<Rightarrow> bool" where
  r_arrive: "arrive ok key s = (e, s') \<Longrightarrow> rstep s e s'"
| r_setup: "j < length (hs s) \<Longrightarrow> (e, s') \<in> set (setup_steps rnd j s) \<Longrightarrow> rstep s e s'"
| r_meet: "i \<noteq> j \<Longrightarrow> sends_on sc i s \<Longrightarrow> receives_on sc j s \<Longrightarrow> rstep s (Matched i j) (meet sc i j s)"
| r_read: "j < length (hs s) \<Longrightarrow> reading (hs s ! j) \<Longrightarrow> on_read j r wrote s = (e, s') \<Longrightarrow> rstep s e s'"
| r_expire: "j < length (hs s) \<Longrightarrow> rstep s Quiet (set_h j ((hs s ! j)\<lparr>ctx_done := True\<rparr>) s)"

inductive rrun :: "server \<Rightarrow> revent list \<Rightarrow> server \<Rightarrow> bool" where
  rrun_nil: "rrun s [] s"
| rrun_snoc: "rrun s tr s' \<Longrightarrow> rstep s' e s'' \<Longrightarrow> rrun s (tr @ [e]) s''"

inductive_cases rstep_E: "rstep s e s'"

section \<open>The invariant\<close>

text \<open>
  What the invariant is about: the phase of each connection that exists, the connection each has
  stored, its slot key, and the table of slots. Every operation is an update of these functions.
\<close>
definition joining :: "rphase option \<Rightarrow> nat option" where
  "joining u = (case u of Some (JAnnounce sc) \<Rightarrow> Some sc | Some (JWait sc) \<Rightarrow> Some sc
     | Some (JSend sc) \<Rightarrow> Some sc | _ \<Rightarrow> None)"

lemma joining_simps [simp]:
  "joining None = None" "joining (Some SStart) = None" "joining (Some SAnnounce) = None"
  "joining (Some SWait) = None" "joining (Some SGot) = None" "joining (Some SEnd) = None"
  "joining (Some (JAnnounce c)) = Some c" "joining (Some (JWait c)) = Some c" "joining (Some (JSend c)) = Some c"
  by (simp_all add: joining_def)

definition slots_inv :: "(nat \<Rightarrow> rphase option) \<Rightarrow> (nat \<Rightarrow> string) \<Rightarrow> (string \<rightharpoonup> nat) \<Rightarrow> bool" where
  "slots_inv P K M \<longleftrightarrow> (\<forall>k c. M k = Some c \<longrightarrow> K c = k \<and> P c \<in> {Some SAnnounce, Some SWait})"

definition joins_inv :: "(nat \<Rightarrow> rphase option) \<Rightarrow> (string \<rightharpoonup> nat) \<Rightarrow> bool" where
  "joins_inv P M \<longleftrightarrow> (\<forall>j c. joining (P j) = Some c \<longrightarrow>
     P c \<in> {Some SAnnounce, Some SWait, Some SGot, Some SEnd} \<and> (\<forall>k. M k \<noteq> Some c)
     \<and> (\<forall>j'. joining (P j') = Some c \<longrightarrow> j' = j))"

definition pairs_inv :: "(nat \<Rightarrow> rphase option) \<Rightarrow> (nat \<Rightarrow> nat option) \<Rightarrow> bool" where
  "pairs_inv P C \<longleftrightarrow>
     (\<forall>j k. C j = Some k \<longrightarrow> j \<noteq> k \<and>
        (C k = Some j \<and> P j = Some SEnd \<and> P k = Some SEnd \<or> P j = Some (JSend k) \<and> P k = Some SGot))
     \<and> (\<forall>c. P c = Some SGot \<longrightarrow> (\<exists>j. C j = Some c) \<and> C c = None)"

definition core :: "(nat \<Rightarrow> rphase option) \<Rightarrow> (nat \<Rightarrow> nat option) \<Rightarrow> (nat \<Rightarrow> string) \<Rightarrow> (string \<rightharpoonup> nat) \<Rightarrow> bool" where
  "core P C K M \<longleftrightarrow> slots_inv P K M \<and> joins_inv P M \<and> pairs_inv P C"

text \<open>A connection whose phase is outside an exchange is in no pair.\<close>
lemma pairs_inv_out:
  assumes "pairs_inv P C" "P j \<notin> {Some SEnd, Some SGot} \<and> (\<forall>c. P j \<noteq> Some (JSend c))"
  shows "C j = None" "C i \<noteq> Some j"
proof -
  show "C j = None" using assms unfolding pairs_inv_def by (cases "C j") blast+
  show "C i \<noteq> Some j" using assms unfolding pairs_inv_def by blast
qed

text \<open>A phase outside an exchange changes to another one, with no new join.\<close>
lemma pairs_inv_phase:
  assumes "pairs_inv P C" "P j \<notin> {Some SEnd, Some SGot} \<and> (\<forall>c. P j \<noteq> Some (JSend c))" "u \<noteq> SGot"
  shows "pairs_inv (P(j \<mapsto> u)) C"
proof -
  have "C j = None" "\<And>i. C i \<noteq> Some j" using pairs_inv_out[OF assms(1,2)] by simp_all
  with assms show ?thesis unfolding pairs_inv_def by auto
qed

lemma slots_invD:
  assumes "slots_inv P K M" "M k = Some c"
  shows "K c = k" "P c = Some SAnnounce \<or> P c = Some SWait"
  using assms unfolding slots_inv_def by blast+

lemma slots_inv_out: "slots_inv P K M \<Longrightarrow> P j \<noteq> Some SAnnounce \<Longrightarrow> P j \<noteq> Some SWait \<Longrightarrow> M k \<noteq> Some j"
  unfolding slots_inv_def by blast

lemma slots_invI:
  "(\<And>k c. M k = Some c \<Longrightarrow> K c = k \<and> (P c = Some SAnnounce \<or> P c = Some SWait)) \<Longrightarrow> slots_inv P K M"
  unfolding slots_inv_def by blast

lemma joins_invD:
  assumes "joins_inv P M" "joining (P j) = Some c"
  shows "P c = Some SAnnounce \<or> P c = Some SWait \<or> P c = Some SGot \<or> P c = Some SEnd"
    "M k \<noteq> Some c" "joining (P i) = Some c \<Longrightarrow> i = j"
  using assms unfolding joins_inv_def by blast+

lemma joins_inv_out:
  assumes "joins_inv P M" "P c = None \<or> P c = Some SStart \<or> joining (P c) \<noteq> None \<or> M k = Some c"
  shows "joining (P j) \<noteq> Some c"
  using assms joins_invD[OF assms(1)] by fastforce

lemma joins_invI:
  "(\<And>j c. joining (P j) = Some c \<Longrightarrow> (P c = Some SAnnounce \<or> P c = Some SWait \<or> P c = Some SGot \<or> P c = Some SEnd)
     \<and> (\<forall>k. M k \<noteq> Some c) \<and> (\<forall>j'. joining (P j') = Some c \<longrightarrow> j' = j)) \<Longrightarrow> joins_inv P M"
  unfolding joins_inv_def by blast

text \<open>A phase with no join changes to another one with no join, and slots only of its own come and go.\<close>
lemma joins_inv_phase:
  assumes inv: "joins_inv P M" and u: "joining (Some u) = None" "joining (P j) = None \<or> u = SEnd"
    and j: "\<And>i. joining (P i) \<noteq> Some j \<or> u \<in> {SAnnounce, SWait, SEnd}"
    and m: "\<And>k c. M' k = Some c \<Longrightarrow> M k = Some c \<or> c = j \<and> (\<forall>i. joining (P i) \<noteq> Some j)"
  shows "joins_inv (P(j \<mapsto> u)) M'"
proof (rule joins_invI)
  fix i c assume i: "joining ((P(j \<mapsto> u)) i) = Some c"
  then have ij: "i \<noteq> j" "joining (P i) = Some c" using u(1) by (auto split: if_splits)
  note d = joins_invD[OF inv ij(2)]
  have "(P(j \<mapsto> u)) c = Some SAnnounce \<or> (P(j \<mapsto> u)) c = Some SWait \<or> (P(j \<mapsto> u)) c = Some SGot
      \<or> (P(j \<mapsto> u)) c = Some SEnd"
    using d(1) j[of i] ij(2) by auto
  moreover have "M' k \<noteq> Some c" for k using m[of k c] d(2)[of k] ij(2) by auto
  moreover have "joining ((P(j \<mapsto> u)) j') = Some c \<Longrightarrow> j' = i" for j'
    using d(3)[of j'] u(1) by (auto split: if_splits)
  ultimately show "((P(j \<mapsto> u)) c = Some SAnnounce \<or> (P(j \<mapsto> u)) c = Some SWait \<or> (P(j \<mapsto> u)) c = Some SGot
      \<or> (P(j \<mapsto> u)) c = Some SEnd) \<and> (\<forall>k. M' k \<noteq> Some c)
      \<and> (\<forall>j'. joining ((P(j \<mapsto> u)) j') = Some c \<longrightarrow> j' = i)" by blast
qed

lemma core_arrive:
  assumes "core P C K M" "P j = None" "u \<in> {SStart, SEnd}"
  shows "core (P(j \<mapsto> u)) C (K(j := key)) M"
proof -
  from assms(1) have inv: "slots_inv P K M" "joins_inv P M" "pairs_inv P C" by (simp_all add: core_def)
  have nj: "M k \<noteq> Some j" for k using slots_inv_out[OF inv(1)] assms(2) by simp
  have "slots_inv (P(j \<mapsto> u)) (K(j := key)) M"
    using nj slots_invD[OF inv(1)] by (intro slots_invI) auto
  moreover have "joins_inv (P(j \<mapsto> u)) M"
    using assms joins_inv_out[OF inv(2)] by (intro joins_inv_phase[OF inv(2)]) auto
  ultimately show ?thesis using assms inv by (auto simp: core_def intro: pairs_inv_phase)
qed

lemma core_book:
  assumes "core P C K M" "P j = Some SStart" "M key = None"
  shows "core (P(j \<mapsto> SAnnounce)) C (K(j := key)) (M(key \<mapsto> j))"
proof -
  from assms(1) have inv: "slots_inv P K M" "joins_inv P M" "pairs_inv P C" by (simp_all add: core_def)
  have nj: "M k \<noteq> Some j" for k using slots_inv_out[OF inv(1)] assms(2) by simp
  have "slots_inv (P(j \<mapsto> SAnnounce)) (K(j := key)) (M(key \<mapsto> j))"
    using nj slots_invD[OF inv(1)] by (intro slots_invI) (auto split: if_splits)
  moreover have "joins_inv (P(j \<mapsto> SAnnounce)) (M(key \<mapsto> j))"
    using assms joins_inv_out[OF inv(2)] by (intro joins_inv_phase[OF inv(2)]) (auto split: if_splits)
  ultimately show ?thesis using assms inv by (auto simp: core_def intro: pairs_inv_phase)
qed

lemma core_owner_end:
  assumes "core P C K M" "P j = Some SAnnounce \<or> P j = Some SWait"
  shows "core (P(j \<mapsto> SEnd)) C K (M(K j := None))"
proof -
  from assms(1) have inv: "slots_inv P K M" "joins_inv P M" "pairs_inv P C" by (simp_all add: core_def)
  have "slots_inv (P(j \<mapsto> SEnd)) K (M(K j := None))"
    using slots_invD[OF inv(1)] by (intro slots_invI) (auto split: if_splits)
  moreover have "joins_inv (P(j \<mapsto> SEnd)) (M(K j := None))"
    using assms by (intro joins_inv_phase[OF inv(2)]) (auto split: if_splits)
  ultimately show ?thesis using assms inv by (auto simp: core_def intro: pairs_inv_phase)
qed

lemma core_announced:
  assumes "core P C K M" "P j = Some SAnnounce"
  shows "core (P(j \<mapsto> SWait)) C K M"
proof -
  from assms(1) have inv: "slots_inv P K M" "joins_inv P M" "pairs_inv P C" by (simp_all add: core_def)
  have "slots_inv (P(j \<mapsto> SWait)) K M" using slots_invD[OF inv(1)] by (intro slots_invI) auto
  moreover have "joins_inv (P(j \<mapsto> SWait)) M"
    using assms by (intro joins_inv_phase[OF inv(2)]) auto
  ultimately show ?thesis using assms inv by (auto simp: core_def intro: pairs_inv_phase)
qed

lemma core_end:
  assumes "core P C K M" "P j = Some SStart \<or> P j = Some (JAnnounce c)"
  shows "core (P(j \<mapsto> SEnd)) C K M"
proof -
  from assms(1) have inv: "slots_inv P K M" "joins_inv P M" "pairs_inv P C" by (simp_all add: core_def)
  have nj: "M k \<noteq> Some j" for k using slots_inv_out[OF inv(1)] assms(2) by auto
  have "slots_inv (P(j \<mapsto> SEnd)) K M" using nj slots_invD[OF inv(1)] by (intro slots_invI) auto
  moreover have "joins_inv (P(j \<mapsto> SEnd)) M"
    using assms by (intro joins_inv_phase[OF inv(2)]) auto
  ultimately show ?thesis using assms inv by (auto simp: core_def intro: pairs_inv_phase)
qed

lemma core_join:
  assumes "core P C K M" "P j = Some SStart" "M key = Some c"
  shows "core (P(j \<mapsto> JAnnounce c)) C K (M(key := None))"
proof -
  from assms(1) have inv: "slots_inv P K M" "joins_inv P M" "pairs_inv P C" by (simp_all add: core_def)
  note c = slots_invD[OF inv(1) assms(3)]
  have cj: "c \<noteq> j" using c(2) assms(2) by auto
  have m: "(M(key := None)) k \<noteq> Some c" for k using slots_invD(1)[OF inv(1), of k c] c(1) by auto
  have f: "joining (P i) \<noteq> Some c" "joining (P i) \<noteq> Some j" for i
    using joins_inv_out[OF inv(2)] assms(2,3) by blast+
  have nj: "M k \<noteq> Some j" for k using slots_inv_out[OF inv(1)] assms(2) by simp
  have "slots_inv (P(j \<mapsto> JAnnounce c)) K (M(key := None))"
    using nj slots_invD[OF inv(1)] by (intro slots_invI) (auto split: if_splits)
  moreover have "joins_inv (P(j \<mapsto> JAnnounce c)) (M(key := None))"
  proof (rule joins_invI)
    fix i d assume i: "joining ((P(j \<mapsto> JAnnounce c)) i) = Some d"
    show "((P(j \<mapsto> JAnnounce c)) d = Some SAnnounce \<or> (P(j \<mapsto> JAnnounce c)) d = Some SWait
        \<or> (P(j \<mapsto> JAnnounce c)) d = Some SGot \<or> (P(j \<mapsto> JAnnounce c)) d = Some SEnd)
        \<and> (\<forall>k. (M(key := None)) k \<noteq> Some d)
        \<and> (\<forall>j'. joining ((P(j \<mapsto> JAnnounce c)) j') = Some d \<longrightarrow> j' = i)"
    proof (cases "i = j")
      case True
      then have d: "d = c" using i by simp
      have "joining ((P(j \<mapsto> JAnnounce c)) j') = Some c \<Longrightarrow> j' = i" for j'
        using True f(1)[of j'] by (cases "j' = j") simp_all
      moreover have "(P(j \<mapsto> JAnnounce c)) c = Some SAnnounce \<or> (P(j \<mapsto> JAnnounce c)) c = Some SWait"
        using c(2) cj by simp
      moreover have "\<forall>k. (M(key := None)) k \<noteq> Some c" using m by blast
      ultimately show ?thesis unfolding d by blast
    next
      case False
      then have d: "joining (P i) = Some d" "d \<noteq> c" "d \<noteq> j" using i f by auto
      note old = joins_invD[OF inv(2) d(1)]
      have "(P(j \<mapsto> JAnnounce c)) d = P d" using d(3) by simp
      moreover have "(M(key := None)) k \<noteq> Some d" for k using old(2)[of k] by simp
      moreover have "joining ((P(j \<mapsto> JAnnounce c)) j') = Some d \<Longrightarrow> j' = i" for j'
        using old(3)[of j'] d(2) by (cases "j' = j") simp_all
      ultimately show ?thesis using old(1) by simp
    qed
  qed
  ultimately show ?thesis using assms inv by (auto simp: core_def intro: pairs_inv_phase)
qed

lemma core_joining:
  assumes "core P C K M" "P j = Some (JAnnounce c) \<and> u = JWait c \<or> P j = Some (JWait c) \<and> u = JSend c"
  shows "core (P(j \<mapsto> u)) C K M"
proof -
  from assms(1) have inv: "slots_inv P K M" "joins_inv P M" "pairs_inv P C" by (simp_all add: core_def)
  have jn: "joining ((P(j \<mapsto> u)) i) = joining (P i)" for i using assms(2) by auto
  have nj: "M k \<noteq> Some j" for k using slots_inv_out[OF inv(1)] assms(2) by auto
  have "slots_inv (P(j \<mapsto> u)) K M" using nj slots_invD[OF inv(1)] by (intro slots_invI) auto
  moreover have "joins_inv (P(j \<mapsto> u)) M"
  proof (rule joins_invI, unfold jn)
    fix i d assume i: "joining (P i) = Some d"
    have "d \<noteq> j" using joins_invD(1)[OF inv(2) i] assms(2) by auto
    then show "((P(j \<mapsto> u)) d = Some SAnnounce \<or> (P(j \<mapsto> u)) d = Some SWait
        \<or> (P(j \<mapsto> u)) d = Some SGot \<or> (P(j \<mapsto> u)) d = Some SEnd)
        \<and> (\<forall>k. M k \<noteq> Some d) \<and> (\<forall>j'. joining (P j') = Some d \<longrightarrow> j' = i)"
      using joins_invD[OF inv(2) i] by auto
  qed
  ultimately show ?thesis using assms inv by (auto simp: core_def intro: pairs_inv_phase)
qed

text \<open>The two meetings, and that no other ones can happen.\<close>
lemma core_meet_owner:
  assumes "core P C K M" "P i = Some SWait" "P j = Some (JWait i)"
  shows "core (P(i \<mapsto> SGot, j \<mapsto> JSend i)) (C(j \<mapsto> i)) K M"
proof -
  let ?P = "P(i \<mapsto> SGot, j \<mapsto> JSend i)"
  from assms(1) have inv: "slots_inv P K M" "joins_inv P M" "pairs_inv P C" by (simp_all add: core_def)
  have ne: "i \<noteq> j" using assms by auto
  have un: "C i = None" "C j = None" "\<And>k. C k \<noteq> Some i" "\<And>k. C k \<noteq> Some j"
    using pairs_inv_out[OF inv(3), of i] pairs_inv_out[OF inv(3), of j] assms by simp_all
  have jn: "joining (?P k) = joining (P k)" for k using assms(2,3) by auto
  have m: "M k \<noteq> Some i" "M k \<noteq> Some j" for k
    using joins_invD(2)[OF inv(2), of j i] slots_inv_out[OF inv(1), of j] assms(3) by auto
  have "slots_inv ?P K M" using m slots_invD[OF inv(1)] by (intro slots_invI) auto
  moreover have "joins_inv ?P M"
  proof (rule joins_invI, unfold jn)
    fix k d assume k: "joining (P k) = Some d"
    have "d \<noteq> j" using joins_invD(1)[OF inv(2) k] assms(3) by auto
    then show "(?P d = Some SAnnounce \<or> ?P d = Some SWait \<or> ?P d = Some SGot \<or> ?P d = Some SEnd)
        \<and> (\<forall>k. M k \<noteq> Some d) \<and> (\<forall>j'. joining (P j') = Some d \<longrightarrow> j' = k)"
      using joins_invD[OF inv(2) k] by auto
  qed
  moreover have "pairs_inv ?P (C(j \<mapsto> i))"
    using inv(3) ne un unfolding pairs_inv_def by (auto, metis option.distinct(1))
  ultimately show ?thesis by (simp add: core_def)
qed

lemma core_meet_joiner:
  assumes "core P C K M" "P i = Some (JSend j)" "P j = Some SGot"
  shows "C i = Some j" "core (P(i \<mapsto> SEnd, j \<mapsto> SEnd)) (C(j \<mapsto> i)) K M"
proof -
  let ?P = "P(i \<mapsto> SEnd, j \<mapsto> SEnd)"
  from assms(1) have inv: "slots_inv P K M" "joins_inv P M" "pairs_inv P C" by (simp_all add: core_def)
  have ne: "i \<noteq> j" using assms by auto
  have one: "C d = Some j \<Longrightarrow> d = i" for d
  proof -
    assume "C d = Some j"
    then have "P d = Some (JSend j)" using inv(3) assms(3) unfolding pairs_inv_def by fastforce
    then show "d = i" using joins_invD(3)[OF inv(2), of i j d] assms(2) by simp
  qed
  have j: "C j = None" "\<exists>k. C k = Some j" using inv(3) assms(3) unfolding pairs_inv_def by blast+
  show ci: "C i = Some j" using j(2) one by blast
  have noi: "C d \<noteq> Some i" for d
  proof
    assume "C d = Some i"
    then have "P i = Some SEnd \<or> P i = Some SGot" using inv(3) unfolding pairs_inv_def by blast
    with assms(2) show False by simp
  qed
  have m: "M k \<noteq> Some i" "M k \<noteq> Some j" for k
    using slots_inv_out[OF inv(1), of i] slots_inv_out[OF inv(1), of j] assms(2,3) by auto
  have "slots_inv ?P K M" using m slots_invD[OF inv(1)] by (intro slots_invI) auto
  moreover have "joins_inv ?P M"
  proof (rule joins_invI)
    fix k d assume "joining (?P k) = Some d"
    then have k: "joining (P k) = Some d" "k \<noteq> i" "k \<noteq> j" by (auto split: if_splits)
    have "d \<noteq> i" using joins_invD(1)[OF inv(2) k(1)] assms(2) by auto
    then show "(?P d = Some SAnnounce \<or> ?P d = Some SWait \<or> ?P d = Some SGot \<or> ?P d = Some SEnd)
        \<and> (\<forall>k. M k \<noteq> Some d) \<and> (\<forall>j'. joining (?P j') = Some d \<longrightarrow> j' = k)"
      using joins_invD[OF inv(2) k(1)] by (auto split: if_splits)
  qed
  moreover have "pairs_inv ?P (C(j \<mapsto> i))"
  proof -
    have old: "C a = Some b \<Longrightarrow> a \<noteq> b \<and> (C b = Some a \<and> P a = Some SEnd \<and> P b = Some SEnd
        \<or> P a = Some (JSend b) \<and> P b = Some SGot)" for a b
      using inv(3) unfolding pairs_inv_def by blast
    have got: "P c = Some SGot \<Longrightarrow> (\<exists>k. C k = Some c) \<and> C c = None" for c
      using inv(3) unfolding pairs_inv_def by blast
    show ?thesis
      unfolding pairs_inv_def
    proof (intro conjI allI impI)
      fix a b assume ab: "(C(j \<mapsto> i)) a = Some b"
      show "a \<noteq> b" using ab old[of a b] ne by (auto split: if_splits)
      show "(C(j \<mapsto> i)) b = Some a \<and> ?P a = Some SEnd \<and> ?P b = Some SEnd \<or> ?P a = Some (JSend b) \<and> ?P b = Some SGot"
      proof (cases "a = j \<or> a = i")
        case True
        then show ?thesis
        proof
          assume a: "a = j"
          then have "b = i" using ab by simp
          then show ?thesis using a ci ne by simp
        next
          assume a: "a = i"
          then have "b = j" using ab ci ne by simp
          then show ?thesis using a by simp
        qed
      next
        case False
        then have c: "C a = Some b" "b \<noteq> j" "b \<noteq> i" using ab one[of a] noi by (auto split: if_splits)
        have "(C(j \<mapsto> i)) b = C b" "?P a = P a" "?P b = P b" using c False by simp_all
        with old[OF c(1)] show ?thesis by simp
      qed
    next
      fix c assume c: "?P c = Some SGot"
      then have "P c = Some SGot" "c \<noteq> i" "c \<noteq> j" by (auto split: if_splits)
      then obtain k where k: "C k = Some c" "C c = None" "c \<noteq> j" using got by blast
      then have "(C(j \<mapsto> i)) k = Some c" using j(1) by (cases "k = j") simp_all
      then show "\<exists>k. (C(j \<mapsto> i)) k = Some c" by blast
      show "(C(j \<mapsto> i)) c = None" using k by simp
    qed
  qed
  ultimately show "core ?P (C(j \<mapsto> i)) K M" by (simp add: core_def)
qed

lemma core_no_joiners_meet:
  assumes "core P C K M" "i \<noteq> j" "joining (P i) = Some c"
  shows "joining (P j) \<noteq> Some c"
  using assms unfolding core_def joins_inv_def by blast

section \<open>Every step keeps it\<close>

definition P_of :: "server \<Rightarrow> nat \<Rightarrow> rphase option" where
  "P_of s i = (if i < length (hs s) then Some (phase (hs s ! i)) else None)"

definition C_of :: "server \<Rightarrow> nat \<Rightarrow> nat option" where
  "C_of s i = (if i < length (hs s) then rconn (hs s ! i) else None)"

definition K_of :: "server \<Rightarrow> nat \<Rightarrow> string" where
  "K_of s i = (if i < length (hs s) then slotkey (hs s ! i) else '''')"

definition server_ok :: "server \<Rightarrow> bool" where
  "server_ok s \<longleftrightarrow> core (P_of s) (C_of s) (K_of s) (map_of (slots s))
     \<and> distinct (map fst (slots s)) \<and> slotsGuage s = length (slots s)"

lemma relay_simps [simp]:
  "slots (set_h j h s) = slots s" "slotsGuage (set_h j h s) = slotsGuage s"
  "length (hs (set_h j h s)) = length (hs s)" "hs (set_slots m s) = hs s" "slots (set_slots m s) = m"
  "slotsGuage (set_slots m s) = length m" "hs (unslot k s) = hs s"
  "slots (unslot k s) = AList.delete k (slots s)" "slotsGuage (unslot k s) = length (AList.delete k (slots s))"
  by (simp_all add: set_h_def set_slots_def unslot_def)

lemma set_h_core:
  assumes "j < length (hs s)"
  shows "P_of (set_h j h s) = (P_of s)(j \<mapsto> phase h)" "C_of (set_h j h s) = (C_of s)(j := rconn h)"
    "K_of (set_h j h s) = (K_of s)(j := slotkey h)"
  using assms by (auto simp: P_of_def C_of_def K_of_def set_h_def fun_eq_iff nth_list_update)

lemma slots_core [simp]:
  "P_of (set_slots m s) = P_of s" "C_of (set_slots m s) = C_of s" "K_of (set_slots m s) = K_of s"
  "P_of (unslot k s) = P_of s" "C_of (unslot k s) = C_of s" "K_of (unslot k s) = K_of s"
  by (simp_all add: P_of_def C_of_def K_of_def fun_eq_iff)

lemma at_core:
  "j < length (hs s) \<Longrightarrow> P_of s j = Some (phase (hs s ! j))" "j < length (hs s) \<Longrightarrow> C_of s j = rconn (hs s ! j)"
  "j < length (hs s) \<Longrightarrow> K_of s j = slotkey (hs s ! j)"
  by (simp_all add: P_of_def C_of_def K_of_def)

lemma upd_same: "j < length (hs s) \<Longrightarrow> (C_of s)(j := rconn (hs s ! j)) = C_of s"
  "j < length (hs s) \<Longrightarrow> (K_of s)(j := slotkey (hs s ! j)) = K_of s"
  "j < length (hs s) \<Longrightarrow> (P_of s)(j \<mapsto> phase (hs s ! j)) = P_of s"
  by (auto simp: P_of_def C_of_def K_of_def fun_eq_iff)

lemma map_of_delete: "map_of (AList.delete k xs) = (map_of xs)(k := None)"
  by (simp add: delete_conv' fun_eq_iff restrict_map_def)

text \<open>What an exchange or any other step does to the pairs.\<close>
definition matching :: "server \<Rightarrow> nat set set" where
  "matching s = {{j, k} | j k. C_of s j = Some k}"

lemma arrive_ok:
  assumes "server_ok s" "arrive ok key s = (e, s')"
  shows "server_ok s'" "C_of s' = C_of s"
proof -
  let ?n = "length (hs s)"
  have s': "P_of s' = (P_of s)(?n \<mapsto> (if ok then SStart else SEnd))" "C_of s' = C_of s"
    "K_of s' = (K_of s)(?n := key)" "slots s' = slots s" "slotsGuage s' = slotsGuage s"
    using assms(2) by (auto simp: arrive_def Let_def P_of_def C_of_def K_of_def fun_eq_iff nth_append less_Suc_eq)
  then show "C_of s' = C_of s" by simp
  have "core (P_of s') (C_of s') (K_of s') (map_of (slots s'))"
    unfolding s'(1-4)
    by (rule core_arrive) (use assms(1) in \<open>auto simp: server_ok_def P_of_def\<close>)
  then show "server_ok s'" using assms(1) s' by (simp add: server_ok_def)
qed

lemma book_ok:
  assumes "server_ok s" "j < length (hs s)" "phase (hs s ! j) = SStart" "(e, s') \<in> set (book rnd j s)"
  shows "server_ok s'" "C_of s' = C_of s"
proof -
  have c: "core (P_of s) (C_of s) (K_of s) (map_of (slots s))" "P_of s j = Some SStart"
    using assms by (simp_all add: server_ok_def at_core)
  show "C_of s' = C_of s"
    using assms by (auto simp: book_def set_h_core upd_same split: option.splits)
  show "server_ok s'"
  proof (cases "freeslot (slots s) rnd")
    case None
    then have "s' = set_h j ((hs s ! j)\<lparr>phase := SEnd\<rparr>) s" using assms(4) by (simp add: book_def)
    then show ?thesis using assms(1,2) core_end[OF c(1)] c(2)
      by (simp add: server_ok_def set_h_core upd_same)
  next
    case (Some key)
    then have "s' = set_h j ((hs s ! j)\<lparr>slotkey := key, phase := SAnnounce\<rparr>)
        (set_slots (AList.update key j (slots s)) s)" using assms(4) by (simp add: book_def)
    then show ?thesis using assms(1,2) core_book[OF c, of key] freeslot_free(1)[OF Some]
      by (simp add: server_ok_def set_h_core upd_same update_conv' distinct_update)
  qed
qed

lemma join_ok:
  assumes "server_ok s" "j < length (hs s)" "phase (hs s ! j) = SStart" "(e, s') \<in> set (join j s)"
  shows "server_ok s'" "C_of s' = C_of s"
proof -
  have c: "core (P_of s) (C_of s) (K_of s) (map_of (slots s))" "P_of s j = Some SStart"
    using assms by (simp_all add: server_ok_def at_core)
  show "C_of s' = C_of s"
    using assms by (auto simp: join_def set_h_core upd_same split: option.splits)
  show "server_ok s'"
  proof (cases "map_of (slots s) (slotkey (hs s ! j))")
    case None
    then have "s' = set_h j ((hs s ! j)\<lparr>phase := SEnd\<rparr>) s" using assms(4) by (simp add: join_def)
    then show ?thesis using assms(1,2) core_end[OF c(1)] c(2)
      by (simp add: server_ok_def set_h_core upd_same)
  next
    case (Some sc)
    then have "s' = set_h j ((hs s ! j)\<lparr>phase := JAnnounce sc\<rparr>) (unslot (slotkey (hs s ! j)) s)"
      using assms(4) by (simp add: join_def)
    then show ?thesis using assms(1,2) core_join[OF c Some]
      by (simp add: server_ok_def set_h_core upd_same map_of_delete distinct_delete)
  qed
qed

lemma owner_ends_ok:
  assumes "server_ok s" "j < length (hs s)" "phase (hs s ! j) = SAnnounce \<or> phase (hs s ! j) = SWait"
  shows "server_ok (set_h j ((hs s ! j)\<lparr>phase := SEnd\<rparr>) (unslot (slotkey (hs s ! j)) s))"
proof -
  have "core (P_of s) (C_of s) (K_of s) (map_of (slots s))" "P_of s j = Some SAnnounce \<or> P_of s j = Some SWait"
    using assms by (simp_all add: server_ok_def at_core)
  from core_owner_end[OF this] show ?thesis using assms(1,2)
    by (simp add: server_ok_def set_h_core upd_same map_of_delete distinct_delete at_core)
qed

lemma phase_ok:
  assumes "server_ok s" "j < length (hs s)"
    "core ((P_of s)(j \<mapsto> u)) (C_of s) (K_of s) (map_of (slots s))"
  shows "server_ok (set_h j ((hs s ! j)\<lparr>phase := u\<rparr>) s)"
  using assms by (simp add: server_ok_def set_h_core upd_same)

lemma setup_ok:
  assumes ok: "server_ok s" and j: "j < length (hs s)" and h: "(e, s') \<in> set (setup_steps rnd j s)"
  shows "server_ok s' \<and> C_of s' = C_of s"
proof -
  have c: "core (P_of s) (C_of s) (K_of s) (map_of (slots s))" "P_of s j = Some (phase (hs s ! j))"
    using ok j by (simp_all add: server_ok_def at_core)
  have same: "C_of (set_h j ((hs s ! j)\<lparr>phase := u\<rparr>) s) = C_of s"
    "C_of (set_h j ((hs s ! j)\<lparr>phase := u\<rparr>) (unslot k s)) = C_of s" for u k
    using j by (simp_all add: set_h_core upd_same)
  show ?thesis
  proof (cases "phase (hs s ! j)")
    case SStart
    then show ?thesis
      using h book_ok[OF ok j SStart] join_ok[OF ok j SStart] by (simp add: setup_steps_def split: if_splits)
  next
    case SAnnounce
    then show ?thesis
      using h same owner_ends_ok[OF ok j] phase_ok[OF ok j core_announced[OF c(1)]] c(2)
      by (auto simp: setup_steps_def announce_def)
  next
    case SWait
    then show ?thesis
      using h same owner_ends_ok[OF ok j] by (auto simp: setup_steps_def wait_done_def split: if_splits)
  next
    case (JAnnounce sc)
    then show ?thesis
      using h same phase_ok[OF ok j core_joining[OF c(1), of j sc]] phase_ok[OF ok j core_end[OF c(1), of j sc]] c(2)
      by (auto simp: setup_steps_def join_announce_def)
  next
    case (JWait sc)
    then show ?thesis
      using h same phase_ok[OF ok j core_joining[OF c(1), of j sc]] c(2)
      by (auto simp: setup_steps_def join_wait_done_def split: if_splits)
  qed (use h in \<open>simp_all add: setup_steps_def\<close>)
qed

lemma read_ok:
  assumes "server_ok s" "j < length (hs s)" "on_read j r wrote s = (e, s')"
  shows "server_ok s' \<and> C_of s' = C_of s"
proof -
  have "server_ok (stop_reading j s) \<and> C_of (stop_reading j s) = C_of s"
    using assms(1,2) by (simp add: stop_reading_def server_ok_def set_h_core upd_same)
  moreover have "s' = s \<or> s' = stop_reading j s"
    using assms(3) by (auto simp: on_read_def split: sum.splits option.splits if_splits)
  ultimately show ?thesis using assms(1) by auto
qed

text \<open>A meeting either pairs two connections that were in no pair, or completes a pair.\<close>
lemma meet_ok:
  assumes ok: "server_ok s" and ij: "i \<noteq> j" and m: "sends_on sc i s" "receives_on sc j s"
  shows "server_ok (meet sc i j s)" "C_of (meet sc i j s) = (C_of s)(j \<mapsto> i)"
    "C_of s j = None \<and>
       (C_of s i = Some j \<or> C_of s i = None \<and> (\<forall>k. C_of s k \<noteq> Some i \<and> C_of s k \<noteq> Some j))"
proof -
  have c: "core (P_of s) (C_of s) (K_of s) (map_of (slots s))" using ok by (simp add: server_ok_def)
  have len: "i < length (hs s)" "j < length (hs s)" using m by (simp_all add: sends_on_def receives_on_def)
  let ?hi = "after_send (hs s ! i)" and ?hj = "after_receive sc i (hs s ! j)"
  have eq: "P_of (meet sc i j s) = (P_of s)(i \<mapsto> phase ?hi, j \<mapsto> phase ?hj)"
    "K_of (meet sc i j s) = K_of s"
    using len ij by (auto simp: meet_def P_of_def K_of_def after_send_def after_receive_def set_h_def
        nth_list_update fun_eq_iff)
  show ceq: "C_of (meet sc i j s) = (C_of s)(j \<mapsto> i)"
    using len ij by (auto simp: meet_def C_of_def after_send_def after_receive_def set_h_def
        nth_list_update fun_eq_iff)
  have rest: "slots (meet sc i j s) = slots s" "slotsGuage (meet sc i j s) = slotsGuage s"
    by (simp_all add: meet_def)
  consider (owner) "phase (hs s ! i) = SWait" "sc = i" "phase (hs s ! j) = JWait i"
    | (joiner) "phase (hs s ! i) = JSend j" "sc = j" "phase (hs s ! j) = SGot"
    | (none) "phase (hs s ! i) = JSend sc" "phase (hs s ! j) = JWait sc"
    using m ij by (auto simp: sends_on_def receives_on_def)
  then have "core (P_of (meet sc i j s)) (C_of (meet sc i j s)) (K_of s) (map_of (slots s)) \<and>
    C_of s j = None \<and>
    (C_of s i = Some j \<or> C_of s i = None \<and> (\<forall>k. C_of s k \<noteq> Some i \<and> C_of s k \<noteq> Some j))"
  proof cases
    case owner
    then have p: "P_of s i = Some SWait" "P_of s j = Some (JWait i)" using len by (simp_all add: at_core)
    have inv: "pairs_inv (P_of s) (C_of s)" using c by (simp add: core_def)
    have un: "C_of s i = None" "C_of s j = None" "\<And>k. C_of s k \<noteq> Some i" "\<And>k. C_of s k \<noteq> Some j"
      using pairs_inv_out[OF inv, of i] pairs_inv_out[OF inv, of j] p by simp_all
    have "phase ?hi = SGot" "phase ?hj = JSend i"
      using owner by (simp_all add: after_send_def after_receive_def)
    with core_meet_owner[OF c p] eq(1) ceq un show ?thesis by simp
  next
    case joiner
    then have p: "P_of s i = Some (JSend j)" "P_of s j = Some SGot" using len by (simp_all add: at_core)
    have "phase ?hi = SEnd" "phase ?hj = SEnd"
      using joiner by (simp_all add: after_send_def after_receive_def)
    moreover have "C_of s j = None" using c p(2) unfolding core_def pairs_inv_def by blast
    ultimately show ?thesis using core_meet_joiner[OF c p] eq(1) ceq by simp
  next
    case none
    then have "P_of s i = Some (JSend sc)" "P_of s j = Some (JWait sc)" using len by (simp_all add: at_core)
    with core_no_joiners_meet[OF c ij, of sc] show ?thesis by simp
  qed
  then show "server_ok (meet sc i j s)"
    "C_of s j = None \<and>
       (C_of s i = Some j \<or> C_of s i = None \<and> (\<forall>k. C_of s k \<noteq> Some i \<and> C_of s k \<noteq> Some j))"
    using ok eq(2) rest by (simp_all add: server_ok_def)
qed

lemma expire_ok:
  "server_ok s \<Longrightarrow> j < length (hs s) \<Longrightarrow> server_ok (set_h j ((hs s ! j)\<lparr>ctx_done := b\<rparr>) s)
     \<and> C_of (set_h j ((hs s ! j)\<lparr>ctx_done := b\<rparr>) s) = C_of s"
  by (simp add: server_ok_def set_h_core upd_same)

lemma rstep_ok:
  assumes "rstep s e s'" "server_ok s"
  shows "server_ok s'"
  using assms
proof cases
  case (r_meet i j sc)
  then show ?thesis using meet_ok(1)[OF assms(2) r_meet(3-5)] by simp
next
  case (r_arrive ok key)
  then show ?thesis using arrive_ok(1)[OF assms(2)] by simp
next
  case (r_setup j rnd)
  then show ?thesis using setup_ok[OF assms(2)] by blast
next
  case (r_read j r wrote)
  then show ?thesis using read_ok[OF assms(2)] by blast
next
  case (r_expire j)
  then show ?thesis using expire_ok[OF assms(2)] by blast
qed

lemma no_slots_ok: "server_ok no_slots"
proof -
  have "P_of no_slots = (\<lambda>_. None)" "C_of no_slots = (\<lambda>_. None)" "map_of (slots no_slots) = (\<lambda>_. None)"
    by (simp_all add: P_of_def C_of_def no_slots_def fun_eq_iff)
  then show ?thesis
    by (simp add: server_ok_def core_def slots_inv_def joins_inv_def pairs_inv_def no_slots_def)
qed

lemma rrun_ok: "rrun s tr s' \<Longrightarrow> s = no_slots \<Longrightarrow> server_ok s'"
  by (induction rule: rrun.induct) (auto intro: no_slots_ok rstep_ok)

section \<open>Runs from a schedule\<close>

datatype rmove =
    MArrive bool string
  | MSetup nat nat nat
  | MMeet nat nat nat
  | MOnRead nat rd bool
  | MExpire nat

text \<open>\<open>MSetup n j i\<close>: case \<open>i\<close> of connection \<open>j\<close>, with a random source that always gives \<open>n\<close>.\<close>
definition do_rmove :: "rmove \<Rightarrow> server \<Rightarrow> (revent \<times> server) option" where
  "do_rmove mv s = (case mv of
     MArrive ok key \<Rightarrow> Some (arrive ok key s)
   | MSetup n j i \<Rightarrow>
       let outs = setup_steps (\<lambda>_. n) j s
       in if j < length (hs s) \<and> i < length outs then Some (outs ! i) else None
   | MMeet sc i j \<Rightarrow>
       if i \<noteq> j \<and> sends_on sc i s \<and> receives_on sc j s then Some (Matched i j, meet sc i j s) else None
   | MOnRead j r wrote \<Rightarrow>
       if j < length (hs s) \<and> reading (hs s ! j) then Some (on_read j r wrote s) else None
   | MExpire j \<Rightarrow>
       if j < length (hs s) then Some (Quiet, set_h j ((hs s ! j)\<lparr>ctx_done := True\<rparr>) s) else None)"

fun rplay :: "rmove list \<Rightarrow> revent list \<Rightarrow> server \<Rightarrow> (revent list \<times> server) option" where
  "rplay [] tr s = Some (tr, s)"
| "rplay (mv # mvs) tr s = (case do_rmove mv s of None \<Rightarrow> None | Some (e, s') \<Rightarrow> rplay mvs (tr @ [e]) s')"

lemma do_rmove_step: "do_rmove mv s = Some (e, s') \<Longrightarrow> rstep s e s'"
proof (cases mv)
  case (MSetup n j i)
  assume "do_rmove mv s = Some (e, s')"
  with MSetup have "j < length (hs s)" "(e, s') \<in> set (setup_steps (\<lambda>_. n) j s)"
    by (auto simp: do_rmove_def Let_def split: if_splits dest: nth_mem)
  then show ?thesis by (rule r_setup)
qed (auto simp: do_rmove_def split: if_splits intro: rstep.intros)

lemma rplay_run: "rplay mvs tr s = Some (tr', s') \<Longrightarrow> rrun s0 tr s \<Longrightarrow> rrun s0 tr' s'"
proof (induction mvs arbitrary: tr s)
  case (Cons mv mvs)
  then show ?case by (auto split: option.splits dest!: do_rmove_step intro: rrun_snoc)
qed simp

lemma rplay_witness:
  "(case rplay mvs [] no_slots of None \<Rightarrow> False | Some (tr, s) \<Rightarrow> Q tr s)
     \<Longrightarrow> \<exists>tr s. rrun no_slots tr s \<and> Q tr s"
  by (auto split: option.splits dest: rplay_run[OF _ rrun_nil])

text \<open>Connection 0 books slot 5, connection 1 joins it, and they exchange messages.\<close>
definition meeting :: "rmove list" where
  "meeting = [MArrive True '''', MSetup 5 0 0, MSetup 0 0 0, MArrive True ''5'', MSetup 0 1 0, MSetup 0 1 0,
     MMeet 0 0 1, MMeet 0 1 0, MOnRead 1 (Inr [7]) True, MOnRead 0 (Inr [8]) True]"

section \<open>Properties\<close>

text \<open>The specification: a growing set of disjoint pairs.\<close>
definition match_step :: "nat set set \<Rightarrow> nat set set \<Rightarrow> bool" where
  "match_step M M' \<longleftrightarrow> M' = M \<or>
     (\<exists>i j. i \<noteq> j \<and> i \<notin> \<Union> M \<and> j \<notin> \<Union> M \<and> M' = insert {i, j} M)"

lemma pairs_upd:
  assumes "C j = None"
  shows "{{a, b} | a b. (C(j \<mapsto> i)) a = Some b} = insert {i, j} {{a, b} | a b. C a = Some b}" (is "?L = ?R")
proof
  show "?L \<subseteq> ?R"
  proof
    fix x assume "x \<in> ?L"
    then obtain a b where x: "x = {a, b}" "(C(j \<mapsto> i)) a = Some b" by blast
    show "x \<in> ?R"
    proof (cases "a = j")
      case True
      then have "x = {i, j}" using x by (simp add: insert_commute)
      then show ?thesis by blast
    next
      case False
      then show ?thesis using x by auto
    qed
  qed
  have "(C(j \<mapsto> i)) a = Some b" if "C a = Some b" for a b
    using that assms by (cases "a = j") simp_all
  moreover have "{i, j} = {j, i}" "(C(j \<mapsto> i)) j = Some i" by auto
  ultimately show "?R \<subseteq> ?L" by blast
qed

lemma matching_in: "x \<in> \<Union> (matching s) \<longleftrightarrow> C_of s x \<noteq> None \<or> (\<exists>j. C_of s j = Some x)"
  by (auto simp: matching_def)

text \<open>
  C9. The relay refines a matchmaker: whatever the clients do and however the goroutines interleave,
  each step leaves the pairs of connections as they are, or pairs two connections that were in no
  pair.
\<close>
theorem relay_refines_matching:
  assumes "rrun no_slots tr s" "rstep s e s'"
  shows "match_step (matching s) (matching s')"
proof -
  have ok: "server_ok s" using rrun_ok[OF assms(1)] by simp
  have same: ?thesis if "C_of s' = C_of s" using that by (simp add: match_step_def matching_def)
  from assms(2) show ?thesis
  proof cases
    case (r_meet i j sc)
    note m = meet_ok(2,3)[OF ok r_meet(3-5)]
    have new: "matching s' = insert {i, j} (matching s)"
      using pairs_upd[of "C_of s" j i] m r_meet(2) by (simp add: matching_def)
    show ?thesis
    proof (cases "C_of s i = Some j")
      case True
      then have "{i, j} \<in> matching s" by (auto simp: matching_def)
      then show ?thesis using new by (simp add: match_step_def insert_absorb)
    next
      case False
      then have "i \<notin> \<Union> (matching s)" "j \<notin> \<Union> (matching s)" 
        using m(2) matching_in[of i s] matching_in[of j s] by simp_all
      then show ?thesis using new r_meet(3) unfolding match_step_def by blast
    qed
  next
    case (r_arrive ok' key)
    then show ?thesis using arrive_ok(2)[OF ok] same by simp
  next
    case (r_setup j rnd)
    then show ?thesis using setup_ok[OF ok] same by blast
  next
    case (r_read j r wrote)
    then show ?thesis using read_ok[OF ok] same by blast
  next
    case (r_expire j)
    then show ?thesis using expire_ok[OF ok] same by blast
  qed
qed

lemma relay_refines_matching_witness:
  "\<exists>tr s e s'. rrun no_slots tr s \<and> rstep s e s' \<and> match_step (matching s) (matching s')
     \<and> e = Matched 0 1"
proof -
  have "case rplay (take 6 meeting) [] no_slots of None \<Rightarrow> False
      | Some (tr, s) \<Rightarrow> sends_on 0 0 s \<and> receives_on 0 1 s" by code_simp
  from rplay_witness[OF this] obtain tr s where r: "rrun no_slots tr s" "sends_on 0 0 s" "receives_on 0 1 s"
    by auto
  have "rstep s (Matched 0 1) (meet 0 0 1 s)" by (rule r_meet) (use r in simp_all)
  with relay_refines_matching[OF r(1) this] r(1) show ?thesis by blast
qed

lemma C_of_keeps:
  assumes "server_ok s" "rstep s e s'" "C_of s j = Some k"
  shows "C_of s' j = Some k"
  using assms(2)
proof cases
  case (r_meet i j' sc)
  note m = meet_ok(2,3)[OF assms(1) r_meet(3-5)]
  show ?thesis using m assms(3) r_meet(2) by auto
next
  case (r_arrive ok key)
  then show ?thesis using arrive_ok(2)[OF assms(1)] assms(3) by simp
next
  case (r_setup i rnd)
  then show ?thesis using setup_ok[OF assms(1)] assms(3) by fastforce
next
  case (r_read i r wrote)
  then show ?thesis using read_ok[OF assms(1)] assms(3) by fastforce
next
  case (r_expire i)
  then show ?thesis using expire_ok[OF assms(1)] assms(3) by fastforce
qed

lemma forward_stored:
  assumes "rstep s (Forward j k p) s'"
  shows "C_of s j = Some k"
  using assms
proof cases
  case (r_setup i rnd)
  then show ?thesis
    by (auto simp: setup_steps_def book_def join_def announce_def wait_done_def join_announce_def
        join_wait_done_def split: rphase.splits if_splits option.splits)
next
  case (r_read i r wrote)
  then show ?thesis
    by (auto simp: on_read_def close_peer_def at_core split: sum.splits option.splits if_splits)
qed (auto simp: arrive_def Let_def split: if_splits)

lemma forwarded:
  "rrun s0 tr s \<Longrightarrow> s0 = no_slots \<Longrightarrow> Forward j k p \<in> set tr \<Longrightarrow> C_of s j = Some k"
proof (induction rule: rrun.induct)
  case (rrun_snoc s0 tr s e s')
  have ok: "server_ok s" using rrun_ok[OF rrun_snoc.hyps(1) rrun_snoc.prems(1)] .
  show ?case
  proof (cases "e = Forward j k p")
    case True
    then show ?thesis using forward_stored C_of_keeps[OF ok rrun_snoc.hyps(2)] rrun_snoc.hyps(2) by blast
  next
    case False
    then show ?thesis using rrun_snoc.IH[OF rrun_snoc.prems(1)] rrun_snoc.prems(2)
        C_of_keeps[OF ok rrun_snoc.hyps(2)] by simp
  qed
qed simp

text \<open>
  C10. Conversations are private: two forwarded messages either belong to the same two connections,
  or to four different ones.
\<close>
theorem relay_private:
  assumes "rrun no_slots tr s" "Forward j k p \<in> set tr" "Forward j' k' p' \<in> set tr"
  shows "{j, k} = {j', k'} \<or> {j, k} \<inter> {j', k'} = {}"
proof -
  have "core (P_of s) (C_of s) (K_of s) (map_of (slots s))" using rrun_ok[OF assms(1)] by (simp add: server_ok_def)
  then have inv: "pairs_inv (P_of s) (C_of s)" "joins_inv (P_of s) (map_of (slots s))" by (simp_all add: core_def)
  have c: "C_of s j = Some k" "C_of s j' = Some k'" using forwarded[OF assms(1) refl] assms(2,3) by blast+
  have pr: "C_of s b = Some a \<and> P_of s a = Some SEnd \<and> P_of s b = Some SEnd
      \<or> P_of s a = Some (JSend b) \<and> P_of s b = Some SGot \<and> C_of s b = None" if "C_of s a = Some b" for a b
    using inv(1) that unfolding pairs_inv_def by blast
  have one: "a = a'" if "C_of s a = Some b" "C_of s a' = Some b" for a a' b
    using pr[OF that(1)] pr[OF that(2)] joins_invD(3)[OF inv(2), of a b a'] by auto
  have "j = j' \<Longrightarrow> k = k'" "k = k' \<Longrightarrow> j = j'" using c one by auto
  moreover have "j = k' \<Longrightarrow> k = j'" using pr[OF c(2)] c(1) by auto
  moreover have "k = j' \<Longrightarrow> k' = j" using pr[OF c(1)] c(2) by auto
  ultimately show ?thesis by blast
qed

lemma relay_private_witness:
  "\<exists>tr s. rrun no_slots tr s \<and> Forward 1 0 [7] \<in> set tr \<and> Forward 0 1 [8] \<in> set tr
     \<and> ({1, 0} = {0, 1 :: nat} \<or> {1, 0} \<inter> {0, 1 :: nat} = {})"
proof -
  have "case rplay meeting [] no_slots of None \<Rightarrow> False
      | Some (tr, s) \<Rightarrow> Forward 1 0 [7] \<in> set tr \<and> Forward 0 1 [8] \<in> set tr" by code_simp
  from rplay_witness[OF this] obtain tr s where r: "rrun no_slots tr s" "Forward 1 0 [7] \<in> set tr"
    "Forward 0 1 [8] \<in> set tr" by auto
  show ?thesis by (rule exI[of _ tr], rule exI[of _ s]) (intro conjI r relay_private[OF r])
qed

text \<open>
  The slot of a waiting client can be deleted by someone else: an owner whose slot was taken by
  a joiner that failed deletes, when it goes away, the same number as booked again by another
  client, whose code then leads nowhere although it is still waiting.
\<close>
theorem slot_deleted_by_other:
  "\<exists>tr s. rrun no_slots tr s \<and> Booked 2 ''5'' \<in> set tr \<and> phase (hs s ! 2) = SWait \<and> reading (hs s ! 2)
     \<and> \<not> ctx_done (hs s ! 2) \<and> last tr = CloseConn 3 CloseNoSuchSlot \<and> slotkey (hs s ! 3) = ''5''
     \<and> (\<forall>e \<in> set tr. \<forall>i j. e \<noteq> Matched i j)"
proof -
  have "case rplay [MArrive True '''', MSetup 5 0 0, MSetup 0 0 0, MArrive True ''5'', MSetup 0 1 0, MSetup 0 1 1,
        MArrive True '''', MSetup 5 2 0, MSetup 0 2 0, MOnRead 0 (Inl (WsFailure ''EOF'')) True, MSetup 0 0 0,
        MArrive True ''5'', MSetup 0 3 0] [] no_slots of None \<Rightarrow> False
      | Some (tr, s) \<Rightarrow> Booked 2 ''5'' \<in> set tr \<and> phase (hs s ! 2) = SWait \<and> reading (hs s ! 2)
     \<and> \<not> ctx_done (hs s ! 2) \<and> last tr = CloseConn 3 CloseNoSuchSlot \<and> slotkey (hs s ! 3) = ''5''
     \<and> list_all (\<lambda>e. case e of Matched i j \<Rightarrow> False | _ \<Rightarrow> True) tr" by code_simp
  from rplay_witness[OF this] obtain tr s where r: "rrun no_slots tr s" "Booked 2 ''5'' \<in> set tr"
    "phase (hs s ! 2) = SWait" "reading (hs s ! 2)" "\<not> ctx_done (hs s ! 2)"
    "last tr = CloseConn 3 CloseNoSuchSlot" "slotkey (hs s ! 3) = ''5''"
    "list_all (\<lambda>e. case e of Matched i j \<Rightarrow> False | _ \<Rightarrow> True) tr" by blast
  from r(8) have "\<forall>e \<in> set tr. \<forall>i j. e \<noteq> Matched i j" by (auto simp: list_all_iff)
  with r show ?thesis by blast
qed

lemma stuck_step:
  assumes ok: "server_ok s" and e: "rstep s e s'" and j: "P_of s j = Some (JSend c)" "C_of s j = None"
  shows "P_of s' j = Some (JSend c) \<and> C_of s' j = None"
proof -
  have len: "j < length (hs s)" using j(1) by (auto simp: P_of_def split: if_splits)
  have c: "core (P_of s) (C_of s) (K_of s) (map_of (slots s))" using ok by (simp add: server_ok_def)
  have ph: "phase (hs s ! j) = JSend c" "rconn (hs s ! j) = None" using j len by (simp_all add: at_core)
  from e show ?thesis
  proof cases
    case (r_arrive ok' key)
    then have "hs s' ! j = hs s ! j" "j < length (hs s')" using len by (auto simp: arrive_def Let_def nth_append)
    then show ?thesis using ph by (simp add: at_core)
  next
    case (r_setup i rnd)
    have ij: "i \<noteq> j" using r_setup(2) ph(1) by (auto simp: setup_steps_def)
    have "hs s' ! j = hs s ! j \<and> length (hs s') = length (hs s)"
      using r_setup ij by (auto simp: setup_steps_def book_def join_def announce_def wait_done_def
          join_announce_def join_wait_done_def set_h_def split: rphase.splits if_splits option.splits)
    then show ?thesis using ph len by (simp add: at_core)
  next
    case (r_meet i k sc)
    have "k \<noteq> j" using r_meet(5) ph(1) by (auto simp: receives_on_def)
    moreover have "i \<noteq> j"
    proof
      assume i: "i = j"
      then have sc: "sc = c" using r_meet(4) ph(1) by (auto simp: sends_on_def)
      have "k < length (hs s)" using r_meet(5) by (simp add: receives_on_def)
      then consider "P_of s k = Some SGot" "k = c" | "P_of s k = Some (JWait c)"
        using r_meet(5) sc by (auto simp: receives_on_def at_core)
      then show False
      proof cases
        case 1
        then show False using core_meet_joiner(1)[OF c] j by auto
      next
        case 2
        then show False using core_no_joiners_meet[OF c r_meet(3), of c] i j(1) by auto
      qed
    qed
    ultimately have "hs s' ! j = hs s ! j" by (simp add: r_meet(2) meet_def set_h_def)
    then show ?thesis using ph len r_meet(2) by (simp add: at_core meet_def)
  next
    case (r_read i r wrote)
    then have "phase (hs s' ! j) = phase (hs s ! j) \<and> rconn (hs s' ! j) = rconn (hs s ! j) \<and> length (hs s') = length (hs s)"
      by (auto simp: on_read_def stop_reading_def set_h_def nth_list_update split: sum.splits option.splits if_splits)
    then show ?thesis using ph len by (simp add: at_core)
  next
    case (r_expire i)
    then have "phase (hs s' ! j) = phase (hs s ! j) \<and> rconn (hs s' ! j) = rconn (hs s ! j) \<and> length (hs s') = length (hs s)"
      by (auto simp: set_h_def nth_list_update)
    then show ?thesis using ph len by (simp add: at_core)
  qed
qed

text \<open>
  A joiner that timed out before it met the owner never ends: it goes on to send its connection
  on a channel from which no one will ever receive.
\<close>
theorem joiner_stuck:
  assumes "rrun no_slots tr s" "j < length (hs s)" "phase (hs s ! j) = JSend c" "rconn (hs s ! j) = None"
    "rrun s tr' s'"
  shows "phase (hs s' ! j) = JSend c"
proof -
  have "server_ok s \<and> P_of s j = Some (JSend c) \<and> C_of s j = None"
    using rrun_ok[OF assms(1)] assms(2-4) by (simp add: at_core)
  with assms(5) have "server_ok s' \<and> P_of s' j = Some (JSend c) \<and> C_of s' j = None"
    by (induction rule: rrun.induct) (auto intro: rstep_ok dest: stuck_step)
  then show ?thesis by (simp add: P_of_def split: if_splits)
qed

lemma joiner_stuck_witness:
  "\<exists>tr s s'. rrun no_slots tr s \<and> rconn (hs s ! 1) = None \<and> rrun s [] s' \<and> phase (hs s' ! 1) = JSend 0"
proof -
  have "case rplay (take 6 meeting @ [MExpire 1, MSetup 0 1 0]) [] no_slots of None \<Rightarrow> False
      | Some (tr, s) \<Rightarrow> length (hs s) = 2 \<and> phase (hs s ! 1) = JSend 0 \<and> rconn (hs s ! 1) = None" by code_simp
  from rplay_witness[OF this] obtain tr s where "rrun no_slots tr s" "length (hs s) = 2"
    "phase (hs s ! 1) = JSend 0" "rconn (hs s ! 1) = None" by auto
  with joiner_stuck[of tr s 1 0 "[]" s] rrun_nil[of s] show ?thesis by fastforce
qed

text \<open>
  A joiner that does as it is told can be dropped: the server writes its first message, on which the
  client sends its own, before it receives the owner's connection, and the loop that reads the message
  in between takes it for a violation of the protocol and ends. The owner's slot is gone as well.
\<close>
theorem early_message_drops_joiner:
  "\<exists>tr s. rrun no_slots tr s \<and> tr = [Arrive '''', Booked 0 ''5'', Announced 0, Arrive ''5'', Quiet, Announced 1,
       Quiet, CloseConn 1 CloseSlotTimedOut] \<and> phase (hs s ! 0) = SWait \<and> reading (hs s ! 0)
     \<and> \<not> reading (hs s ! 1) \<and> slots s = []"
proof -
  have "case rplay (take 6 meeting @ [MOnRead 1 (Inr [7]) True, MSetup 0 1 0]) [] no_slots of None \<Rightarrow> False
      | Some (tr, s) \<Rightarrow> tr = [Arrive '''', Booked 0 ''5'', Announced 0, Arrive ''5'', Quiet, Announced 1,
       Quiet, CloseConn 1 CloseSlotTimedOut] \<and> phase (hs s ! 0) = SWait \<and> reading (hs s ! 0)
     \<and> \<not> reading (hs s ! 1) \<and> slots s = []" by code_simp
  from rplay_witness[OF this] show ?thesis .
qed

end
