(* ===== verification/Pairing.thy ===== *)
theory Pairing
  imports Handshake Relay
begin

text \<open>
  Two clients at the ends of one slot, for every interleaving of their steps: what one sends arrives
  at the other in order, and a client that closes its connection is seen by the other as the
  signalling server reports it. The calls into WebRTC succeed; the wait for the data channel is where
  a client that agreed on the descriptions stops. Steps of the two sides commute, so that one run
  decides all of them.
\<close>

section \<open>Commuting processes\<close>

text \<open>
  Two processes over a shared state, each with at most one next step, whose steps do not disturb
  each other.
\<close>
locale commuting =
  fixes left right :: "'s \<Rightarrow> 's option"
  assumes commute: "left s = Some a \<Longrightarrow> right s = Some b \<Longrightarrow> \<exists>t. right a = Some t \<and> left b = Some t"
begin

definition moves :: "'s \<Rightarrow> 's \<Rightarrow> bool" where
  "moves s t \<longleftrightarrow> left s = Some t \<or> right s = Some t"

lemma diamond:
  assumes "moves s a" "moves s b" "a \<noteq> b"
  shows "\<exists>t. moves a t \<and> moves b t"
  using assms commute unfolding moves_def by (metis option.inject)

lemma end_reached:
  assumes "(moves ^^ n) s t" "\<And>u. \<not> moves t u" "(moves ^^ m) s s'"
  shows "m \<le> n \<and> (moves ^^ (n - m)) s' t"
  using assms(1,3)
proof (induction n arbitrary: s s' m)
  case 0
  then have "s = t" by simp
  then have "m = 0" using 0(2) assms(2) by (cases m) (auto simp: relpowp_Suc_left simp del: relpowp.simps)
  then show ?case using 0 by simp
next
  case (Suc n)
  show ?case
  proof (cases m)
    case 0
    then show ?thesis using Suc.prems by simp
  next
    case (Suc m')
    obtain a where a: "moves s a" "(moves ^^ n) a t" using Suc.prems(1) by (rule relpowp_Suc_E2)
    obtain b where b: "moves s b" "(moves ^^ m') b s'"
      using Suc.prems(2) unfolding Suc by (rule relpowp_Suc_E2)
    have "(moves ^^ n) b t"
    proof (cases "a = b")
      case False
      then obtain u where u: "moves a u" "moves b u" using diamond[OF a(1) b(1)] by blast
      have "(moves ^^ 1) a u" using u(1) by (simp add: eq_OO)
      from Suc.IH[OF a(2) this] have n: "1 \<le> n" "(moves ^^ (n - 1)) u t" by auto
      have "(moves ^^ Suc (n - 1)) b t" using u(2) n(2) by (rule relpowp_Suc_I2)
      then show ?thesis using n(1) by simp
    qed (use a in simp)
    from Suc.IH[OF this b(2)] show ?thesis using Suc by auto
  qed
qed

lemma stuck_unique:
  assumes "(moves ^^ n) s t" "\<And>u. \<not> moves t u" "(moves ^^ m) s s'" "\<And>u. \<not> moves s' u"
  shows "s' = t"
proof -
  have "(moves ^^ (n - m)) s' t" using end_reached[OF assms(1,2,3)] by simp
  then show ?thesis using assms(4)
    by (cases "n - m") (auto elim: relpowp_Suc_E2 simp del: relpowp.simps(2))
qed

end

section \<open>One client\<close>

type_synonym ws_item = "ws_error + string"

text \<open>
  The program, what waits to be read, the randomness, the description WebRTC makes for it, and what
  it has told WebRTC: the two descriptions, and the key its candidates are sent under.
\<close>
record ('d, 'c, 'r) side =
  prog :: "('d, 'c, 'r) proc"
  inbox :: "ws_item list"
  seed :: nat
  nonces :: "byte list list"
  description :: 'd
  localDesc :: "'d option"
  remoteDesc :: "'d option"
  candKey :: "byte list option"

text \<open>What the other client sees of a close status, by the signalling server's rule.\<close>
definition close_seen :: "nat \<Rightarrow> ws_item list" where
  "close_seen st =
     (if st = CloseBadKey then [Inl (ClosedWith CloseBadKey)]
      else if st \<in> set ice_reports then [] else [Inl (ClosedWith ClosePeerHungUp)])"

fun react :: "('d, 'c, 'r) side \<Rightarrow> (('d, 'c, 'r) side \<times> ws_item list) option" where
  "react s = (case prog s of
     Return r \<Rightarrow> None
   | Panic \<Rightarrow> None
   | DialWs ctx a k \<Rightarrow> Some (s\<lparr>prog := k (Inr ())\<rparr>, [])
   | GoCloseWhenDone ctx st p \<Rightarrow> Some (s\<lparr>prog := p\<rparr>, [])
   | ReadWs ctx k \<Rightarrow>
       (case inbox s of
          [] \<Rightarrow> None
        | m # ms \<Rightarrow> Some (s\<lparr>prog := k (map_sum WsErr id m), inbox := ms\<rparr>, []))
   | WriteWs ctx m k \<Rightarrow> Some (s\<lparr>prog := k (Inr ())\<rparr>, [Inr m])
   | CloseWs st p \<Rightarrow> Some (s\<lparr>prog := p\<rparr>, close_seen st)
   | SendSlot slot p \<Rightarrow> Some (s\<lparr>prog := p\<rparr>, [])
   | NewPeerConnection ice k \<Rightarrow> Some (s\<lparr>prog := k (Inr ())\<rparr>, [])
   | CreateDataChannel k \<Rightarrow> Some (s\<lparr>prog := k (Inr ())\<rparr>, [])
   | DrawSeed k \<Rightarrow> Some (s\<lparr>prog := k (seed s)\<rparr>, [])
   | ReadRand n k \<Rightarrow>
       (case nonces s of
          [] \<Rightarrow> Some (s\<lparr>prog := k (Inl (LibErr ''rand''))\<rparr>, [])
        | x # xs \<Rightarrow> Some (s\<lparr>prog := k (Inr x), nonces := xs\<rparr>, []))
   | OnICECandidate ctx key p \<Rightarrow> Some (s\<lparr>prog := p, candKey := Some key\<rparr>, [])
   | CreateOffer k \<Rightarrow> Some (s\<lparr>prog := k (Inr (description s))\<rparr>, [])
   | CreateAnswer k \<Rightarrow> Some (s\<lparr>prog := k (Inr (description s))\<rparr>, [])
   | SetLocalDescription d k \<Rightarrow> Some (s\<lparr>prog := k (Inr ()), localDesc := Some d\<rparr>, [])
   | SetRemoteDescription d k \<Rightarrow> Some (s\<lparr>prog := k (Inr ()), remoteDesc := Some d\<rparr>, [])
   | AddICECandidate c k \<Rightarrow> Some (s\<lparr>prog := k (Inr ())\<rparr>, [])
   | GoHandleRemoteCandidates ctx key p \<Rightarrow> Some (s\<lparr>prog := p\<rparr>, [])
   | GetStats k \<Rightarrow> Some (s\<lparr>prog := k []\<rparr>, [])
   | PollDone ctx k \<Rightarrow> Some (s\<lparr>prog := k False\<rparr>, [])
   | Select k \<Rightarrow> None
   | SelectCtx ctx k d \<Rightarrow> None)"

definition deliver :: "ws_item list \<Rightarrow> ('d, 'c, 'r) side \<Rightarrow> ('d, 'c, 'r) side" where
  "deliver ms s = s\<lparr>inbox := inbox s @ ms\<rparr>"

lemma react_deliver:
  assumes "react s = Some (s', out)"
  shows "react (deliver ms s) = Some (deliver ms s', out)"
  using assms by (auto simp: deliver_def split: proc.splits list.splits)

section \<open>Two clients\<close>

type_synonym ('d, 'c, 'r) pair = "('d, 'c, 'r) side \<times> ('d, 'c, 'r) side"

definition left_step :: "('d, 'c, 'r) pair \<Rightarrow> ('d, 'c, 'r) pair option" where
  "left_step p = map_option (\<lambda>(a, out). (a, deliver out (snd p))) (react (fst p))"

definition right_step :: "('d, 'c, 'r) pair \<Rightarrow> ('d, 'c, 'r) pair option" where
  "right_step p = map_option (\<lambda>(b, out). (deliver out (fst p), b)) (react (snd p))"

interpretation pair: commuting left_step right_step
proof
  fix p a b
  assume "left_step p = Some a" "right_step p = Some b"
  then obtain x y xo yo where r: "react (fst p) = Some (x, xo)" "a = (x, deliver xo (snd p))"
    "react (snd p) = Some (y, yo)" "b = (deliver yo (fst p), y)"
    unfolding left_step_def right_step_def by auto
  have "right_step a = Some (deliver yo x, deliver xo y)" "left_step b = Some (deliver yo x, deliver xo y)"
    using react_deliver[OF r(3)] react_deliver[OF r(1)] r(2,4) unfolding left_step_def right_step_def
    by (simp_all del: react.simps)
  then show "\<exists>t. right_step a = Some t \<and> left_step b = Some t" by blast
qed

text \<open>A step of either side, and a schedule: \<open>True\<close> for the left side.\<close>
definition pair_step :: "('d, 'c, 'r) pair \<Rightarrow> ('d, 'c, 'r) pair \<Rightarrow> bool" where
  "pair_step p q \<longleftrightarrow> left_step p = Some q \<or> right_step p = Some q"

primrec schedule :: "bool list \<Rightarrow> ('d, 'c, 'r) pair \<Rightarrow> ('d, 'c, 'r) pair option" where
  "schedule [] p = Some p"
| "schedule (b # bs) p = (case (if b then left_step p else right_step p) of
     None \<Rightarrow> None | Some q \<Rightarrow> schedule bs q)"

lemma pair_step_move: "pair_step = pair.moves"
  by (intro ext) (simp add: pair_step_def pair.moves_def)

lemma schedule_run: "schedule bs p = Some q \<Longrightarrow> (pair_step ^^ length bs) p q"
proof (induction bs arbitrary: p)
  case (Cons b bs)
  then obtain u where "(if b then left_step p else right_step p) = Some u" "schedule bs u = Some q"
    by (auto split: option.splits)
  then have "pair_step p u" "(pair_step ^^ length bs) u q"
    using Cons.IH[of u] by (simp add: pair_step_def split: if_splits, blast)
  then show ?case by (simp add: relpowp_Suc_I2 del: relpowp.simps)
qed simp

lemma run_schedule: "(pair_step ^^ n) p q \<Longrightarrow> \<exists>bs. length bs = n \<and> schedule bs p = Some q"
proof (induction n arbitrary: p)
  case (Suc n)
  then obtain u where u: "pair_step p u" "(pair_step ^^ n) u q" by (meson relpowp_Suc_E2)
  from Suc.IH[OF u(2)] obtain bs where bs: "length bs = n" "schedule bs u = Some q" by blast
  from u(1) have "left_step p = Some u \<or> right_step p = Some u" by (simp add: pair_step_def)
  then have "schedule (True # bs) p = Some q \<or> schedule (False # bs) p = Some q" using bs(2) by auto
  then show ?case using bs(1) by (metis length_Cons)
qed simp

definition stuck :: "('d, 'c, 'r) pair \<Rightarrow> bool" where
  "stuck p \<longleftrightarrow> react (fst p) = None \<and> react (snd p) = None"

lemma stuck_move: "stuck p \<Longrightarrow> \<not> pair_step p q"
  by (simp add: stuck_def pair_step_def left_step_def right_step_def del: react.simps)

lemma not_move_stuck: "(\<And>q. \<not> pair_step p q) \<Longrightarrow> stuck p"
  by (cases "react (fst p)"; cases "react (snd p)")
    (auto simp: stuck_def pair_step_def left_step_def right_step_def simp del: react.simps)

lemma one_run_decides:
  assumes "schedule bs p = Some q" "stuck q" "(pair_step ^^ m) p s"
  shows "m \<le> length bs" "(pair_step ^^ (length bs - m)) s q" "stuck s \<Longrightarrow> s = q"
proof -
  note run = schedule_run[OF assms(1), unfolded pair_step_move]
  have q: "\<not> pair.moves q u" for u using stuck_move[OF assms(2)] unfolding pair_step_move .
  note m = assms(3)[unfolded pair_step_move]
  from pair.end_reached[OF run q m] show "m \<le> length bs" "(pair_step ^^ (length bs - m)) s q"
    by (simp_all add: pair_step_move)
  show "s = q" if "stuck s"
    using pair.stuck_unique[OF run q m] stuck_move[OF that] unfolding pair_step_move by blast
qed

end
