(* ===== verification/Agreement.thy ===== *)
theory Agreement
  imports Pairing
begin

text \<open>
  What two clients on one slot reach: with one password they agree on a key and on each other's
  session descriptions, with two passwords both report a bad key, and neither takes forever. The
  laws of the cryptographic libraries the handshake relies on are hypotheses.
\<close>

section \<open>The libraries\<close>

text \<open>
  JSON gives a description back, HKDF gives 32 bytes, and secretbox opens what was sealed under the
  same key and nonce, and nothing sealed under another key.
\<close>
definition lib_works :: "('d, 'c) lib \<Rightarrow> bool" where
  "lib_works L \<longleftrightarrow>
     (\<forall>d. \<exists>j. sd_Marshal L d = Inr j \<and> sd_Unmarshal L j = Inr d) \<and>
     (\<forall>mk k. hkdf_key L mk = Inr k \<longrightarrow> length k = 32) \<and>
     (\<forall>m n k k'. length n = 24 \<longrightarrow> length k = 32 \<longrightarrow> length k' = 32 \<longrightarrow>
        box_Open L (box_Seal L m n k) n k' = (if k = k' then Some m else None))"

text \<open>
  The keys the owner of the slot and the joiner get from CPACE and HKDF, for their randomness and
  their passwords. CPACE gives the same key to both exactly when the passwords are the same.
\<close>
definition pake_keys ::
  "('d, 'c) lib \<Rightarrow> nat \<Rightarrow> nat \<Rightarrow> string \<Rightarrow> string \<Rightarrow> (byte list \<times> byte list) option" where
  "pake_keys L so sj po pj =
     (case cpace_Start L sj pj of Inl _ \<Rightarrow> None | Inr (mA, Finish) \<Rightarrow>
     (case cpace_Exchange L so po mA of Inl _ \<Rightarrow> None | Inr (mB, mko) \<Rightarrow>
     (case Finish mB of Inl _ \<Rightarrow> None | Inr mkj \<Rightarrow>
     (case hkdf_key L mko of Inl _ \<Rightarrow> None | Inr ko \<Rightarrow>
     (case hkdf_key L mkj of Inl _ \<Rightarrow> None | Inr kj \<Rightarrow> Some (ko, kj))))))"

lemma pake_keysE:
  assumes "pake_keys L so sj po pj = Some (ko, kj)"
  obtains mA Finish mB mko mkj where
    "cpace_Start L sj pj = Inr (mA, Finish)" "cpace_Exchange L so po mA = Inr (mB, mko)"
    "Finish mB = Inr mkj" "hkdf_key L mko = Inr ko" "hkdf_key L mkj = Inr kj"
  using assms by (auto simp: pake_keys_def split: sum.splits)

section \<open>The two sides\<close>

definition new_side :: "('d, 'c) lib \<Rightarrow> string \<Rightarrow> string \<Rightarrow> ws_item list \<Rightarrow> nat \<Rightarrow> byte list \<Rightarrow> 'd
    \<Rightarrow> ('d, 'c, dial_err + dial_err option) side" where
  "new_side L pass sigserv arrived sd nonce desc =
     \<lparr>prog = New L pass sigserv, inbox = arrived, seed = sd, nonces = [nonce], description = desc,
      localDesc = None, remoteDesc = None, candKey = None\<rparr>"

definition join_side :: "('d, 'c) lib \<Rightarrow> string \<Rightarrow> string \<Rightarrow> string \<Rightarrow> ws_item list \<Rightarrow> nat \<Rightarrow> byte list \<Rightarrow> 'd
    \<Rightarrow> ('d, 'c, dial_err + dial_err option) side" where
  "join_side L slot pass sigserv arrived sd nonce desc =
     \<lparr>prog = Join_slot L slot pass sigserv, inbox = arrived, seed = sd, nonces = [nonce], description = desc,
      localDesc = None, remoteDesc = None, candKey = None\<rparr>"

text \<open>Both wait for the data channel, having told WebRTC the same two descriptions.\<close>
definition agreed :: "byte list \<Rightarrow> 'd \<Rightarrow> 'd \<Rightarrow> ('d, 'c, dial_err + dial_err option) pair \<Rightarrow> bool" where
  "agreed key offer answer p \<longleftrightarrow>
     prog (fst p) = await_open \<and> prog (snd p) = await_open \<and>
     localDesc (fst p) = Some offer \<and> remoteDesc (snd p) = Some offer \<and>
     localDesc (snd p) = Some answer \<and> remoteDesc (fst p) = Some answer \<and>
     candKey (fst p) = Some key \<and> candKey (snd p) = Some key \<and> inbox (fst p) = [] \<and> inbox (snd p) = []"

definition both_bad_key :: "('d, 'c, dial_err + dial_err option) pair \<Rightarrow> bool" where
  "both_bad_key p \<longleftrightarrow>
     prog (fst p) = Return (Inl ErrBadKey) \<and> prog (snd p) = Return (Inl ErrBadKey) \<and>
     remoteDesc (fst p) = None \<and> remoteDesc (snd p) = None"

text \<open>The rule for close statuses is that of the relay.\<close>
lemma close_seen_relay:
  assumes "rconn (hs s ! j) = Some k"
  shows "close_seen st = (case fst (on_read j (Inl (ClosedWith st)) w s) of
     CloseConn k' c \<Rightarrow> [Inl (ClosedWith c)] | _ \<Rightarrow> [])"
  using assms by (auto simp: close_seen_def on_read_def close_peer_def image_iff)

lemma schedule_append: "schedule (bs @ cs) p = (case schedule bs p of None \<Rightarrow> None | Some q \<Rightarrow> schedule cs q)"
  by (induction bs arbitrary: p) (simp_all split: option.splits)

lemmas run_simps = new_side_def join_side_def schedule_append left_step_def right_step_def New_def Join_slot_def
  Let_def attempt_def readInitMsg_def newPeerConnection_def readEncJSON_def writeEncJSON_def readBase64_def
  writeBase64_def fail_def numeral_eq_Suc proc_simps deliver_def

text \<open>One schedule of each outcome: the owner's steps and the joiner's, each until it has to wait.\<close>
definition good_schedule :: "bool list" where
  "good_schedule = replicate 5 True @ replicate 6 False @ replicate 8 True @ replicate 9 False @ replicate 3 True"

definition bad_schedule :: "bool list" where
  "bad_schedule = replicate 5 True @ replicate 6 False @ replicate 8 True @ replicate 3 False @ replicate 1 True"

lemma good_run:
  assumes u: "url_Parse L sigserv = Inr u"
    and i: "init_Unmarshal L io = Inr (so', iceo)" "init_Unmarshal L ij = Inr (sj', icej)"
    and s: "cpace_Start L sj pj = Inr (mA, Finish)" "cpace_Exchange L so po mA = Inr (mB, mko)"
      "Finish mB = Inr mkj" "hkdf_key L mko = Inr k" "hkdf_key L mkj = Inr k"
    and o: "box_Open L (box_Seal L jo no k) no k = Some jo" "box_Open L (box_Seal L ja nj k) nj k = Some ja"
    and n: "length no = 24" "length nj = 24"
    and j: "sd_Marshal L offer = Inr jo" "sd_Marshal L answer = Inr ja"
      "sd_Unmarshal L jo = Inr offer" "sd_Unmarshal L ja = Inr answer"
  shows "\<exists>q. schedule good_schedule (new_side L po sigserv [Inr io] so no offer,
      join_side L slot pj sigserv [Inr ij] sj nj answer) = Some q \<and> stuck q \<and> agreed k offer answer q"
  by (simp add: good_schedule_def run_simps u i s j n o)
    (simp add: stuck_def agreed_def await_open_def)

lemma bad_run:
  assumes u: "url_Parse L sigserv = Inr u"
    and i: "init_Unmarshal L io = Inr (so', iceo)" "init_Unmarshal L ij = Inr (sj', icej)"
    and s: "cpace_Start L sj pj = Inr (mA, Finish)" "cpace_Exchange L so po mA = Inr (mB, mko)"
      "Finish mB = Inr mkj" "hkdf_key L mko = Inr ko" "hkdf_key L mkj = Inr kj"
    and o: "box_Open L (box_Seal L jo no ko) no kj = None"
    and n: "length no = 24"
    and j: "sd_Marshal L offer = Inr jo"
  shows "\<exists>q. schedule bad_schedule (new_side L po sigserv [Inr io] so no offer,
      join_side L slot pj sigserv [Inr ij] sj nj answer) = Some q \<and> stuck q \<and> both_bad_key q"
  by (simp add: bad_schedule_def run_simps u i s j n o close_seen_def)
    (simp add: stuck_def both_bad_key_def)

section \<open>A concrete library\<close>

text \<open>Libraries the laws hold for, to run the handshake on: no cryptography, but the right shape.\<close>
definition plain_lib :: "(byte list, byte list) lib" where
  "plain_lib =
     \<lparr>url_Parse = (\<lambda>s. Inr \<lparr>Scheme = ''https'', UrlPath = s, UrlRest = ''''\<rparr>), url_String = UrlPath,
      init_Unmarshal = (\<lambda>s. Inr (s, [])),
      cpace_Start = (\<lambda>r p. Inr ([], \<lambda>mB. Inr (map (\<lambda>c. of_nat (of_char c)) p))),
      cpace_Exchange = (\<lambda>r p mA. Inr ([], map (\<lambda>c. of_nat (of_char c)) p)),
      hkdf_key = (\<lambda>mk. Inr (take 32 (mk @ replicate 32 0))),
      box_Seal = (\<lambda>m n k. k @ m),
      box_Open = (\<lambda>b n k. if take (length k) b = k then Some (drop (length k) b) else None),
      sd_Marshal = Inr, sd_Unmarshal = Inr, cand_Marshal = Inr, cand_Unmarshal = Inr\<rparr>"

lemma plain_lib_works: "lib_works plain_lib"
  by (auto simp: lib_works_def plain_lib_def)

lemma plain_keys:
  "pake_keys plain_lib so sj ''ab'' ''ab'' = Some (97 # 98 # replicate 30 0, 97 # 98 # replicate 30 0)"
  "pake_keys plain_lib so sj ''ab'' ''ac'' = Some (97 # 98 # replicate 30 0, 97 # 99 # replicate 30 0)"
  by (simp_all add: pake_keys_def plain_lib_def numeral_eq_Suc)

lemma plain_calls:
  "init_Unmarshal plain_lib i = Inr (i, [])" "sd_Marshal plain_lib d = Inr d" "sd_Unmarshal plain_lib d = Inr d"
  "url_Parse plain_lib a = Inr \<lparr>Scheme = ''https'', UrlPath = a, UrlRest = ''''\<rparr>"
  "cpace_Exchange plain_lib r p mA = Inr ([], map (\<lambda>c. of_nat (of_char c)) p)"
  "hkdf_key plain_lib mk = Inr (take 32 (mk @ replicate 32 0))"
  by (simp_all add: plain_lib_def)

lemma plain_good_run:
  "\<exists>q. schedule good_schedule (new_side plain_lib ''ab'' ''//s'' [Inr ''5''] 0 (replicate 24 1) [1, 2],
       join_side plain_lib ''5'' ''ab'' ''//s'' [Inr ''''] 0 (replicate 24 2) [3]) = Some q \<and> stuck q"
proof -
  have box: "box_Open plain_lib (box_Seal plain_lib j n k) n k = Some j" for j n k by (simp add: plain_lib_def)
  have n: "length (replicate 24 (x :: byte)) = 24" for x by simp
  from plain_keys(1) show ?thesis
    by (rule pake_keysE)
      (use good_run[OF plain_calls(4,1,1) _ _ _ _ _ box box n n plain_calls(2,2,3,3)] in blast)
qed

lemma plain_bad_run:
  "\<exists>q. schedule bad_schedule (new_side plain_lib ''ab'' ''//s'' [Inr ''5''] 0 (replicate 24 1) [1, 2],
       join_side plain_lib ''5'' ''ac'' ''//s'' [Inr ''''] 0 (replicate 24 2) [3]) = Some q \<and> stuck q"
proof -
  have box: "box_Open plain_lib (box_Seal plain_lib j n (97 # 98 # replicate 30 0)) n (97 # 99 # replicate 30 0) = None"
    for j n by (simp add: plain_lib_def)
  have n: "length (replicate 24 (x :: byte)) = 24" for x by simp
  from plain_keys(2) show ?thesis
    by (rule pake_keysE)
      (use bad_run[OF plain_calls(4,1,1) _ _ _ _ _ box n plain_calls(2)] in blast)
qed

section \<open>Every run\<close>

lemma same_keys_agree:
  assumes "lib_works L" "url_Parse L sigserv = Inr u"
    "init_Unmarshal L io = Inr inito" "init_Unmarshal L ij = Inr initj"
    "pake_keys L so sj po pj = Some (k, k)" "length no = 24" "length nj = 24"
    "(pair_step ^^ m) (new_side L po sigserv [Inr io] so no offer,
       join_side L slot pj sigserv [Inr ij] sj nj answer) s" "stuck s"
  shows "agreed k offer answer s"
proof -
  from assms(1) obtain jo ja where j: "sd_Marshal L offer = Inr jo" "sd_Unmarshal L jo = Inr offer"
    "sd_Marshal L answer = Inr ja" "sd_Unmarshal L ja = Inr answer" unfolding lib_works_def by blast
  from assms(5) obtain mA Finish mB mko mkj where p: "cpace_Start L sj pj = Inr (mA, Finish)"
    "cpace_Exchange L so po mA = Inr (mB, mko)" "Finish mB = Inr mkj" "hkdf_key L mko = Inr k"
    "hkdf_key L mkj = Inr k" by (rule pake_keysE)
  have "length k = 32" using assms(1) p(4) unfolding lib_works_def by blast
  then have o: "box_Open L (box_Seal L jo no k) no k = Some jo" "box_Open L (box_Seal L ja nj k) nj k = Some ja"
    using assms(1,6,7) unfolding lib_works_def by simp_all
  obtain so' iceo sj' icej where i: "inito = (so', iceo)" "initj = (sj', icej)" by (meson surj_pair)
  obtain q where q: "schedule good_schedule (new_side L po sigserv [Inr io] so no offer,
      join_side L slot pj sigserv [Inr ij] sj nj answer) = Some q" "stuck q" "agreed k offer answer q"
    using good_run[OF assms(2) assms(3)[unfolded i] assms(4)[unfolded i] p o assms(6,7) j(1,3,2,4)] by blast
  show ?thesis using one_run_decides(3)[OF q(1,2) assms(8,9)] q(3) by simp
qed

lemma other_keys_fail:
  assumes "lib_works L" "url_Parse L sigserv = Inr u"
    "init_Unmarshal L io = Inr inito" "init_Unmarshal L ij = Inr initj"
    "pake_keys L so sj po pj = Some (ko, kj)" "ko \<noteq> kj" "length no = 24"
    "(pair_step ^^ m) (new_side L po sigserv [Inr io] so no offer,
       join_side L slot pj sigserv [Inr ij] sj nj answer) s" "stuck s"
  shows "both_bad_key s"
proof -
  from assms(1) obtain jo where j: "sd_Marshal L offer = Inr jo" unfolding lib_works_def by blast
  from assms(5) obtain mA Finish mB mko mkj where p: "cpace_Start L sj pj = Inr (mA, Finish)"
    "cpace_Exchange L so po mA = Inr (mB, mko)" "Finish mB = Inr mkj" "hkdf_key L mko = Inr ko"
    "hkdf_key L mkj = Inr kj" by (rule pake_keysE)
  have "length ko = 32" "length kj = 32" using assms(1) p(4,5) unfolding lib_works_def by blast+
  then have o: "box_Open L (box_Seal L jo no ko) no kj = None"
    using assms(1,6,7) unfolding lib_works_def by simp
  obtain so' iceo sj' icej where i: "inito = (so', iceo)" "initj = (sj', icej)" by (meson surj_pair)
  obtain q where q: "schedule bad_schedule (new_side L po sigserv [Inr io] so no offer,
      join_side L slot pj sigserv [Inr ij] sj nj answer) = Some q" "stuck q" "both_bad_key q"
    using bad_run[OF assms(2) assms(3)[unfolded i] assms(4)[unfolded i] p o assms(7) j] by blast
  show ?thesis using one_run_decides(3)[OF q(1,2) assms(8,9)] q(3) by simp
qed

lemma all_runs_end:
  assumes "lib_works L" "url_Parse L sigserv = Inr u"
    "init_Unmarshal L io = Inr inito" "init_Unmarshal L ij = Inr initj"
    "pake_keys L so sj po pj = Some (ko, kj)" "length no = 24" "length nj = 24"
    "(pair_step ^^ m) (new_side L po sigserv [Inr io] so no offer,
       join_side L slot pj sigserv [Inr ij] sj nj answer) s"
  shows "m \<le> 31 \<and> (\<exists>n s'. (pair_step ^^ n) s s' \<and> stuck s')"
proof -
  from assms(1) obtain jo ja where j: "sd_Marshal L offer = Inr jo" "sd_Unmarshal L jo = Inr offer"
    "sd_Marshal L answer = Inr ja" "sd_Unmarshal L ja = Inr answer" unfolding lib_works_def by blast
  from assms(5) obtain mA Finish mB mko mkj where p: "cpace_Start L sj pj = Inr (mA, Finish)"
    "cpace_Exchange L so po mA = Inr (mB, mko)" "Finish mB = Inr mkj" "hkdf_key L mko = Inr ko"
    "hkdf_key L mkj = Inr kj" by (rule pake_keysE)
  have len: "length ko = 32" "length kj = 32" using assms(1) p(4,5) unfolding lib_works_def by blast+
  have o: "box_Open L (box_Seal L x n ko) n kj = (if ko = kj then Some x else None)" if "length n = 24" for x n
    using assms(1) that len unfolding lib_works_def by simp
  obtain so' iceo sj' icej where i: "inito = (so', iceo)" "initj = (sj', icej)" by (meson surj_pair)
  define start where "start = (new_side L po sigserv [Inr io] so no offer,
      join_side L slot pj sigserv [Inr ij] sj nj answer)"
  have "\<exists>bs q. length bs \<le> 31 \<and> schedule bs start = Some q \<and> stuck q"
  proof (cases "ko = kj")
    case True
    have b: "box_Open L (box_Seal L jo no kj) no kj = Some jo" "box_Open L (box_Seal L ja nj kj) nj kj = Some ja"
      using o[OF assms(6)] o[OF assms(7)] True by simp_all
    have "length good_schedule \<le> 31" by code_simp
    then show ?thesis unfolding start_def
      using good_run[OF assms(2) assms(3)[unfolded i] assms(4)[unfolded i] p(1,2,3) p(4)[unfolded True] p(5) b
          assms(6,7) j(1,3,2,4)] by blast
  next
    case False
    have b: "box_Open L (box_Seal L jo no ko) no kj = None" using o[OF assms(6)] False by simp
    have "length bad_schedule \<le> 31" by code_simp
    then show ?thesis unfolding start_def
      using bad_run[OF assms(2) assms(3)[unfolded i] assms(4)[unfolded i] p b assms(6) j(1)] by blast
  qed
  then obtain bs q where q: "length bs \<le> 31" "schedule bs start = Some q" "stuck q" by blast
  note d = one_run_decides(1,2)[OF q(2,3) assms(8)[folded start_def]]
  from d(1) q(1) have "m \<le> 31" by (rule order_trans)
  with d(2) q(3) show ?thesis by blast
qed

section \<open>Properties\<close>

text \<open>
  Two clients with the same password agree: whatever the interleaving, when neither can go on
  both wait for the data channel with the same key, and the description one made is the one the other
  was given, in both directions.
\<close>
theorem handshake_agrees:
  assumes "lib_works L" "url_Parse L sigserv = Inr u"
    "init_Unmarshal L io = Inr inito" "init_Unmarshal L ij = Inr initj"
    "pake_keys L so sj pass pass = Some (k, k)" "length no = 24" "length nj = 24"
    "(pair_step ^^ m) (new_side L pass sigserv [Inr io] so no offer,
       join_side L slot pass sigserv [Inr ij] sj nj answer) s" "stuck s"
  shows "agreed k offer answer s"
  by (rule same_keys_agree[OF assms])

lemma handshake_agrees_witness:
  "\<exists>k s. (pair_step ^^ 31) (new_side plain_lib ''ab'' ''//s'' [Inr ''5''] 0 (replicate 24 1) [1, 2],
       join_side plain_lib ''5'' ''ab'' ''//s'' [Inr ''''] 0 (replicate 24 2) [3]) s \<and> agreed k [1, 2] [3] s"
proof -
  have n: "length (replicate 24 (x :: byte)) = 24" for x by simp
  obtain s where s: "schedule good_schedule (new_side plain_lib ''ab'' ''//s'' [Inr ''5''] 0 (replicate 24 1) [1, 2],
       join_side plain_lib ''5'' ''ab'' ''//s'' [Inr ''''] 0 (replicate 24 2) [3]) = Some s" "stuck s"
    using plain_good_run by blast
  have "length good_schedule = 31" by code_simp
  with schedule_run[OF s(1)] handshake_agrees[OF plain_lib_works plain_calls(4,1,1) plain_keys(1) n n
      schedule_run[OF s(1)] s(2)] show ?thesis
    by (metis (no_types))
qed

text \<open>
  C8. Two clients with different passwords never connect: whatever the interleaving, when neither
  can go on both have returned \<open>ErrBadKey\<close>, and no remote description was accepted.
\<close>
theorem handshake_bad_key:
  assumes "lib_works L" "url_Parse L sigserv = Inr u"
    "init_Unmarshal L io = Inr inito" "init_Unmarshal L ij = Inr initj"
    "pake_keys L so sj po pj = Some (ko, kj)" "ko \<noteq> kj" "length no = 24"
    "(pair_step ^^ m) (new_side L po sigserv [Inr io] so no offer,
       join_side L slot pj sigserv [Inr ij] sj nj answer) s" "stuck s"
  shows "both_bad_key s"
  by (rule other_keys_fail[OF assms])

lemma handshake_bad_key_witness:
  "\<exists>s. (pair_step ^^ 23) (new_side plain_lib ''ab'' ''//s'' [Inr ''5''] 0 (replicate 24 1) [1, 2],
       join_side plain_lib ''5'' ''ac'' ''//s'' [Inr ''''] 0 (replicate 24 2) [3]) s \<and> both_bad_key s"
proof -
  have n: "length (replicate 24 (x :: byte)) = 24" and k: "97 # 98 # replicate 30 0 \<noteq> (97 :: byte) # 99 # replicate 30 0"
    for x by simp_all
  obtain s where s: "schedule bad_schedule (new_side plain_lib ''ab'' ''//s'' [Inr ''5''] 0 (replicate 24 1) [1, 2],
       join_side plain_lib ''5'' ''ac'' ''//s'' [Inr ''''] 0 (replicate 24 2) [3]) = Some s" "stuck s"
    using plain_bad_run by blast
  have "length bad_schedule = 23" by code_simp
  with schedule_run[OF s(1)] handshake_bad_key[OF plain_lib_works plain_calls(4,1,1) plain_keys(2) k n
      schedule_run[OF s(1)] s(2)] show ?thesis
    by (metis (no_types))
qed



text \<open>
  C31. A malformed message crashes the client: whoever is on the other end of the slot, without knowing
  the password, makes \<open>New\<close> panic by answering the offer with anything that decodes to fewer than the
  24 bytes of a nonce, the empty message for one.
\<close>
theorem short_message_panics:
  assumes "lib_works L" "url_Parse L sigserv = Inr u" "init_Unmarshal L io = Inr inito"
    "cpace_Exchange L so pass mA = Inr (mB, mk)" "hkdf_key L mk = Inr k"
    "DecodeString short = Some e" "length e < 24"
  shows "\<exists>s. (pair_step ^^ 14) (new_side L pass sigserv [Inr io, Inr (EncodeToString mA), Inr short] so no offer, peer) s
     \<and> prog (fst s) = Panic"
proof -
  obtain jo where j: "sd_Marshal L offer = Inr jo" using assms(1) unfolding lib_works_def by blast
  obtain so' iceo where i: "inito = (so', iceo)" by (meson surj_pair)
  have "\<exists>q. schedule (replicate 14 True)
      (new_side L pass sigserv [Inr io, Inr (EncodeToString mA), Inr short] so no offer, peer) = Some q
      \<and> prog (fst q) = Panic"
    by (insert assms(7)) (simp add: run_simps assms(2-6) i j)
  then show ?thesis using schedule_run by fastforce
qed

lemma short_message_panics_witness:
  "\<exists>s. (pair_step ^^ 14) (new_side plain_lib ''ab'' ''//s'' [Inr ''5'', Inr (EncodeToString []), Inr ''''] 0 (replicate 24 1) [1, 2],
       join_side plain_lib ''5'' '''' ''//s'' [] 0 [] []) s \<and> prog (fst s) = Panic"
proof -
  have "DecodeString '''' = Some []" by code_simp
  then show ?thesis
    by (rule short_message_panics[OF plain_lib_works, where mB = "[]" and mk = "[97, 98]" and inito = "(''5'', [])"
          and u = "\<lparr>Scheme = ''https'', UrlPath = ''//s'', UrlRest = ''''\<rparr>" and k = "97 # 98 # replicate 30 0",
          rotated -2])
      (simp_all add: plain_calls numeral_eq_Suc)
qed

text \<open>
  A slot no one is on is not reported as \<open>ErrNoSuchSlot\<close>, an error no function of the package returns:
  \<open>Join\<close> passes the WebSocket's close status on.
\<close>
theorem no_such_slot_raw:
  assumes "url_Parse L sigserv = Inr u"
  shows "\<exists>s. (pair_step ^^ 2) (join_side L slot pass sigserv [Inl (ClosedWith CloseNoSuchSlot)] sj nj d, peer) s
     \<and> prog (fst s) = Return (Inl (WsErr (ClosedWith CloseNoSuchSlot)))"
proof -
  have "\<exists>q. schedule (replicate 2 True) (join_side L slot pass sigserv [Inl (ClosedWith CloseNoSuchSlot)] sj nj d, peer) = Some q
      \<and> prog (fst q) = Return (Inl (WsErr (ClosedWith CloseNoSuchSlot)))"
    by (simp add: run_simps assms CloseWrongProto_def CloseNoSuchSlot_def)
  then show ?thesis using schedule_run by fastforce
qed

end
