(* ===== verification/Flags.thy ===== *)
theory Flags
  imports GoStrings "HOL-Library.AList"
begin

text \<open>
  What the programs use of Go's \<open>flag\<close> package: a set of flags with their values, \<open>Parse\<close> of an
  argument list with \<open>flag.ExitOnError\<close>, and the conversions of \<open>strconv\<close> behind it. A flag set is
  the list of its flags, each with its value, at first the default; the kind of a flag is that of its
  value.
\<close>

section \<open>Values\<close>

datatype fval = BoolV bool | IntV int | StringV string

text \<open>\<open>strconv.ParseBool\<close>; \<open>None\<close> is its error.\<close>
definition ParseBool :: "string \<Rightarrow> bool option" where
  "ParseBool s =
     (if s \<in> set [''1'', ''t'', ''T'', ''true'', ''TRUE'', ''True''] then Some True
      else if s \<in> set [''0'', ''f'', ''F'', ''false'', ''FALSE'', ''False''] then Some False
      else None)"

text \<open>The base \<open>strconv.ParseUint\<close> reads off a number when it is given base 0, and the digits after it.\<close>
definition base_of :: "string \<Rightarrow> nat \<times> string" where
  "base_of s = (case s of
     c # d # e # r \<Rightarrow>
       if c \<noteq> CHR ''0'' then (10, s)
       else if d = CHR ''b'' \<or> d = CHR ''B'' then (2, e # r)
       else if d = CHR ''o'' \<or> d = CHR ''O'' then (8, e # r)
       else if d = CHR ''x'' \<or> d = CHR ''X'' then (16, e # r)
       else (8, d # e # r)
   | c # r \<Rightarrow> if c = CHR ''0'' then (8, r) else (10, s)
   | [] \<Rightarrow> (10, []))"

text \<open>\<open>underscoreOK\<close>: an underscore stands between two digits, or the base and a digit.\<close>
fun underscores :: "bool \<Rightarrow> char \<Rightarrow> string \<Rightarrow> bool" where
  "underscores hex saw [] = (saw \<noteq> CHR ''_'')"
| "underscores hex saw (c # cs) =
     (if is_digit c \<or> hex \<and> (case digit_val c of Some d \<Rightarrow> d < 16 | None \<Rightarrow> False) then underscores hex (CHR ''0'') cs
      else if c = CHR ''_'' then saw = CHR ''0'' \<and> underscores hex (CHR ''_'') cs
      else saw \<noteq> CHR ''_'' \<and> underscores hex (CHR ''!'') cs)"

definition underscoreOK :: "string \<Rightarrow> bool" where
  "underscoreOK s = (case s of
     c # d # r \<Rightarrow>
       if c = CHR ''0'' \<and> d \<in> set ''bBoO'' then underscores False (CHR ''0'') r
       else if c = CHR ''0'' \<and> d \<in> set ''xX'' then underscores True (CHR ''0'') r
       else underscores False (CHR ''^'') s
   | _ \<Rightarrow> underscores False (CHR ''^'') s)"

text \<open>\<open>strconv.ParseInt(s, 0, 64)\<close>.\<close>
definition ParseInt0 :: "string \<Rightarrow> int option" where
  "ParseInt0 s =
     (let neg = (case s of [] \<Rightarrow> False | c # _ \<Rightarrow> c = CHR ''-'');
          u = (case s of [] \<Rightarrow> [] | c # cs \<Rightarrow> if c = CHR ''-'' \<or> c = CHR ''+'' then cs else s);
          (base, ds) = base_of u
      in if u = [] then None
         else if CHR ''_'' \<in> set ds \<and> \<not> underscoreOK u then None
         else case parse_digits base 0 (filter (\<lambda>c. c \<noteq> CHR ''_'') ds) of None \<Rightarrow> None
         | Some n \<Rightarrow>
             if \<not> neg \<and> 2 ^ 63 \<le> n then None
             else if neg \<and> 2 ^ 63 < n then None
             else Some (if neg then - int n else int n))"

text \<open>\<open>Set\<close> of a flag with this value.\<close>
definition fset :: "fval \<Rightarrow> string \<Rightarrow> fval option" where
  "fset v s = (case v of
     BoolV _ \<Rightarrow> map_option BoolV (ParseBool s)
   | IntV _ \<Rightarrow> map_option IntV (ParseInt0 s)
   | StringV _ \<Rightarrow> Some (StringV s))"

section \<open>Parse\<close>

type_synonym flags = "(string \<times> fval) list"

text \<open>The name of a flag and its value, if there is an equals sign after the first character.\<close>
definition split_flag :: "string \<Rightarrow> string \<times> string option" where
  "split_flag s =
     (let n = take 1 s @ takeWhile (\<lambda>c. c \<noteq> CHR ''='') (drop 1 s); r = drop (length n) s
      in (n, if r = [] then None else Some (drop 1 r)))"

text \<open>\<open>Inl\<close> is the status the program exits with; \<open>Inr\<close> the values and the arguments that remain.\<close>
fun Parse :: "flags \<Rightarrow> string list \<Rightarrow> nat + flags \<times> string list" where
  "Parse vs [] = Inr (vs, [])"
| "Parse vs (s # args) =
     (if length s < 2 \<or> s ! 0 \<noteq> CHR ''-'' then Inr (vs, s # args)
      else if s = ''--'' then Inr (vs, args)
      else
        let name = drop (if s ! 1 = CHR ''-'' then 2 else 1) s
        in if name = [] \<or> name ! 0 = CHR ''-'' \<or> name ! 0 = CHR ''='' then Inl 2
           else
             (case split_flag name of (n, value) \<Rightarrow>
               (case map_of vs n of
                  None \<Rightarrow> Inl (if n = ''help'' \<or> n = ''h'' then 0 else 2)
                | Some (BoolV b) \<Rightarrow>
                    (case fset (BoolV b) (case value of Some x \<Rightarrow> x | None \<Rightarrow> ''true'') of
                       None \<Rightarrow> Inl 2
                     | Some v \<Rightarrow> Parse (AList.update n v vs) args)
                | Some old \<Rightarrow>
                    (case value of
                       Some x \<Rightarrow> (case fset old x of None \<Rightarrow> Inl 2 | Some v \<Rightarrow> Parse (AList.update n v vs) args)
                     | None \<Rightarrow>
                         (case args of
                            [] \<Rightarrow> Inl 2
                          | x # rest \<Rightarrow>
                              (case fset old x of None \<Rightarrow> Inl 2
                               | Some v \<Rightarrow> Parse (AList.update n v vs) rest))))))"

text \<open>The values of flags by name, as the variables of the program.\<close>
definition int_of :: "flags \<Rightarrow> string \<Rightarrow> int" where
  "int_of vs n = (case map_of vs n of Some (IntV x) \<Rightarrow> x | _ \<Rightarrow> 0)"

definition string_flag :: "flags \<Rightarrow> string \<Rightarrow> string" where
  "string_flag vs n = (case map_of vs n of Some (StringV s) \<Rightarrow> s | _ \<Rightarrow> '''')"

definition bool_of :: "flags \<Rightarrow> string \<Rightarrow> bool" where
  "bool_of vs n = (case map_of vs n of Some (BoolV b) \<Rightarrow> b | _ \<Rightarrow> False)"

section \<open>Setting flags\<close>

text \<open>One flag on the command line, and what a list of them makes of the values.\<close>
definition flag_arg :: "string \<times> string \<Rightarrow> string" where
  "flag_arg nx = ''-'' @ fst nx @ ''='' @ snd nx"

fun settle :: "flags \<Rightarrow> (string \<times> string) list \<Rightarrow> flags option" where
  "settle vs [] = Some vs"
| "settle vs ((n, x) # ss) =
     (case map_of vs n of None \<Rightarrow> None
      | Some old \<Rightarrow> (case fset old x of None \<Rightarrow> None | Some v \<Rightarrow> settle (AList.update n v vs) ss))"

definition flag_name :: "string \<Rightarrow> bool" where
  "flag_name n \<longleftrightarrow> n \<noteq> [] \<and> n ! 0 \<noteq> CHR ''-'' \<and> CHR ''='' \<notin> set n"

lemma split_flag_arg: "flag_name n \<Longrightarrow> split_flag (n @ ''='' @ x) = (n, Some x)"
proof -
  assume n: "flag_name n"
  then obtain c m where c: "n = c # m" by (auto simp: flag_name_def neq_Nil_conv)
  then have "takeWhile (\<lambda>c. c \<noteq> CHR ''='') (m @ CHR ''='' # x) = m"
    using n by (subst takeWhile_append2) (auto simp: flag_name_def)
  then show ?thesis using c by (simp add: split_flag_def Let_def)
qed

lemma Parse_flag:
  assumes "flag_name n" "map_of vs n = Some old" "fset old x = Some v"
  shows "Parse vs (flag_arg (n, x) # args) = Parse (AList.update n v vs) args"
proof -
  obtain c m where c: "n = c # m" "c \<noteq> CHR ''-''" "c \<noteq> CHR ''=''"
    using assms(1) by (auto simp: flag_name_def neq_Nil_conv)
  have "fset (BoolV b) x = Some v" if "old = BoolV b" for b using assms(3) that by simp
  then show ?thesis
    using assms split_flag_arg[OF assms(1), of x] c
    by (cases old) (simp_all add: flag_arg_def)
qed

lemma Parse_settle:
  "settle vs ss = Some vs' \<Longrightarrow> list_all (flag_name \<circ> fst) ss \<Longrightarrow> Parse vs (map flag_arg ss @ args) = Parse vs' args"
proof (induction ss arbitrary: vs)
  case (Cons s ss)
  obtain n x where s: "s = (n, x)" by fastforce
  from Cons.prems(1) obtain old v where v: "map_of vs n = Some old" "fset old x = Some v"
    "settle (AList.update n v vs) ss = Some vs'"
    unfolding s by (auto split: option.splits)
  have "flag_name n" using Cons.prems(2) s by simp
  from Parse_flag[OF this v(1,2)] Cons.IH[OF v(3)] Cons.prems(2) show ?case by (simp add: s)
qed simp

text \<open>The arguments after the flags, when the first does not look like one.\<close>
definition plain_args :: "string list \<Rightarrow> bool" where
  "plain_args args \<longleftrightarrow> (case args of [] \<Rightarrow> True | s # _ \<Rightarrow> length s < 2 \<or> s ! 0 \<noteq> CHR ''-'')"

lemma Parse_plain: "plain_args args \<Longrightarrow> Parse vs args = Inr (vs, args)"
  by (cases args) (auto simp: plain_args_def)

lemma Parse_dashes: "Parse vs (''--'' # args) = Inr (vs, args)"
  by simp

declare Parse.simps [simp del]

section \<open>Numbers\<close>

lemma nat_digits_leading: "2 \<le> b \<Longrightarrow> b \<le> 10 \<Longrightarrow> 0 < n \<Longrightarrow> hd (nat_digits b n) \<noteq> CHR ''0''"
proof (induction b n rule: nat_digits.induct)
  case (1 b n)
  show ?case
  proof (cases "n < b")
    case True
    have "digit_char n \<noteq> CHR ''0''"
    proof
      assume "digit_char n = CHR ''0''"
      then have "byte_val (digit_char n) = 48" by simp
      then show False using True 1(3,4) by simp
    qed
    then show ?thesis using True 1(2) by (subst nat_digits.simps) simp
  next
    case False
    then have "0 < n div b" using 1(2) by (simp add: div_greater_zero_iff)
    then show ?thesis using 1 False by (subst nat_digits.simps) simp
  qed
qed

lemma base_of_digits:
  assumes "list_all is_digit ds" "ds \<noteq> []" "hd ds \<noteq> CHR ''0''"
  shows "base_of ds = (10, ds)"
  using assms by (auto simp: base_of_def split: list.split)

lemma digits_no_underscore: "list_all is_digit ds \<Longrightarrow> CHR ''_'' \<notin> set ds"
  by (auto simp: list_all_iff is_digit_def)

lemma ParseInt0_FormatInt:
  assumes "- (2 ^ 63) \<le> x" "x < 2 ^ 63"
  shows "ParseInt0 (FormatInt 10 x) = Some x"
proof -
  have digits: "list_all is_digit (nat_digits 10 k)" for k by (rule nat_digits_digit) simp_all
  have parsed: "base_of (nat_digits 10 k) = (10, nat_digits 10 k) \<or> k = 0" for k
    using base_of_digits[OF digits] nat_digits_leading[of 10 k] by auto
  have clean: "filter (\<lambda>c. c \<noteq> CHR ''_'') (nat_digits 10 k) = nat_digits 10 k" "CHR ''_'' \<notin> set (nat_digits 10 k)" for k
    using digits_no_underscore[OF digits, of k] by (auto simp: filter_id_conv)
  have zero: "nat_digits 10 0 = ''0''" by (subst nat_digits.simps) (simp add: digit_char_def char_of_def bit_numeral_rec bit_0)
  have sign: "c \<noteq> CHR ''-'' \<and> c \<noteq> CHR ''+''" if "nat_digits 10 k = c # cs" for k c cs
    using digits[of k] that is_digit_not_sign by simp
  have val: "parse_digits 10 0 (nat_digits 10 k) = Some k" for k by (rule parse_nat_digits) simp_all
  consider "x = 0" | "0 < x" | "x < 0" by linarith
  then show ?thesis
  proof cases
    case 1
    then show ?thesis by (simp add: FormatInt_def zero ParseInt0_def base_of_def)
  next
    case 2
    obtain c cs where c: "nat_digits 10 (nat x) = c # cs" using nat_digits_nonempty by (meson neq_Nil_conv)
    have "\<not> 2 ^ 63 \<le> nat x" using assms(2) 2 by (simp add: nat_less_iff not_le)
    then show ?thesis
      using 2 parsed[of "nat x"] clean[of "nat x"] val[of "nat x"] sign[OF c] c
      by (simp add: FormatInt_def ParseInt0_def Let_def)
  next
    case 3
    have "\<not> 2 ^ 63 < nat (- x)" using assms(1) 3 by (simp add: not_less nat_le_iff)
    then show ?thesis
      using 3 parsed[of "nat (- x)"] clean[of "nat (- x)"] val[of "nat (- x)"]
      by (simp add: FormatInt_def ParseInt0_def Let_def)
  qed
qed

end
