(* ===== verification/Client.thy ===== *)
theory Client
  imports HandshakeCtx Wordlist Agreement Flags
begin

text \<open>
  The entry points that turn a code into a connection: the tunnel constructors of
  \<open>src/wormhole/tunnel.go\<close> and \<open>src/wormhole/tunnel_ctx.go\<close>, the \<open>Client\<close> of
  \<open>src/wormhole/client_ctx.go\<close>, and \<open>newConn\<close> of \<open>src/cmd/ww/main.go\<close>. A tunnel over a new session is
  \<open>()\<close>: what it does is the matter of the session's theories.
\<close>

section \<open>Tunnels over a connection\<close>

text \<open>A wormhole with an error is dropped.\<close>
definition tunnel_over :: "dial_err + dial_err option \<Rightarrow> ('d, 'c, dial_err + unit) proc" where
  "tunnel_over r = (case r of Inl err \<Rightarrow> fail err | Inr (Some err) \<Rightarrow> fail err | Inr None \<Rightarrow> Return (Inr ()))"

definition NewTunnel :: "('d, 'c) lib \<Rightarrow> string \<Rightarrow> string \<Rightarrow> ('d, 'c, dial_err + unit) proc" where
  "NewTunnel L pass sigserv = andthen (New L pass sigserv) tunnel_over"

definition JoinTunnel :: "('d, 'c) lib \<Rightarrow> string \<Rightarrow> string \<Rightarrow> string \<Rightarrow> ('d, 'c, dial_err + unit) proc" where
  "JoinTunnel L slot pass sigserv = andthen (Join_slot L slot pass sigserv) tunnel_over"

definition NewTunnelCtx :: "goctx \<Rightarrow> ('d, 'c) lib \<Rightarrow> string \<Rightarrow> string \<Rightarrow> ('d, 'c, dial_err + unit) proc" where
  "NewTunnelCtx ctx L pass sigserv = andthen (NewCtx ctx L pass sigserv) tunnel_over"

definition JoinTunnelCtx :: "goctx \<Rightarrow> ('d, 'c) lib \<Rightarrow> string \<Rightarrow> string \<Rightarrow> string \<Rightarrow> ('d, 'c, dial_err + unit) proc" where
  "JoinTunnelCtx ctx L slot pass sigserv = andthen (JoinCtx ctx L slot pass sigserv) tunnel_over"

section \<open>The client\<close>

definition DefaultSignalServer :: string where "DefaultSignalServer = ''https://webwormhole.com''"

definition signalServer :: "string \<Rightarrow> string" where
  "signalServer SignalServer = (if SignalServer \<noteq> '''' then SignalServer else DefaultSignalServer)"

definition signalWSURL :: "('d, 'c) lib \<Rightarrow> string \<Rightarrow> dial_err + string" where
  "signalWSURL L sigserv =
     (case url_Parse L sigserv of
        Inl err \<Rightarrow> Inl err
      | Inr u \<Rightarrow>
          Inr (url_String L (u\<lparr>Scheme := if Scheme u = ''http'' \<or> Scheme u = ''ws'' then ''ws'' else ''wss''\<rparr>)))"

text \<open>The function \<open>PrepareTunnel\<close> returns to the owner of a new slot.\<close>
definition connect :: "goctx \<Rightarrow> ('d, 'c) lib \<Rightarrow> byte list \<Rightarrow> ('d, 'c, dial_err + unit) proc" where
  "connect ctx L pass =
     attempt (readBase64Ctx ctx) (\<lambda>msgA.
     DrawSeed (\<lambda>seed.
     orfail (cpace_Exchange L seed (string_of pass) msgA) (\<lambda>(msgB, mk).
     orfail (hkdf_key L mk) (\<lambda>key.
     attempt (writeBase64Ctx ctx msgB) (\<lambda>_.
     OnICECandidate ctx key (
     attempt (CreateOffer Return) (\<lambda>offer.
     attempt (writeEncJSONCtx ctx L key (sd_Marshal L offer)) (\<lambda>_.
     attempt (SetLocalDescription offer Return) (\<lambda>_.
     andthen (readEncJSONCtx ctx L key (sd_Unmarshal L)) (\<lambda>r.
     if close_status r = Some CloseBadKey then fail ErrBadKey else
     orfail r (\<lambda>answer.
     attempt (SetRemoteDescription answer Return) (\<lambda>_.
     GoHandleRemoteCandidates ctx key (
     andthen (await_openCtx ctx) tunnel_over)))))))))))))"

text \<open>The code to show and the function that connects.\<close>
definition PrepareTunnel :: "goctx \<Rightarrow> ('d, 'c) lib \<Rightarrow> string \<Rightarrow> string
    \<Rightarrow> ('d, 'c, dial_err + string \<times> ('d, 'c, dial_err + unit) proc) proc" where
  "PrepareTunnel ctx L SignalServer code =
     (if code \<noteq> '''' then
        (case wl_Decode code of
           None \<Rightarrow> fail (LibErr ''invalid wormhole code'')
         | Some (slot, pass) \<Rightarrow>
             Return (Inr (code, JoinTunnelCtx ctx L (Itoa slot) (string_of pass) (signalServer SignalServer))))
      else
        attempt (ReadRand 2 Return) (\<lambda>pass.
        orfail (signalWSURL L (signalServer SignalServer)) (\<lambda>wsaddr.
        attempt (DialWs ctx wsaddr Return) (\<lambda>_.
        GoCloseWhenDone ctx CloseWebRTCFailed (
        andthen (readInitMsgCtx ctx L) (\<lambda>r.
        if close_status r = Some CloseWrongProto then fail ErrBadVersion else
        orfail r (\<lambda>(assignedSlot, iceServers).
        attempt (newPeerConnection iceServers) (\<lambda>_.
        case Atoi assignedSlot of
          None \<Rightarrow> fail (LibErr ''atoi'')
        | Some slot \<Rightarrow> Return (Inr (wl_Encode slot pass, connect ctx L pass))))))))))"

definition Client_JoinTunnel :: "goctx \<Rightarrow> ('d, 'c) lib \<Rightarrow> string \<Rightarrow> string \<Rightarrow> ('d, 'c, dial_err + string) proc" where
  "Client_JoinTunnel ctx L SignalServer code =
     (case wl_Decode code of
        None \<Rightarrow> fail (LibErr ''invalid wormhole code'')
      | Some (slot, pass) \<Rightarrow>
          attempt (JoinTunnelCtx ctx L (Itoa slot) (string_of pass) (signalServer SignalServer)) (\<lambda>_.
          Return (Inr code)))"

section \<open>The command line\<close>

text \<open>
  \<open>newConn\<close> ends the program with a message (\<open>Inl\<close>, its first line or its fixed part), or returns the
  connection, with whether it prints that it is relayed. A negative length of the password panics.
  The goroutine it starts prints the code for the slot that \<open>New\<close> sends, \<open>printed_code\<close>.
\<close>
definition dial_message :: "dial_err \<Rightarrow> string" where
  "dial_message err =
     (if err = ErrBadVersion then ''the signalling server is running an incompatable version.'' else ''could not dial'')"

definition connected :: "dial_err + dial_err option \<Rightarrow> ('d, 'c, string + bool) proc" where
  "connected r =
     (case r of
        Inl err \<Rightarrow> Return (Inl (dial_message err))
      | Inr (Some err) \<Rightarrow> Return (Inl (dial_message err))
      | Inr None \<Rightarrow> andthen IsRelay (\<lambda>relay. Return (Inr relay)))"

definition newConn :: "('d, 'c) lib \<Rightarrow> string \<Rightarrow> string \<Rightarrow> int \<Rightarrow> ('d, 'c, string + bool) proc" where
  "newConn L sigserv code len =
     (if code \<noteq> '''' then
        (case wl_Decode code of
           None \<Rightarrow> Return (Inl ''could not decode password'')
         | Some (slot, pass) \<Rightarrow> andthen (Join_slot L (Itoa slot) (string_of pass) sigserv) connected)
      else if len < 0 then Panic
      else
        ReadRand (nat len) (\<lambda>r. case r of
          Inl err \<Rightarrow> Return (Inl ''could not generate password'')
        | Inr pass \<Rightarrow> andthen (New L (string_of pass) sigserv) connected))"

text \<open>What the goroutine of \<open>newConn\<close> prints for the slot; \<open>None\<close> ends the program.\<close>
definition printed_code :: "byte list \<Rightarrow> string \<Rightarrow> string option" where
  "printed_code pass s = map_option (\<lambda>slot. wl_Encode slot pass) (Atoi s)"

text \<open>The settings from the environment; the error of \<open>strconv.ParseBool\<close> ends the program.\<close>
definition LookupEnvOrBool :: "(string \<rightharpoonup> string) \<Rightarrow> string \<Rightarrow> bool \<Rightarrow> bool option" where
  "LookupEnvOrBool env name defaultVal = (case env name of Some v \<Rightarrow> ParseBool v | None \<Rightarrow> Some defaultVal)"

definition LookupEnvOrString :: "(string \<rightharpoonup> string) \<Rightarrow> string \<Rightarrow> string \<Rightarrow> string" where
  "LookupEnvOrString env name defaultVal = (case env name of Some val \<Rightarrow> val | None \<Rightarrow> defaultVal)"

section \<open>Properties\<close>

lemma code_decodes: "pass \<noteq> [] \<Longrightarrow> typed_as code (wl_Encode slot pass) \<Longrightarrow> wl_Decode code = Some (slot, pass)"
  using en_varint.Dec_typed[OF TrueI] by (simp add: wl_Decode_eq wl_Encode_eq)

lemma freeslot_number:
  assumes "freeslot m rnd = Some s"
  obtains slot where "s = Itoa slot" "Atoi s = Some slot" "unat slot < 2 ^ 21"
proof -
  obtain k where k: "k < 2 ^ 21" "s = Itoa (of_nat k)" using freeslot_free(2)[OF assms] by blast
  have big: "k < 2 ^ 63" using k(1) by (rule less_trans) simp
  have n: "unat (of_nat k :: goint) = k" using big by (simp add: unat_of_nat take_bit_nat_eq_self)
  have u: "uint (of_nat k :: goint) = int k" using big by (simp add: unsigned_of_nat take_bit_nat_eq_self)
  have "sint (of_nat k :: goint) = int k"
    using big u by (simp add: sint_uint signed_take_bit_int_eq_self)
  then have a: "Atoi (Itoa (of_nat k)) = Some (of_nat k)" by (intro Atoi_Itoa) simp
  show ?thesis by (rule that[of "of_nat k"]) (use a k n in simp_all)
qed

text \<open>The owner's side, with the password bytes as its randomness.\<close>
definition owner_side :: "('d, 'c, 'r) proc \<Rightarrow> string \<Rightarrow> byte list \<Rightarrow> nat \<Rightarrow> byte list list \<Rightarrow> 'd \<Rightarrow> ('d, 'c, 'r) side" where
  "owner_side p initmsg pass sd rest desc =
     \<lparr>prog = p, inbox = [Inr initmsg], seed = sd, nonces = pass # rest, description = desc,
      localDesc = None, remoteDesc = None, candKey = None\<rparr>"

text \<open>
  A code leads to its slot: the owner of a slot the server handed out gets a code of at most three
  words more than its password has bytes, and whoever types that code, in any case and with any
  separators, dials that slot with that password.
\<close>
theorem code_reaches_slot:
  assumes "freeslot m rnd = Some s" "init_Unmarshal L i = Inr (s, ice)"
    "signalWSURL L (signalServer SignalServer) = Inr wsaddr" "pass \<noteq> []"
  shows "\<exists>q code. (pair_step ^^ 6) (owner_side (PrepareTunnel ctx L SignalServer '''') i pass sd rest desc, peer) q
     \<and> prog (fst q) = Return (Inr (code, connect ctx L pass))
     \<and> length (code_parts code) \<le> 3 + length pass
     \<and> (\<forall>typed. typed_as typed code \<longrightarrow>
          Client_JoinTunnel ctx' L SignalServer typed =
            attempt (JoinTunnelCtx ctx' L s (string_of pass) (signalServer SignalServer)) (\<lambda>_. Return (Inr typed)))"
proof -
  obtain slot where slot: "s = Itoa slot" "Atoi s = Some slot" "unat slot < 2 ^ 21"
    by (rule freeslot_number[OF assms(1)])
  let ?code = "wl_Encode slot pass"
  have "\<exists>q. schedule (replicate 6 True) (owner_side (PrepareTunnel ctx L SignalServer '''') i pass sd rest desc, peer) = Some q
      \<and> prog (fst q) = Return (Inr (?code, connect ctx L pass))"
    by (simp add: owner_side_def PrepareTunnel_def left_step_def attempt_def proc_simps assms(2,3) slot(2)
        readInitMsgCtx_def newPeerConnection_def deliver_def numeral_eq_Suc)
  then obtain q where q: "(pair_step ^^ 6) (owner_side (PrepareTunnel ctx L SignalServer '''') i pass sd rest desc, peer) q"
    "prog (fst q) = Return (Inr (?code, connect ctx L pass))" using schedule_run by fastforce
  have "code_parts ?code = words_of slot pass"
    using assms(4) words_of_lower[of slot pass]
    by (simp add: wl_Encode_words code_parts_Join list_all_iff code_word_lower)
  moreover have "length (PutUvarint slot) \<le> 3"
  proof -
    have "2 ^ (7 * 0) \<le> unat slot \<or> (1 :: nat) = 1" by simp
    consider "unat slot < 2 ^ 7" | "2 ^ 7 \<le> unat slot" "unat slot < 2 ^ 14" | "2 ^ 14 \<le> unat slot" by linarith
    then show ?thesis
      using length_PutUvarint[of 1 slot] length_PutUvarint[of 2 slot] length_PutUvarint[of 3 slot] slot(3)
      by cases simp_all
  qed
  ultimately have "length (code_parts ?code) \<le> 3 + length pass" by (simp add: words_of_def)
  moreover have "\<forall>typed. typed_as typed ?code \<longrightarrow>
      Client_JoinTunnel ctx' L SignalServer typed =
        attempt (JoinTunnelCtx ctx' L s (string_of pass) (signalServer SignalServer)) (\<lambda>_. Return (Inr typed))"
    using code_decodes[OF assms(4)] slot(1) by (simp add: Client_JoinTunnel_def)
  ultimately show ?thesis using q by blast
qed

lemma code_reaches_slot_witness:
  "\<exists>q code. (pair_step ^^ 6) (owner_side (PrepareTunnel TODO plain_lib '''' '''') ''5'' [8, 8] 0 [] [],
       owner_side Panic '''' [] 0 [] []) q
     \<and> length (code_parts code) \<le> 3 + 2
     \<and> Client_JoinTunnel TODO plain_lib '''' code =
          attempt (JoinTunnelCtx TODO plain_lib ''5'' (string_of [8, 8]) DefaultSignalServer) (\<lambda>_. Return (Inr code))"
proof -
  have "try_slots ([] :: (string \<times> nat) list) (\<lambda>_. 5) (2 ^ 7) 0 (Suc 63) = Some ''5''"
    unfolding try_slots.simps by (simp add: Let_def Itoa_5)
  then have f: "freeslot ([] :: (string \<times> nat) list) (\<lambda>_. 5) = Some ''5''"
    by (simp add: freeslot_def)
  have w: "signalWSURL plain_lib (signalServer '''') = Inr DefaultSignalServer"
    by (simp add: signalWSURL_def plain_calls signalServer_def plain_lib_def)
  have p: "[8 :: byte, 8] \<noteq> []" by simp
  from code_reaches_slot[OF f plain_calls(1) w p, of TODO 0 "[]" "[]" "owner_side Panic '''' [] 0 [] []" TODO]
  show ?thesis by (auto simp: signalServer_def)
qed

lemma over_rules:
  "andthen (fail e) tunnel_over = fail e"
  "andthen (orfail r k) tunnel_over = orfail r (\<lambda>x. andthen (k x) tunnel_over)"
  "andthen (attempt p k) tunnel_over = attempt p (\<lambda>x. andthen (k x) tunnel_over)"
  "andthen (if b then p1 else p2) tunnel_over = (if b then andthen p1 tunnel_over else andthen p2 tunnel_over)"
  "andthen (case y of (a, c) \<Rightarrow> g a c) tunnel_over = (case y of (a, c) \<Rightarrow> andthen (g a c) tunnel_over)"
proof -
  show "andthen (fail e) tunnel_over = fail e" by (simp add: fail_def tunnel_over_def)
  show o: "andthen (orfail r k) tunnel_over = orfail r (\<lambda>x. andthen (k x) tunnel_over)" for r k
    by (cases r) (simp_all add: orfail_def fail_def tunnel_over_def)
  show "andthen (attempt p k) tunnel_over = attempt p (\<lambda>x. andthen (k x) tunnel_over)"
    by (simp add: attempt_def andthen_assoc o)
qed (auto split: prod.split)

lemma NewTunnelCtx_connect:
  "NewTunnelCtx ctx L (string_of pass) sigserv =
     orfail (url_Parse L sigserv) (\<lambda>u.
     attempt (DialWs ctx (url_String L (ws_scheme u)) Return) (\<lambda>_.
     GoCloseWhenDone ctx CloseWebRTCFailed (
     andthen (readInitMsgCtx ctx L) (\<lambda>r.
     if close_status r = Some CloseWrongProto then fail ErrBadVersion else
     orfail r (\<lambda>(assignedSlot, iceServers).
     SendSlot assignedSlot (
     attempt (newPeerConnection iceServers) (\<lambda>_.
     connect ctx L pass)))))))"
  by (simp add: NewTunnelCtx_def NewCtx_def connect_def over_rules andthen_assoc cong: if_cong)

text \<open>
  \<open>PrepareTunnel\<close> is \<open>NewTunnelCtx\<close> in two parts: from the same messages and with the same
  password, the function it returns is what \<open>NewTunnelCtx\<close> goes on with once it has handed over its
  slot.
\<close>
theorem prepare_then_connect:
  assumes "init_Unmarshal L i = Inr (s, ice)" "url_Parse L (signalServer SignalServer) = Inr u" "Atoi s = Some slot"
  shows "(\<exists>q. (pair_step ^^ 6) (owner_side (PrepareTunnel ctx L SignalServer '''') i pass sd rest desc, peer) q
       \<and> prog (fst q) = Return (Inr (wl_Encode slot pass, connect ctx L pass)))
     \<and> (\<exists>q. (pair_step ^^ 6) (owner_side (NewTunnelCtx ctx L (string_of pass) (signalServer SignalServer)) i pass sd rest desc, peer') q
       \<and> prog (fst q) = connect ctx L pass)"
proof
  have "\<exists>q. schedule (replicate 6 True) (owner_side (PrepareTunnel ctx L SignalServer '''') i pass sd rest desc, peer) = Some q
      \<and> prog (fst q) = Return (Inr (wl_Encode slot pass, connect ctx L pass))"
    by (simp add: owner_side_def PrepareTunnel_def signalWSURL_def left_step_def attempt_def proc_simps assms
        readInitMsgCtx_def newPeerConnection_def deliver_def numeral_eq_Suc)
  then show "\<exists>q. (pair_step ^^ 6) (owner_side (PrepareTunnel ctx L SignalServer '''') i pass sd rest desc, peer) q
       \<and> prog (fst q) = Return (Inr (wl_Encode slot pass, connect ctx L pass))"
    using schedule_run by fastforce
  have "\<exists>q. schedule (replicate 6 True)
      (owner_side (NewTunnelCtx ctx L (string_of pass) (signalServer SignalServer)) i pass sd rest desc, peer') = Some q
      \<and> prog (fst q) = connect ctx L pass"
    by (simp add: owner_side_def NewTunnelCtx_connect left_step_def attempt_def proc_simps assms
        readInitMsgCtx_def newPeerConnection_def deliver_def numeral_eq_Suc)
  then show "\<exists>q. (pair_step ^^ 6) (owner_side (NewTunnelCtx ctx L (string_of pass) (signalServer SignalServer)) i pass sd rest desc, peer') q
       \<and> prog (fst q) = connect ctx L pass"
    using schedule_run by fastforce
qed

lemma prepare_then_connect_witness:
  "\<exists>q q'. (pair_step ^^ 6) (owner_side (PrepareTunnel TODO plain_lib '''' '''') ''5'' [8, 8] 0 [] [],
       owner_side Panic '''' [] 0 [] []) q
     \<and> prog (fst q) = Return (Inr (wl_Encode 5 [8, 8], connect TODO plain_lib [8, 8]))
     \<and> (pair_step ^^ 6) (owner_side (NewTunnelCtx TODO plain_lib (string_of [8, 8]) (signalServer '''')) ''5'' [8, 8] 0 [] [],
       owner_side Panic '''' [] 0 [] []) q'
     \<and> prog (fst q') = connect TODO plain_lib [8, 8]"
proof -
  have "Atoi ''5'' = Some 5" using Atoi_Itoa[of 5] by (simp add: Itoa_5)
  from prepare_then_connect[OF plain_calls(1) plain_calls(4) this, of TODO "''''" "[8, 8]" 0 "[]" "[]"
      "owner_side Panic '''' [] 0 [] []" "owner_side Panic '''' [] 0 [] []"]
  show ?thesis by blast
qed

end
