(* ===== verification/Browser.thy ===== *)
theory Browser
  imports Client
begin

text \<open>
  The wrappers the browser calls, \<open>src/web/webwormhole.go\<close>: the key exchange in its two roles, sealing
  and opening, and codes. A call returns null, a value, or panics; the state of the key exchange is
  the one global variable. A JavaScript string is the string of its UTF-8 bytes.
\<close>

datatype 'a js = Null | Value 'a | Thrown

text \<open>The method \<open>Finish\<close> of the state; \<open>None\<close> is the nil pointer before the first call of \<open>start\<close>.\<close>
type_synonym pake_state = "(byte list \<Rightarrow> dial_err + byte list) option"

definition web_start ::
  "('d, 'c) lib \<Rightarrow> nat \<Rightarrow> byte list \<Rightarrow> pake_state \<Rightarrow> string js \<times> pake_state" where
  "web_start L sd pass state =
     (case cpace_Start L sd (string_of pass) of
        Inl _ \<Rightarrow> (Null, state)
      | Inr (msgA, s) \<Rightarrow> (Value (EncodeToString msgA), Some s))"

definition web_finish :: "('d, 'c) lib \<Rightarrow> pake_state \<Rightarrow> string \<Rightarrow> byte list js" where
  "web_finish L state base64msgB =
     (case DecodeString base64msgB of
        None \<Rightarrow> Null
      | Some msgB \<Rightarrow>
          (case state of
             None \<Rightarrow> Thrown
           | Some Finish \<Rightarrow>
               (case Finish msgB of
                  Inl _ \<Rightarrow> Null
                | Inr mk \<Rightarrow> (case hkdf_key L mk of Inl _ \<Rightarrow> Null | Inr k \<Rightarrow> Value k))))"

definition web_exchange :: "('d, 'c) lib \<Rightarrow> nat \<Rightarrow> byte list \<Rightarrow> string \<Rightarrow> (byte list \<times> string) js" where
  "web_exchange L sd pass base64msgA =
     (case DecodeString base64msgA of
        None \<Rightarrow> Null
      | Some msgA \<Rightarrow>
          (case cpace_Exchange L sd (string_of pass) msgA of
             Inl _ \<Rightarrow> Null
           | Inr (msgB, mk) \<Rightarrow>
               (case hkdf_key L mk of Inl _ \<Rightarrow> Null | Inr k \<Rightarrow> Value (k, EncodeToString msgB))))"

text \<open>\<open>js.CopyBytesToGo(key[:], arg)\<close>: as many bytes as there are, at most 32, the rest zero.\<close>
definition key_arg :: "byte list \<Rightarrow> byte list" where
  "key_arg arg = copy_at 0 arg (replicate 32 0)"

definition web_open :: "('d, 'c) lib \<Rightarrow> byte list \<Rightarrow> string \<Rightarrow> string js" where
  "web_open L arg base64ciphertext =
     (case DecodeString base64ciphertext of
        None \<Rightarrow> Null
      | Some encrypted \<Rightarrow>
          if length encrypted < 24 then Thrown
          else (case box_Open L (drop 24 encrypted) (take 24 encrypted) (key_arg arg) of
              None \<Rightarrow> Null
            | Some clear \<Rightarrow> Value (string_of clear)))"

text \<open>\<open>nonce\<close> is what \<open>io.ReadFull\<close> gives for 24 bytes of randomness, \<open>None\<close> its error.\<close>
definition web_seal :: "('d, 'c) lib \<Rightarrow> byte list option \<Rightarrow> byte list \<Rightarrow> string \<Rightarrow> string js" where
  "web_seal L nonce arg clear =
     (case nonce of
        None \<Rightarrow> Null
      | Some n \<Rightarrow>
          Value (EncodeToString (n @ box_Seal L (map (\<lambda>c. of_nat (of_char c)) clear) n (key_arg arg))))"

definition web_encode :: "goint \<Rightarrow> byte list \<Rightarrow> string" where
  "web_encode slot pass = wl_Encode slot pass"

text \<open>\<open>Decode\<close> returns slot 0 and a nil password for what is not a code.\<close>
definition web_decode :: "string \<Rightarrow> string \<times> byte list" where
  "web_decode code = (case wl_Decode code of None \<Rightarrow> (Itoa 0, []) | Some (slot, pass) \<Rightarrow> (Itoa slot, pass))"

definition web_match :: "string \<Rightarrow> string" where
  "web_match pre = wl_Match pre"

text \<open>\<open>expand\<close> is HKDF with the label \<open>fingerprint\<close>, read for 8 bytes.\<close>
definition web_fingerprint :: "(byte list \<Rightarrow> dial_err + byte list) \<Rightarrow> byte list \<Rightarrow> byte list js" where
  "web_fingerprint expand arg = (case expand (key_arg arg) of Inl _ \<Rightarrow> Null | Inr fp \<Rightarrow> Value fp)"

text \<open>\<open>png\<close> is the QR encoder with its image as PNG.\<close>
definition web_qrencode :: "(string \<Rightarrow> byte list option) \<Rightarrow> string \<Rightarrow> byte list js" where
  "web_qrencode png url = (case png url of None \<Rightarrow> Null | Some img \<Rightarrow> Value img)"

section \<open>Properties\<close>

lemma key_arg_32 [simp]: "length k = 32 \<Longrightarrow> key_arg k = k"
  by (simp add: key_arg_def copy_at_def)



text \<open>
  C38. What a page seals, a page with the same key opens, and one with another key gets null; a command
  line with the same key reads the same message.
\<close>
theorem web_seal_open:
  assumes "lib_works L" "length k = 32" "length k' = 32" "length n = 24" "web_seal L (Some n) k clear = Value c"
    "prog s0 = readEncJSON L k unm" "inbox s0 = [Inr c]"
  shows "web_open L k' c = (if k = k' then Value clear else Null)
     \<and> (\<exists>s. react s0 = Some (s, []) \<and> prog s = Return (unm (map (\<lambda>c. of_nat (of_char c)) clear)))"
proof -
  have c: "c = EncodeToString (n @ box_Seal L (map (\<lambda>c. of_nat (of_char c)) clear) n k)"
    using assms(2,5) by (simp add: web_seal_def)
  have o: "box_Open L (box_Seal L m n k) n k'' = (if k = k'' then Some m else None)" if "length k'' = 32" for m k''
    using assms(1,2,4) that unfolding lib_works_def by simp
  show ?thesis
    using assms(2-4,6,7) o[OF assms(2)] o[OF assms(3)]
    by (simp add: c web_open_def readEncJSON_def attempt_def proc_simps)
qed

lemma web_seal_open_witness:
  "web_open plain_lib (replicate 32 1) (EncodeToString (replicate 24 7 @ replicate 32 1 @ [104, 105])) = Value ''hi''
   \<and> web_open plain_lib (replicate 32 2) (EncodeToString (replicate 24 7 @ replicate 32 1 @ [104, 105])) = Null"
proof -
  let ?c = "EncodeToString (replicate 24 7 @ replicate 32 1 @ [104, 105])"
  let ?s = "\<lparr>prog = readEncJSON plain_lib (replicate 32 1) Inr, inbox = [Inr ?c], seed = 0, nonces = [],
    description = [], localDesc = None, remoteDesc = None, candKey = None\<rparr>"
  have k: "length (replicate n (x :: byte)) = n" for n x by simp
  have ne: "replicate 32 (1 :: byte) \<noteq> replicate 32 2" by simp
  have c: "web_seal plain_lib (Some (replicate 24 7)) (replicate 32 1) ''hi'' = Value ?c"
    by (simp add: web_seal_def plain_lib_def)
  note so = web_seal_open[OF plain_lib_works k _ k c, of _ ?s Inr]
  show ?thesis using so[OF k] ne by simp
qed

end
