(* ===== verification/Network.thy ===== *)
theory Network
  imports Agreement
begin

text \<open>
  Two clients through the real server. \<open>Pairing\<close> delivers what one client sends straight to the other;
  here each has a connection to the server of \<open>Relay\<close>, which serves any number of others meanwhile.
  What a client sends waits in its connection until the server's loop reads it; what the server
  forwards, and the connections it closes, reach the clients through the events of its steps. The
  lemmas show that a run through the server is a run of \<open>Pairing\<close>, so that its theorems hold of it.
\<close>

section \<open>Two clients and the server\<close>

text \<open>A client's step, with the close status it sends and not what the other sees of it.\<close>
definition act :: "('d, 'c, 'r) side \<Rightarrow> (('d, 'c, 'r) side \<times> ws_item list) option" where
  "act s = (case prog s of
     CloseWs st p \<Rightarrow> Some (s\<lparr>prog := p\<rparr>, [Inl (ClosedWith st)])
   | _ \<Rightarrow> react s)"

definition wire :: "ws_item \<Rightarrow> rd" where
  "wire m = map_sum id bytes_of m"

text \<open>A client on its connection: what it sent and the server has not read, and whether it has closed it.\<close>
record ('d, 'c, 'r) end_point =
  client :: "('d, 'c, 'r) side"
  uplink :: "ws_item list"
  gone :: bool

record ('d, 'c, 'r) net =
  ends :: "nat \<Rightarrow> ('d, 'c, 'r) end_point"
  srv :: server

definition client_step :: "('d, 'c, 'r) end_point \<Rightarrow> ('d, 'c, 'r) end_point option" where
  "client_step a =
     map_option (\<lambda>(c, out).
       a\<lparr>client := c, uplink := uplink a @ out, gone := gone a \<or> list_ex isl out\<rparr>) (act (client a))"

text \<open>What a step of the server makes arrive at connection \<open>k\<close>.\<close>
definition arriving :: "nat \<Rightarrow> revent \<Rightarrow> ws_item list" where
  "arriving k e = (case e of
     Forward _ t p \<Rightarrow> if t = k then [Inr (string_of p)] else []
   | CloseConn t st \<Rightarrow> if t = k then [Inl (ClosedWith st)] else []
   | _ \<Rightarrow> [])"

definition arrives :: "revent \<Rightarrow> (nat \<Rightarrow> ('d, 'c, 'r) end_point) \<Rightarrow> nat \<Rightarrow> ('d, 'c, 'r) end_point" where
  "arrives e n k = (n k)\<lparr>client := deliver (arriving k e) (client (n k))\<rparr>"

text \<open>
  The clients on \<open>i\<close> and \<open>j\<close> step; the server reads what one of them sent, its write to the other
  failing only when that one has closed its connection; and the server does anything else that is
  not on these two connections.
\<close>
inductive net_step :: "nat \<Rightarrow> nat \<Rightarrow> ('d, 'c, 'r) net \<Rightarrow> ('d, 'c, 'r) net \<Rightarrow> bool" for i j where
  n_client: "k \<in> {i, j} \<Longrightarrow> client_step (ends n k) = Some a \<Longrightarrow>
     net_step i j n (n\<lparr>ends := (ends n)(k := a)\<rparr>)"
| n_read: "(k, k') \<in> {(i, j), (j, i)} \<Longrightarrow> uplink (ends n k) = m # ms \<Longrightarrow> reading (hs (srv n) ! k) \<Longrightarrow>
     on_read k (wire m) wrote (srv n) = (e, s') \<Longrightarrow> wrote \<or> gone (ends n k') \<Longrightarrow>
     net_step i j n (n\<lparr>ends := arrives e ((ends n)(k := (ends n k)\<lparr>uplink := ms\<rparr>)), srv := s'\<rparr>)"
| n_other: "rstep (srv n) e s' \<Longrightarrow> hs s' ! i = hs (srv n) ! i \<Longrightarrow> hs s' ! j = hs (srv n) ! j \<Longrightarrow>
     (\<forall>k p. e \<noteq> Forward i k p \<and> e \<noteq> Forward j k p) \<Longrightarrow>
     net_step i j n (n\<lparr>ends := arrives e (ends n), srv := s'\<rparr>)"

section \<open>What the other client sees\<close>

definition seen :: "ws_item \<Rightarrow> ws_item list" where
  "seen m = (case m of
     Inr x \<Rightarrow> [Inr x]
   | Inl e \<Rightarrow> (case CloseStatus e of Some st \<Rightarrow> close_seen st | None \<Rightarrow> [Inl (ClosedWith ClosePeerHungUp)]))"

definition received :: "ws_item list \<Rightarrow> ws_item list" where
  "received ms = concat (map seen ms)"

lemma received_simps [simp]:
  "received [] = []" "received (m # ms) = seen m @ received ms" "received (ms @ ms') = received ms @ received ms'"
  by (simp_all add: received_def)

lemma deliver_simps [simp]: "deliver [] c = c" "deliver ms' (deliver ms c) = deliver (ms @ ms') c"
  "prog (deliver ms c) = prog c"
  by (simp_all add: deliver_def)

lemma act_react: "act c = Some (c', out) \<Longrightarrow> react c = Some (c', received out)"
  by (auto simp: act_def seen_def split: proc.splits list.splits)

lemma act_none: "act c = None \<longleftrightarrow> react c = None"
  by (auto simp: act_def split: proc.splits)

text \<open>A program without its connection, and one that uses it no more once it has closed it.\<close>
primrec silent :: "('d, 'c, 'r) proc \<Rightarrow> bool" where
  "silent (Return r) = True"
| "silent Panic = True"
| "silent (DialWs ctx a k) = False"
| "silent (GoCloseWhenDone ctx st p) = silent p"
| "silent (ReadWs ctx k) = False"
| "silent (WriteWs ctx m k) = False"
| "silent (CloseWs st p) = False"
| "silent (SendSlot s p) = silent p"
| "silent (NewPeerConnection ice k) = (\<forall>x. silent (k x))"
| "silent (CreateDataChannel k) = (\<forall>x. silent (k x))"
| "silent (DrawSeed k) = (\<forall>x. silent (k x))"
| "silent (ReadRand n k) = (\<forall>x. silent (k x))"
| "silent (OnICECandidate ctx key p) = silent p"
| "silent (CreateOffer k) = (\<forall>x. silent (k x))"
| "silent (CreateAnswer k) = (\<forall>x. silent (k x))"
| "silent (SetLocalDescription d k) = (\<forall>x. silent (k x))"
| "silent (SetRemoteDescription d k) = (\<forall>x. silent (k x))"
| "silent (AddICECandidate c k) = (\<forall>x. silent (k x))"
| "silent (GoHandleRemoteCandidates ctx key p) = silent p"
| "silent (GetStats k) = (\<forall>x. silent (k x))"
| "silent (PollDone ctx k) = (\<forall>x. silent (k x))"
| "silent (Select k) = (\<forall>x. silent (k x))"
| "silent (SelectCtx ctx k d) = ((\<forall>x. silent (k x)) \<and> (\<forall>x. silent (d x)))"

primrec closes_last :: "('d, 'c, 'r) proc \<Rightarrow> bool" where
  "closes_last (Return r) = True"
| "closes_last Panic = True"
| "closes_last (DialWs ctx a k) = (\<forall>x. closes_last (k x))"
| "closes_last (GoCloseWhenDone ctx st p) = closes_last p"
| "closes_last (ReadWs ctx k) = (\<forall>x. closes_last (k x))"
| "closes_last (WriteWs ctx m k) = (\<forall>x. closes_last (k x))"
| "closes_last (CloseWs st p) = silent p"
| "closes_last (SendSlot s p) = closes_last p"
| "closes_last (NewPeerConnection ice k) = (\<forall>x. closes_last (k x))"
| "closes_last (CreateDataChannel k) = (\<forall>x. closes_last (k x))"
| "closes_last (DrawSeed k) = (\<forall>x. closes_last (k x))"
| "closes_last (ReadRand n k) = (\<forall>x. closes_last (k x))"
| "closes_last (OnICECandidate ctx key p) = closes_last p"
| "closes_last (CreateOffer k) = (\<forall>x. closes_last (k x))"
| "closes_last (CreateAnswer k) = (\<forall>x. closes_last (k x))"
| "closes_last (SetLocalDescription d k) = (\<forall>x. closes_last (k x))"
| "closes_last (SetRemoteDescription d k) = (\<forall>x. closes_last (k x))"
| "closes_last (AddICECandidate c k) = (\<forall>x. closes_last (k x))"
| "closes_last (GoHandleRemoteCandidates ctx key p) = closes_last p"
| "closes_last (GetStats k) = (\<forall>x. closes_last (k x))"
| "closes_last (PollDone ctx k) = (\<forall>x. closes_last (k x))"
| "closes_last (Select k) = (\<forall>x. closes_last (k x))"
| "closes_last (SelectCtx ctx k d) = ((\<forall>x. closes_last (k x)) \<and> (\<forall>x. closes_last (d x)))"

lemma silent_closes_last: "silent p \<Longrightarrow> closes_last p"
  by (induction p) auto

lemma act_closes_last:
  "closes_last (prog c) \<Longrightarrow> act c = Some (c', out) \<Longrightarrow> closes_last (prog c')"
  "closes_last (prog c) \<Longrightarrow> act c = Some (c', out) \<Longrightarrow> list_ex isl out \<Longrightarrow> silent (prog c')"
  by (auto simp: act_def silent_closes_last split: proc.splits list.splits)

lemma silent_act:
  "silent (prog c) \<Longrightarrow> act c = Some (c', out) \<Longrightarrow>
     out = [] \<and> silent (prog c') \<and> react (c\<lparr>inbox := ms\<rparr>) = Some (c'\<lparr>inbox := ms\<rparr>, [])"
  "silent (prog c) \<Longrightarrow> act c = None \<Longrightarrow> react (c\<lparr>inbox := ms\<rparr>) = None"
  by (auto simp: act_def split: proc.splits list.splits)

lemma act_out: "act c = Some (c', out) \<Longrightarrow> length out \<le> 1"
  by (auto simp: act_def split: proc.splits list.splits)

lemma closes_last_orfail [simp]: "closes_last (orfail r k) \<longleftrightarrow> (\<forall>x. r = Inr x \<longrightarrow> closes_last (k x))"
  by (cases r) (simp_all add: orfail_def fail_def)

lemmas client_programs = Let_def attempt_def readInitMsg_def newPeerConnection_def readEncJSON_def writeEncJSON_def
  readBase64_def writeBase64_def fail_def proc_simps await_open_def IsRelay_def

lemma closes_last_New: "closes_last (New L pass sigserv)"
  by (simp add: New_def client_programs split: sum.splits option.splits wake.splits)

lemma closes_last_Join: "closes_last (Join_slot L slot pass sigserv)"
  by (simp add: Join_slot_def client_programs split: sum.splits option.splits wake.splits)

section \<open>The run through the server is a run of the pair\<close>

text \<open>One side of the pair holds what its client will have received; after it closed, that is of no matter.\<close>
definition same :: "('d, 'c, 'r) end_point \<Rightarrow> ('d, 'c, 'r) end_point \<Rightarrow> ('d, 'c, 'r) side \<Rightarrow> bool" where
  "same a b c \<longleftrightarrow> (if gone a then \<exists>ms. c = (client a)\<lparr>inbox := ms\<rparr> else c = deliver (received (uplink b)) (client a))"

definition end_ok :: "nat \<Rightarrow> server \<Rightarrow> ('d, 'c, 'r) end_point \<Rightarrow> ('d, 'c, 'r) end_point \<Rightarrow> bool" where
  "end_ok k s a b \<longleftrightarrow>
     closes_last (prog (client a)) \<and> (gone a \<longrightarrow> silent (prog (client a)))
     \<and> (\<forall>m \<in> set (butlast (uplink a)). \<not> isl m) \<and> (list_ex isl (uplink a) \<longrightarrow> gone a)
     \<and> (reading (hs s ! k) \<or> gone b \<or> gone a \<and> uplink a = [])"

definition carried :: "nat \<Rightarrow> nat \<Rightarrow> ('d, 'c, 'r) net \<Rightarrow> ('d, 'c, 'r) pair \<Rightarrow> bool" where
  "carried i j n p \<longleftrightarrow>
     server_ok (srv n) \<and> C_of (srv n) i = Some j \<and> C_of (srv n) j = Some i
     \<and> end_ok i (srv n) (ends n i) (ends n j) \<and> end_ok j (srv n) (ends n j) (ends n i)
     \<and> same (ends n i) (ends n j) (fst p) \<and> same (ends n j) (ends n i) (snd p)"

lemma paired:
  assumes "server_ok s" "C_of s i = Some j" "C_of s j = Some i"
  shows "i \<noteq> j" "i < length (hs s)" "j < length (hs s)" "phase (hs s ! i) = SEnd" "phase (hs s ! j) = SEnd"
    "C_of s k = Some i \<Longrightarrow> k = j" "C_of s k = Some j \<Longrightarrow> k = i"
proof -
  have inv: "pairs_inv (P_of s) (C_of s)" using assms(1) by (simp add: server_ok_def core_def)
  show len: "i < length (hs s)" "j < length (hs s)" using assms(2,3) by (auto simp: C_of_def split: if_splits)
  have pi: "a \<noteq> b \<and> (C_of s b = Some a \<and> P_of s a = Some SEnd \<and> P_of s b = Some SEnd
      \<or> P_of s b = Some SGot \<and> C_of s b = None)" if "C_of s a = Some b" for a b
  proof -
    have "C_of s b = None" if "P_of s b = Some SGot" using inv that unfolding pairs_inv_def by blast
    moreover have "a \<noteq> b \<and> (C_of s b = Some a \<and> P_of s a = Some SEnd \<and> P_of s b = Some SEnd
        \<or> P_of s a = Some (JSend b) \<and> P_of s b = Some SGot)"
      using inv that unfolding pairs_inv_def by blast
    ultimately show ?thesis by blast
  qed
  show "i \<noteq> j" using pi[OF assms(2)] by blast
  have "P_of s i = Some SEnd \<and> P_of s j = Some SEnd" using pi[OF assms(2)] assms(3) by simp
  then show "phase (hs s ! i) = SEnd" "phase (hs s ! j) = SEnd" using at_core(1) len by simp_all
  show "C_of s k = Some i \<Longrightarrow> k = j" using pi[of k i] assms(2) by auto
  show "C_of s k = Some j \<Longrightarrow> k = i" using pi[of k j] assms(3) by auto
qed

text \<open>What the server does with others makes nothing arrive at a pair.\<close>
lemma others_apart:
  assumes ok: "server_ok s" "C_of s i = Some j" "C_of s j = Some i"
    and st: "rstep s e s'" "hs s' ! i = hs s ! i" "hs s' ! j = hs s ! j" "\<And>p. e \<noteq> Forward j i p"
  shows "arriving i e = []"
  using st(1)
proof cases
  case (r_arrive right key)
  then show ?thesis using paired(2)[OF ok] by (auto simp: arrive_def Let_def arriving_def split: if_splits)
next
  case (r_setup k rnd)
  then have "k \<noteq> i" using paired(4)[OF ok] by (auto simp: setup_steps_def)
  with r_setup(2) show ?thesis
    by (auto simp: arriving_def setup_steps_def book_def join_def announce_def wait_done_def
        join_announce_def join_wait_done_def split: rphase.splits if_splits option.splits)
next
  case (r_read k r wrote)
  have "k = j" if "rconn (hs s ! k) = Some i" using paired(6)[OF ok] that r_read(1) by (simp add: at_core)
  moreover have "\<not> reading (hs s' ! j)" if "s' = stop_reading j s"
    using that paired(3)[OF ok] by (simp add: stop_reading_def set_h_def)
  moreover have "\<forall>p. e \<noteq> Forward j i p" using st(4) by blast
  ultimately show ?thesis using r_read st(3)
    by (auto simp: arriving_def on_read_def close_peer_def split: sum.splits option.splits if_splits)
qed (simp_all add: arriving_def)

lemma client_carried:
  assumes a: "client_step a = Some a'" and ok: "end_ok k s a b" "end_ok k' s b a" and sm: "same a b c" "same b a d"
  shows "end_ok k s a' b" "end_ok k' s b a'"
    "\<exists>c' out. react c = Some (c', out) \<and> same a' b c' \<and> same b a' (deliver out d)"
proof -
  obtain cl out where r: "act (client a) = Some (cl, out)"
    "a' = a\<lparr>client := cl, uplink := uplink a @ out, gone := gone a \<or> list_ex isl out\<rparr>"
    using a by (auto simp: client_step_def)
  note cl = act_closes_last[OF _ r(1)]
  have sil: "gone a \<Longrightarrow> out = [] \<and> silent (prog cl) \<and> react ((client a)\<lparr>inbox := ms\<rparr>) = Some (cl\<lparr>inbox := ms\<rparr>, [])" for ms
    using silent_act(1)[OF _ r(1)] ok(1) by (simp add: end_ok_def)
  have "\<forall>m \<in> set (butlast (uplink a @ out)). \<not> isl m"
  proof (cases "gone a")
    case True
    then show ?thesis using sil ok(1) by (simp add: end_ok_def)
  next
    case False
    then have "\<not> list_ex isl (uplink a)" using ok(1) by (auto simp: end_ok_def)
    moreover have "butlast out = []" using act_out[OF r(1)] by (cases out) auto
    ultimately show ?thesis by (auto simp: butlast_append list_ex_iff dest: in_set_butlastD)
  qed
  then show "end_ok k s a' b" using ok(1) cl sil by (auto simp: end_ok_def r(2))
  show "end_ok k' s b a'" using ok(2) by (auto simp: end_ok_def r(2))
  have peer: "same b a' (deliver (received out) d)"
    using sm(2) by (auto simp: same_def r(2) deliver_def split: if_splits)
  show "\<exists>c' out. react c = Some (c', out) \<and> same a' b c' \<and> same b a' (deliver out d)"
  proof (cases "gone a")
    case True
    then obtain ms where c: "c = (client a)\<lparr>inbox := ms\<rparr>" using sm(1) by (auto simp: same_def)
    have "react c = Some (cl\<lparr>inbox := ms\<rparr>, [])" using sil[OF True] c by simp
    moreover have "same a' b (cl\<lparr>inbox := ms\<rparr>)" using True by (auto simp: same_def r(2))
    moreover have "out = []" using sil[OF True] by simp
    ultimately show ?thesis using peer by auto
  next
    case False
    then have c: "c = deliver (received (uplink b)) (client a)" using sm(1) by (simp add: same_def)
    have "react c = Some (deliver (received (uplink b)) cl, received out)"
      unfolding c by (rule react_deliver[OF act_react[OF r(1)]])
    moreover have "same a' b (deliver (received (uplink b)) cl)"
      by (auto simp: same_def r(2) deliver_def)
    ultimately show ?thesis using peer by blast
  qed
qed

lemma read_arrives:
  assumes "on_read k (wire m) wrote s = (e, s')" "rconn (hs s ! k) = Some k'" "k \<noteq> k'"
  shows "arriving k e = []" "arriving k' e = seen m"
    "isl m \<or> \<not> wrote \<Longrightarrow> s' = stop_reading k s" "\<not> isl m \<Longrightarrow> wrote \<Longrightarrow> s' = s"
  using assms
  by (cases m; auto simp: on_read_def wire_def arriving_def close_peer_def seen_def close_seen_def image_iff
      split: sum.splits if_splits option.splits)+

lemma read_carried:
  assumes s: "server_ok s" "C_of s k = Some k'" "C_of s k' = Some k"
    and ok: "end_ok k s a b" "end_ok k' s b a" and sm: "same a b c" "same b a d"
    and rd: "uplink a = m # ms" "on_read k (wire m) wrote s = (e, s')" "wrote \<or> gone b"
    and a': "a' = a\<lparr>uplink := ms\<rparr>" and b': "b' = b\<lparr>client := deliver (seen m) (client b)\<rparr>"
  shows "end_ok k s' a' b'" "end_ok k' s' b' a'" "same a' b' c" "same b' a' d"
proof -
  note p = paired[OF s]
  have rc: "rconn (hs s ! k) = Some k'" using s(2) p(2) by (simp add: at_core)
  note r = read_arrives[OF rd(2) rc p(1)]
  have k': "reading (hs s' ! k') = reading (hs s ! k')"
    using r(3,4) p(1) by (cases "isl m \<or> \<not> wrote") (auto simp: stop_reading_def set_h_def)
  have last: "isl m \<Longrightarrow> ms = [] \<and> gone a" using ok(1) rd(1) by (auto simp: end_ok_def split: if_splits)
  show "end_ok k s' a' b'"
  proof (cases "isl m \<or> \<not> wrote")
    case True
    then have "gone b \<or> gone a \<and> ms = []" using last rd(3) by blast
    then show ?thesis using ok(1) rd(1) a' b' by (auto simp: end_ok_def split: if_splits)
  next
    case False
    then show ?thesis using ok(1) rd(1) a' b' r(4) by (auto simp: end_ok_def split: if_splits)
  qed
  show "end_ok k' s' b' a'" using ok(2) k' a' b' by (auto simp: end_ok_def)
  show "same a' b' c" using sm(1) a' b' by (auto simp: same_def)
  show "same b' a' d" using sm(2) a' b' rd(1) by (auto simp: same_def deliver_def split: if_splits)
qed

text \<open>A step of a client is a step of the pair; the server's steps only move what is on its way.\<close>
lemma client_step_carried:
  assumes k: "k \<in> {i, j}" and a: "client_step (ends n k) = Some a" and car: "carried i j n p"
  shows "\<exists>p'. carried i j (n\<lparr>ends := (ends n)(k := a)\<rparr>) p' \<and> pair_step p p'"
proof -
  have c: "server_ok (srv n)" "C_of (srv n) i = Some j" "C_of (srv n) j = Some i"
    "end_ok i (srv n) (ends n i) (ends n j)" "end_ok j (srv n) (ends n j) (ends n i)"
    "same (ends n i) (ends n j) (fst p)" "same (ends n j) (ends n i) (snd p)"
    using car by (simp_all add: carried_def)
  have ij: "i \<noteq> j" using paired(1)[OF c(1-3)] .
  from k consider "k = i" | "k = j" by blast
  then show ?thesis
  proof cases
    case 1
    note l = client_carried[OF a[unfolded 1] c(4,5,6,7)]
    from l(3) obtain l' out where x: "react (fst p) = Some (l', out)" "same a (ends n j) l'"
      "same (ends n j) a (deliver out (snd p))" by blast
    have "pair_step p (l', deliver out (snd p))" by (simp add: pair_step_def left_step_def x(1) del: react.simps)
    then show ?thesis using c(1-3) l(1,2) x(2,3) ij 1
      by (intro exI[of _ "(l', deliver out (snd p))"]) (simp add: carried_def)
  next
    case 2
    note l = client_carried[OF a[unfolded 2] c(5,4,7,6)]
    from l(3) obtain r' out where x: "react (snd p) = Some (r', out)" "same a (ends n i) r'"
      "same (ends n i) a (deliver out (fst p))" by blast
    have "pair_step p (deliver out (fst p), r')" by (simp add: pair_step_def right_step_def x(1) del: react.simps)
    then show ?thesis using c(1-3) l(1,2) x(2,3) ij 2
      by (intro exI[of _ "(deliver out (fst p), r')"]) (simp add: carried_def)
  qed
qed

lemma read_step_carried:
  assumes k: "(k, k') \<in> {(i, j), (j, i)}" and u: "uplink (ends n k) = m # ms"
    and rd: "on_read k (wire m) wrote (srv n) = (e, s')" "wrote \<or> gone (ends n k')" and car: "carried i j n p"
  shows "carried i j (n\<lparr>ends := arrives e ((ends n)(k := (ends n k)\<lparr>uplink := ms\<rparr>)), srv := s'\<rparr>) p"
    (is "carried i j ?n p")
proof -
  have c: "server_ok (srv n)" "C_of (srv n) k = Some k'" "C_of (srv n) k' = Some k"
    using car k by (auto simp: carried_def)
  note q = paired[OF c]
  have rc: "rconn (hs (srv n) ! k) = Some k'" using c(2) q(2) by (simp add: at_core)
  note r = read_arrives(1,2)[OF rd(1) rc q(1)]
  have s': "server_ok s'" "C_of s' = C_of (srv n)" using read_ok[OF c(1) q(2) rd(1)] by simp_all
  have e: "ends ?n k = (ends n k)\<lparr>uplink := ms\<rparr>"
    "ends ?n k' = (ends n k')\<lparr>client := deliver (seen m) (client (ends n k'))\<rparr>"
    using q(1) r by (simp_all add: arrives_def)
  have s: "srv ?n = s'" by simp
  from k consider "k = i" "k' = j" | "k = j" "k' = i" by blast
  then show ?thesis
  proof cases
    case 1
    show ?thesis using car read_carried[OF c _ _ _ _ u rd e, of "fst p" "snd p"] s s'
      unfolding carried_def 1 by simp
  next
    case 2
    show ?thesis using car read_carried[OF c _ _ _ _ u rd e, of "snd p" "fst p"] s s'
      unfolding carried_def 2 by simp
  qed
qed

lemma net_step_carried:
  assumes "net_step i j n n'" "carried i j n p"
  shows "\<exists>p'. carried i j n' p' \<and> (p' = p \<or> pair_step p p')"
  using assms(1)
proof cases
  case (n_client k a)
  then show ?thesis using client_step_carried[OF n_client(2,3) assms(2)] by blast
next
  case (n_read k k' m ms wrote e s')
  then show ?thesis using read_step_carried[OF n_read(2,3,5,6) assms(2)] by blast
next
  case (n_other e s')
  have c: "server_ok (srv n)" "C_of (srv n) i = Some j" "C_of (srv n) j = Some i"
    using assms(2) by (auto simp: carried_def)
  have e: "arriving i e = []" "arriving j e = []"
    using others_apart[OF c n_other(2,3,4)] others_apart[OF c(1,3,2) n_other(2,4,3)] n_other(5) by blast+
  have "ends n' i = ends n i" "ends n' j = ends n j" by (simp_all add: n_other(1) arrives_def e)
  moreover have "server_ok s'" "C_of s' i = Some j" "C_of s' j = Some i"
    using rstep_ok[OF n_other(2) c(1)] C_of_keeps[OF c(1) n_other(2)] c(2,3) by simp_all
  ultimately have "carried i j n' p"
    using assms(2) n_other(1,3,4) by (simp add: carried_def end_ok_def)
  then show ?thesis by blast
qed

lemma net_run_carried:
  assumes "(net_step i j)\<^sup>*\<^sup>* n n'" "carried i j n p"
  shows "\<exists>m p'. (pair_step ^^ m) p p' \<and> carried i j n' p'"
  using assms
proof (induction rule: rtranclp_induct)
  case base
  then show ?case by (intro exI[of _ 0] exI[of _ p]) simp
next
  case (step y z)
  then obtain m p' where "(pair_step ^^ m) p p'" "carried i j y p'" by blast
  with net_step_carried[OF step.hyps(2)] show ?case by (metis relpowp_Suc_I)
qed

section \<open>Runs\<close>

text \<open>Two clients on a pair of connections, with nothing on its way to the server.\<close>
definition on_slot :: "nat \<Rightarrow> ('d, 'c, 'r) side \<Rightarrow> ('d, 'c, 'r) side \<Rightarrow> server \<Rightarrow> ('d, 'c, 'r) net" where
  "on_slot i a b s =
     \<lparr>ends = (\<lambda>k. \<lparr>client = (if k = i then a else b), uplink = [], gone = False\<rparr>), srv = s\<rparr>"

text \<open>The server has matched them, both ways, and reads from both.\<close>
definition matched :: "nat \<Rightarrow> nat \<Rightarrow> server \<Rightarrow> bool" where
  "matched i j s \<longleftrightarrow> i < length (hs s) \<and> j < length (hs s) \<and> rconn (hs s ! i) = Some j \<and> rconn (hs s ! j) = Some i
     \<and> reading (hs s ! i) \<and> reading (hs s ! j)"

text \<open>No client can go on, and the server has nothing of theirs to read.\<close>
definition quiet :: "nat \<Rightarrow> nat \<Rightarrow> ('d, 'c, 'r) net \<Rightarrow> bool" where
  "quiet i j n \<longleftrightarrow> list_all (\<lambda>k. client_step (ends n k) = None \<and> (reading (hs (srv n) ! k) \<longrightarrow> uplink (ends n k) = [])) [i, j]"

lemma on_slot_carried:
  assumes "server_ok s" "matched i j s" "closes_last (prog a)" "closes_last (prog b)"
  shows "carried i j (on_slot i a b s) (a, b)"
proof -
  have "C_of s i = Some j" "C_of s j = Some i" using assms(2) by (simp_all add: matched_def at_core)
  moreover from this have "i \<noteq> j" by (rule paired(1)[OF assms(1)])
  ultimately show ?thesis using assms by (auto simp: carried_def matched_def on_slot_def end_ok_def same_def)
qed

lemma end_stuck:
  assumes "same a b c" "end_ok k s a b" "end_ok k' s b a" "client_step a = None" "reading (hs s ! k') \<longrightarrow> uplink b = []"
  shows "react c = None" "gone a \<or> c = client a"
proof -
  have "act (client a) = None" using assms(4) by (simp add: client_step_def)
  then have r: "react (client a) = None" by (simp add: act_none del: react.simps)
  show g: "gone a \<or> c = client a"
    using assms(1,3,5) by (auto simp: same_def end_ok_def split: if_splits)
  show "react c = None"
  proof (cases "gone a")
    case True
    then obtain ms where "silent (prog (client a))" "c = (client a)\<lparr>inbox := ms\<rparr>"
      using assms(1,2) by (auto simp: same_def end_ok_def)
    then show ?thesis using silent_act(2)[of "client a" ms] \<open>act (client a) = None\<close> by (simp del: react.simps)
  next
    case False
    then show ?thesis using g r by simp
  qed
qed

lemma quiet_stuck:
  assumes "carried i j n p" "quiet i j n"
  shows "stuck p" "gone (ends n i) \<or> fst p = client (ends n i)" "gone (ends n j) \<or> snd p = client (ends n j)"
proof -
  note c = assms(1)[unfolded carried_def] and q = assms(2)[unfolded quiet_def]
  have l: "react (fst p) = None" "gone (ends n i) \<or> fst p = client (ends n i)"
    using end_stuck[of "ends n i" "ends n j" "fst p" i "srv n" j] c q by simp_all
  have r: "react (snd p) = None" "gone (ends n j) \<or> snd p = client (ends n j)"
    using end_stuck[of "ends n j" "ends n i" "snd p" j "srv n" i] c q by simp_all
  show "stuck p" "gone (ends n i) \<or> fst p = client (ends n i)" "gone (ends n j) \<or> snd p = client (ends n j)"
    using l r by (simp_all add: stuck_def)
qed

text \<open>A net that is not quiet goes on, and as long as the pair has only so many steps, until it is.\<close>
definition waiting :: "nat \<Rightarrow> nat \<Rightarrow> ('d, 'c, 'r) net \<Rightarrow> nat" where
  "waiting i j n = length (uplink (ends n i)) + length (uplink (ends n j))"

lemma busy_step:
  assumes "carried i j n p" "\<not> quiet i j n"
  shows "\<exists>n' p'. net_step i j n n' \<and> carried i j n' p' \<and> (pair_step p p' \<or> p' = p \<and> waiting i j n' < waiting i j n)"
proof -
  from assms(2) obtain k k' where k: "(k, k') \<in> {(i, j), (j, i)}"
    "client_step (ends n k) \<noteq> None \<or> reading (hs (srv n) ! k) \<and> uplink (ends n k) \<noteq> []"
    unfolding quiet_def by auto
  show ?thesis
  proof (cases "client_step (ends n k)")
    case (Some a)
    have "k \<in> {i, j}" using k(1) by auto
    from n_client[OF this Some] client_step_carried[OF this Some assms(1)] show ?thesis by blast
  next
    case None
    then obtain m ms where u: "uplink (ends n k) = m # ms" and r: "reading (hs (srv n) ! k)"
      using k(2) by (auto simp: neq_Nil_conv)
    obtain e s' where rd: "on_read k (wire m) True (srv n) = (e, s')" by fastforce
    have "i \<noteq> j" using paired(1)[of "srv n" i j] assms(1) by (simp add: carried_def)
    then have "waiting i j (n\<lparr>ends := arrives e ((ends n)(k := (ends n k)\<lparr>uplink := ms\<rparr>)), srv := s'\<rparr>) < waiting i j n"
      using k(1) u by (auto simp: waiting_def arrives_def)
    with n_read[OF k(1) u r rd] read_step_carried[OF k(1) u rd _ assms(1)] show ?thesis by blast
  qed
qed

lemma quiet_reached:
  assumes "\<And>m p'. (pair_step ^^ m) p p' \<Longrightarrow> m \<le> b" "carried i j n p"
  shows "\<exists>n'. (net_step i j)\<^sup>*\<^sup>* n n' \<and> quiet i j n'"
  using assms
proof (induction "(b, waiting i j n)" arbitrary: b n p rule: wf_induct_rule[OF wf_lex_prod[OF wf_less wf_less]])
  case 1
  show ?case
  proof (cases "quiet i j n")
    case False
    then obtain n' p' where st: "net_step i j n n'" "carried i j n' p'"
      "pair_step p p' \<or> p' = p \<and> waiting i j n' < waiting i j n" using busy_step[OF 1(3)] by blast
    have "\<exists>n''. (net_step i j)\<^sup>*\<^sup>* n' n'' \<and> quiet i j n''"
    proof (cases "pair_step p p'")
      case True
      have "(pair_step ^^ 1) p p'" using True by (simp add: eq_OO)
      then have b: "1 \<le> b" using 1(2) by blast
      have "m \<le> b - 1" if "(pair_step ^^ m) p' p''" for m p''
        using 1(2)[OF relpowp_Suc_I2[OF True that]] by simp
      then show ?thesis using 1(1)[of "b - 1" n' p'] st(2) b by simp
    next
      case False
      then show ?thesis using 1(1)[of b n' p] st(2,3) 1(2) by simp
    qed
    then show ?thesis using st(1) by (meson converse_rtranclp_into_rtranclp)
  qed blast
qed

text \<open>
  What is decided for two clients by \<open>Pairing\<close> is decided for them through the server: a quiet net is
  reached, and every quiet net holds the two clients of a stuck pair, up to what would still wait for
  one that closed its connection.
\<close>
lemma through_server:
  assumes "rrun no_slots tr s" "matched i j s" "closes_last (prog a)" "closes_last (prog b)"
    "(net_step i j)\<^sup>*\<^sup>* (on_slot i a b s) n"
    "\<forall>m p. (pair_step ^^ m) (a, b) p \<longrightarrow> m \<le> bound"
  shows "\<exists>n'. (net_step i j)\<^sup>*\<^sup>* n n' \<and> quiet i j n'"
    "quiet i j n \<Longrightarrow> \<exists>m p. (pair_step ^^ m) (a, b) p \<and> stuck p
       \<and> same (ends n i) (ends n j) (fst p) \<and> same (ends n j) (ends n i) (snd p)
       \<and> (silent (prog (fst p)) \<or> fst p = client (ends n i)) \<and> (silent (prog (snd p)) \<or> snd p = client (ends n j))"
proof -
  have "carried i j (on_slot i a b s) (a, b)"
    using assms(3,4) by (rule on_slot_carried[OF rrun_ok[OF assms(1) refl] assms(2)])
  from net_run_carried[OF assms(5) this] obtain m p where p: "(pair_step ^^ m) (a, b) p" "carried i j n p"
    by blast
  have few: "m' \<le> bound" if "(pair_step ^^ m') p p'" for m' p'
  proof -
    have "(pair_step ^^ (m + m')) (a, b) p'" unfolding relpowp_add by (rule relcomppI) (rule p(1), rule that)
    with assms(6) have "m + m' \<le> bound" by blast
    then show ?thesis by simp
  qed
  show "\<exists>n'. (net_step i j)\<^sup>*\<^sup>* n n' \<and> quiet i j n'"
    by (rule quiet_reached[of p bound, OF _ p(2)]) (rule few)
  have ends: "same (ends n i) (ends n j) (fst p)" "same (ends n j) (ends n i) (snd p)"
    "gone (ends n i) \<longrightarrow> silent (prog (client (ends n i)))" "gone (ends n j) \<longrightarrow> silent (prog (client (ends n j)))"
    using p(2) by (simp_all add: carried_def end_ok_def)
  have "gone (ends n i) \<longrightarrow> silent (prog (fst p))" "gone (ends n j) \<longrightarrow> silent (prog (snd p))"
    using ends by (auto simp: same_def split: if_splits)
  then show "\<exists>m p. (pair_step ^^ m) (a, b) p \<and> stuck p
       \<and> same (ends n i) (ends n j) (fst p) \<and> same (ends n j) (ends n i) (snd p)
       \<and> (silent (prog (fst p)) \<or> fst p = client (ends n i)) \<and> (silent (prog (snd p)) \<or> snd p = client (ends n j))"
    if q: "quiet i j n"
    using p(1) ends(1,2) quiet_stuck[OF p(2) q] by blast
qed

lemma not_silent_await: "\<not> silent await_open"
  by (simp add: await_open_def) (rule exI[of _ After30s], simp)

lemma same_fields:
  "same a b c \<Longrightarrow> prog c = prog (client a) \<and> localDesc c = localDesc (client a) \<and> remoteDesc c = remoteDesc (client a)
     \<and> candKey c = candKey (client a)"
  by (auto simp: same_def deliver_def split: if_splits)

section \<open>Properties\<close>

text \<open>
  C4. The handshake works through the server: two clients the server has matched, whatever else it does
  and for however many other clients, get to the point where nothing of theirs is left to do, and
  at every such point they agree on the key and on both descriptions when their keys are the same,
  and have both returned \<open>ErrBadKey\<close> with no description accepted when they are not.
\<close>
theorem handshake_through_server:
  assumes "lib_works L" "url_Parse L sigserv = Inr u"
    "init_Unmarshal L io = Inr inito" "init_Unmarshal L ij = Inr initj"
    "pake_keys L so sj po pj = Some (ko, kj)" "length no = 24" "length nj = 24"
    "rrun no_slots tr s" "matched i j s"
    "(net_step i j)\<^sup>*\<^sup>* (on_slot i (new_side L po sigserv [Inr io] so no offer)
       (join_side L slot pj sigserv [Inr ij] sj nj answer) s) n"
  shows "(\<exists>n'. (net_step i j)\<^sup>*\<^sup>* n n' \<and> quiet i j n')
     \<and> (quiet i j n \<longrightarrow> (if ko = kj then agreed ko offer answer else both_bad_key)
          (client (ends n i), client (ends n j)))"
proof -
  let ?a = "new_side L po sigserv [Inr io] so no offer" and ?b = "join_side L slot pj sigserv [Inr ij] sj nj answer"
  have cl: "closes_last (prog ?a)" "closes_last (prog ?b)"
    by (simp_all add: new_side_def join_side_def closes_last_New closes_last_Join)
  have few: "\<forall>m p. (pair_step ^^ m) (?a, ?b) p \<longrightarrow> m \<le> 31"
    using all_runs_end[OF assms(1-7)] by blast
  note net = through_server[OF assms(8,9) cl assms(10) few]
  have "(if ko = kj then agreed ko offer answer else both_bad_key) (client (ends n i), client (ends n j))"
    if q: "quiet i j n"
  proof -
    from net(2)[OF q] obtain m p where p: "(pair_step ^^ m) (?a, ?b) p" "stuck p"
      "same (ends n i) (ends n j) (fst p)" "same (ends n j) (ends n i) (snd p)"
      "silent (prog (fst p)) \<or> fst p = client (ends n i)" "silent (prog (snd p)) \<or> snd p = client (ends n j)" by blast
    show ?thesis
    proof (cases "ko = kj")
      case True
      have ag: "agreed ko offer answer p"
        using same_keys_agree[OF assms(1-4) _ assms(6,7) p(1,2)] assms(5) True by simp
      then have "p = (client (ends n i), client (ends n j))"
        using p(5,6) by (auto simp: agreed_def prod_eq_iff not_silent_await)
      then show ?thesis using ag True by simp
    next
      case False
      have "both_bad_key p" by (rule other_keys_fail[OF assms(1-5) False assms(6) p(1,2)])
      then show ?thesis using same_fields[OF p(3)] same_fields[OF p(4)] False by (simp add: both_bad_key_def)
    qed
  qed
  then show ?thesis using net(1) by blast
qed

lemma handshake_through_server_witness:
  "\<exists>s n k. (net_step 0 1)\<^sup>*\<^sup>* (on_slot 0 (new_side plain_lib ''ab'' ''//s'' [Inr ''5''] 0 (replicate 24 1) [1, 2])
       (join_side plain_lib ''5'' ''ab'' ''//s'' [Inr ''''] 0 (replicate 24 2) [3]) s) n \<and> quiet 0 1 n
     \<and> agreed k [1, 2] [3] (client (ends n 0), client (ends n 1)) \<and> matched 0 1 s"
proof -
  let ?k = "97 # 98 # replicate 30 0 :: byte list"
  have n: "length (replicate 24 (x :: byte)) = 24" for x by simp
  have "case rplay (take 8 meeting) [] no_slots of None \<Rightarrow> False | Some (tr, s) \<Rightarrow> matched 0 1 s" by code_simp
  from rplay_witness[OF this] obtain tr s where s: "rrun no_slots tr s" "matched 0 1 s" by auto
  let ?n = "on_slot 0 (new_side plain_lib ''ab'' ''//s'' [Inr ''5''] 0 (replicate 24 1) [1, 2])
       (join_side plain_lib ''5'' ''ab'' ''//s'' [Inr ''''] 0 (replicate 24 2) [3]) s"
  note works = handshake_through_server[OF plain_lib_works plain_calls(4,1,1) plain_keys(1) n n s, 
    where slot = "''5''" and offer = "[1, 2]" and answer = "[3]"]
  obtain n' where n': "(net_step 0 1)\<^sup>*\<^sup>* ?n n'" "quiet 0 1 n'" using works[OF rtranclp.rtrancl_refl] by blast
  have "agreed ?k [1, 2] [3] (client (ends n' 0), client (ends n' 1))" using works[OF n'(1)] n'(2) by simp
  then show ?thesis using n' s(2) by blast
qed

end
