(* ===== verification/Commands.thy ===== *)
theory Commands
  imports Client
begin

text \<open>
  The command \<open>ww\<close>: the dispatch of \<open>src/cmd/ww/main.go\<close>, the flags of its four subcommands in
  \<open>file.go\<close>, \<open>pipe.go\<close> and \<open>server.go\<close>, the configuration the server starts with, and the picture of
  the code that \<open>printcode\<close> prints. What a subcommand then does is modelled elsewhere; messages and
  usage texts are left out.
\<close>

section \<open>Subcommands\<close>

text \<open>
  What a subcommand does once its arguments are read: it ends the program with a status, or with a
  message and status 1, or it runs.
\<close>
datatype listener =
    Debug string
  | Https string bool
  | Http string bool

datatype command =
    Exit nat
  | Fatal string
  | SendFiles string int "string list"
  | ReceiveFiles string int string
  | PipeStreams string int
  | ListenOn "ICEServer list" string string "listener list"

definition send_flags :: flags where
  "send_flags = [(''length'', IntV 2), (''code'', StringV '''')]"

definition receive_flags :: flags where
  "receive_flags = [(''length'', IntV 2), (''dir'', StringV ''.'')]"

definition pipe_flags :: flags where
  "pipe_flags = [(''length'', IntV 2)]"

definition send_args :: "string list \<Rightarrow> command" where
  "send_args args = (case Parse send_flags args of
     Inl n \<Rightarrow> Exit n
   | Inr (vs, files) \<Rightarrow>
       if length files < 1 then Exit 2 else SendFiles (string_flag vs ''code'') (int_of vs ''length'') files)"

text \<open>\<open>set.Arg(0)\<close> is the empty string when there is none.\<close>
definition arg0 :: "string list \<Rightarrow> string" where
  "arg0 args = (case args of [] \<Rightarrow> '''' | s # _ \<Rightarrow> s)"

definition receive_args :: "string list \<Rightarrow> command" where
  "receive_args args = (case Parse receive_flags args of
     Inl n \<Rightarrow> Exit n
   | Inr (vs, rest) \<Rightarrow>
       if 1 < length rest then Exit 2 else ReceiveFiles (arg0 rest) (int_of vs ''length'') (string_flag vs ''dir''))"

definition pipe_args :: "string list \<Rightarrow> command" where
  "pipe_args args = (case Parse pipe_flags args of
     Inl n \<Rightarrow> Exit n
   | Inr (vs, rest) \<Rightarrow> if 1 < length rest then Exit 2 else PipeStreams (arg0 rest) (int_of vs ''length''))"

section \<open>The server\<close>

text \<open>\<open>home\<close> is the environment's \<open>HOME\<close>.\<close>
definition server_flags :: "string \<Rightarrow> flags" where
  "server_flags home =
     [(''http'', StringV '':http''), (''https'', StringV '':https''), (''debug'', StringV ''''),
      (''hosts'', StringV ''''), (''secrets'', StringV (home @ ''/keys'')), (''cert'', StringV ''''),
      (''key'', StringV ''''), (''ui'', StringV ''./web''), (''stun'', StringV ''stun:relay.webwormhole.com''),
      (''turn'', StringV ''''), (''turn-secret'', StringV '''')]"

text \<open>
  The listeners it starts. The flag of \<open>Https\<close> tells that certificates come from \<open>autocert\<close>; that of
  \<open>Http\<close> that it only redirects to HTTPS.
\<close>
definition listeners :: "flags \<Rightarrow> listener list" where
  "listeners vs =
     (let debugaddr = string_flag vs ''debug''; httpsaddr = string_flag vs ''https'';
          httpaddr = string_flag vs ''http''
      in (if debugaddr \<noteq> '''' then [Debug debugaddr] else [])
         @ (if httpsaddr \<noteq> '''' then [Https httpsaddr (string_flag vs ''cert'' = '''' \<and> string_flag vs ''key'' = '''')] else [])
         @ (if httpaddr \<noteq> '''' then [Http httpaddr (httpsaddr \<noteq> '''')] else []))"

definition server_args :: "string \<Rightarrow> string list \<Rightarrow> command" where
  "server_args home args = (case Parse (server_flags home) args of
     Inl n \<Rightarrow> Exit n
   | Inr (vs, _) \<Rightarrow>
       (case server_check (string_flag vs ''cert'') (string_flag vs ''key'') (string_flag vs ''turn'') (string_flag vs ''turn-secret'') of
          Some msg \<Rightarrow> Fatal msg
        | None \<Rightarrow>
            ListenOn (stunServers (string_flag vs ''stun'')) (string_flag vs ''turn'') (string_flag vs ''turn-secret'')
              (listeners vs)))"

section \<open>The command\<close>

definition subcmds :: "string \<Rightarrow> (string \<times> (string list \<Rightarrow> command)) list" where
  "subcmds home =
     [(''send'', send_args), (''receive'', receive_args), (''pipe'', pipe_args), (''server'', server_args home)]"

definition env_of :: "(string \<rightharpoonup> string) \<Rightarrow> string \<Rightarrow> string" where
  "env_of env name = (case env name of Some v \<Rightarrow> v | None \<Rightarrow> '''')"

text \<open>The arguments after the program's name give \<open>verbose\<close>, \<open>sigserv\<close> and what to do.\<close>
definition main :: "(string \<rightharpoonup> string) \<Rightarrow> string list \<Rightarrow> (bool \<times> string) option \<times> command" where
  "main env args =
     (case LookupEnvOrBool env ''WW_VERBOSE'' False of
        None \<Rightarrow> (None, Exit 1)
      | Some verb \<Rightarrow>
          (case Parse [(''verbose'', BoolV verb),
                       (''signal'', StringV (LookupEnvOrString env ''WW_SIGSERV'' ''https://webwormhole.com''))] args of
             Inl n \<Rightarrow> (None, Exit n)
           | Inr (vs, rest) \<Rightarrow>
               (case rest of
                  [] \<Rightarrow> (None, Exit 2)
                | cmd # cmd_args \<Rightarrow>
                    (case map_of (subcmds (env_of env ''HOME'')) cmd of
                       None \<Rightarrow> (None, Exit 2)
                     | Some run \<Rightarrow> (Some (bool_of vs ''verbose'', string_flag vs ''signal''), run cmd_args)))))"

text \<open>The connection a subcommand makes first.\<close>
definition connection :: "('d, 'c) lib \<Rightarrow> string \<Rightarrow> command \<Rightarrow> ('d, 'c, string + bool) proc option" where
  "connection L sigserv c = (case c of
     SendFiles code len files \<Rightarrow> Some (newConn L sigserv code len)
   | ReceiveFiles code len dir \<Rightarrow> Some (newConn L sigserv code len)
   | PipeStreams code len \<Rightarrow> Some (newConn L sigserv code len)
   | _ \<Rightarrow> None)"

section \<open>The picture of the code\<close>

text \<open>What a terminal shows of two modules above each other, lit where the code is white.\<close>
datatype block = BothDark | LowerLit | UpperLit | BothLit

definition module_pair :: "bool \<Rightarrow> bool \<Rightarrow> block" where
  "module_pair upper lower =
     (if upper \<and> lower then BothDark else if upper then LowerLit else if lower then UpperLit else BothLit)"

text \<open>
  The lines printed for a code of \<open>sz\<close> modules each way: two lines of white above and below, four
  columns on each side, and one line for two rows of modules.
\<close>
definition code_picture :: "nat \<Rightarrow> (nat \<Rightarrow> nat \<Rightarrow> bool) \<Rightarrow> block list list" where
  "code_picture sz black =
     (let border = replicate sz BothLit @ replicate 8 BothLit
      in [border, border]
         @ map (\<lambda>k. replicate 4 BothLit
               @ map (\<lambda>x. module_pair (black x (2 * k)) (black x (2 * k + 1))) [0..<sz]
               @ replicate 4 BothLit) [0..<(sz + 1) div 2]
         @ [border, border])"

datatype printed = TextLine string | BlockLine "block list"

text \<open>
  \<open>link\<close> parses the address of the signalling server and gives it with the code as its fragment; \<open>qr\<close>
  is the encoder at its lowest level of correction, their number and the dark modules.
\<close>
definition printcode :: "(string \<Rightarrow> string \<Rightarrow> string option) \<Rightarrow> (string \<Rightarrow> (nat \<times> (nat \<Rightarrow> nat \<Rightarrow> bool)) option)
    \<Rightarrow> string \<Rightarrow> string \<Rightarrow> printed list" where
  "printcode link qr sigserv code =
     TextLine code #
     (case link sigserv code of
        None \<Rightarrow> []
      | Some u \<Rightarrow>
          (case qr u of
             None \<Rightarrow> []
           | Some (sz, black) \<Rightarrow> map BlockLine (code_picture sz black) @ [TextLine u]))"

text \<open>What a scanner sees at column \<open>x\<close> and row \<open>y\<close> of modules of the picture.\<close>
definition lit :: "block list list \<Rightarrow> nat \<Rightarrow> nat \<Rightarrow> bool" where
  "lit lines x y =
     (case lines ! (y div 2) ! x of
        BothDark \<Rightarrow> False | LowerLit \<Rightarrow> y mod 2 = 1 | UpperLit \<Rightarrow> y mod 2 = 0 | BothLit \<Rightarrow> True)"

section \<open>Lemmas\<close>

lemma code_picture_size:
  "length (code_picture sz black) = 4 + (sz + 1) div 2" "line \<in> set (code_picture sz black) \<Longrightarrow> length line = sz + 8"
  by (auto simp: code_picture_def Let_def)

lemma picture_border:
  "x < sz + 8 \<Longrightarrow> (replicate sz BothLit @ replicate 8 BothLit) ! x = BothLit"
  by (simp flip: replicate_add)

lemma picture_line:
  assumes "x < sz + 8"
  shows "(replicate 4 BothLit @ map f [0..<sz] @ replicate 4 BothLit) ! x
     = (if 4 \<le> x \<and> x < sz + 4 then f (x - 4) else BothLit)"
  using assms by (auto simp: nth_append)

lemma picture_cell:
  assumes "x < sz + 8" "k < 4 + (sz + 1) div 2"
  shows "code_picture sz black ! k ! x =
    (if 2 \<le> k \<and> k < 2 + (sz + 1) div 2 \<and> 4 \<le> x \<and> x < sz + 4
     then module_pair (black (x - 4) (2 * (k - 2))) (black (x - 4) (2 * (k - 2) + 1)) else BothLit)"
proof -
  let ?b = "replicate sz BothLit @ replicate 8 BothLit"
  let ?l = "\<lambda>k. replicate 4 BothLit @ map (\<lambda>x. module_pair (black x (2 * k)) (black x (2 * k + 1))) [0..<sz] @ replicate 4 BothLit"
  have e: "code_picture sz black = [?b, ?b] @ map ?l [0..<(sz + 1) div 2] @ [?b, ?b]"
    by (simp add: code_picture_def Let_def)
  consider "k < 2" | "2 \<le> k" "k < 2 + (sz + 1) div 2" | "2 + (sz + 1) div 2 \<le> k" by linarith
  then show ?thesis
  proof cases
    case 1
    then have "code_picture sz black ! k = ?b" unfolding e by (cases k) (auto simp: less_Suc_eq)
    then show ?thesis using 1 picture_border[OF assms(1)] by simp
  next
    case 2
    then have "code_picture sz black ! k = ?l (k - 2)"
      unfolding e nth_append by (simp add: numeral_2_eq_2)
    then show ?thesis using 2 picture_line[OF assms(1)] by simp
  next
    case 3
    then have "k - 2 - (sz + 1) div 2 = 0 \<or> k - 2 - (sz + 1) div 2 = 1" using assms(2) by auto
    then have "code_picture sz black ! k = ?b" using 3 unfolding e by (auto simp: nth_append)
    then show ?thesis using 3 picture_border[OF assms(1)] by simp
  qed
qed

section \<open>Properties\<close>

text \<open>
  C39. The picture \<open>printcode\<close> prints can be scanned: its lines are equally long, and it shows every
  module of the code at its place, dark for dark, with white all around, at least four modules wide.
\<close>
theorem picture_shows_code:
  assumes "\<And>x y. black x y \<Longrightarrow> x < sz \<and> y < sz" "x < sz + 8" "y < 2 * length (code_picture sz black)"
  shows "lit (code_picture sz black) x y = (\<not> (4 \<le> x \<and> 4 \<le> y \<and> black (x - 4) (y - 4)))
    \<and> (\<forall>line \<in> set (code_picture sz black). length line = sz + 8) \<and> sz + 8 \<le> 2 * length (code_picture sz black)"
proof -
  have k: "y div 2 < 4 + (sz + 1) div 2" using assms(3) code_picture_size(1) by simp
  have half: "2 * (y div 2 - 2) = (if even y then y - 4 else y - 5)"
    by presburger
  have "lit (code_picture sz black) x y = (\<not> (4 \<le> x \<and> 4 \<le> y \<and> black (x - 4) (y - 4)))"
  proof (cases "4 \<le> x \<and> x < sz + 4 \<and> 4 \<le> y \<and> y div 2 < 2 + (sz + 1) div 2")
    case True
    then have "2 \<le> y div 2" using div_le_mono[of 4 y 2] by simp
    then have c: "code_picture sz black ! (y div 2) ! x =
        module_pair (black (x - 4) (2 * (y div 2 - 2))) (black (x - 4) (2 * (y div 2 - 2) + 1))"
      using True picture_cell[OF assms(2) k] by simp
    show ?thesis
    proof (cases "even y")
      case True
      then show ?thesis using c half \<open>4 \<le> x \<and> _\<close> by (auto simp: lit_def module_pair_def)
    next
      case False
      then have "y - 5 + 1 = y - 4" using \<open>4 \<le> x \<and> _\<close> by presburger
      then show ?thesis using c half False \<open>4 \<le> x \<and> _\<close> by (auto simp: lit_def module_pair_def odd_iff_mod_2_eq_one)
    qed
  next
    case False
    have "\<not> (4 \<le> x \<and> 4 \<le> y \<and> black (x - 4) (y - 4))"
    proof
      assume b: "4 \<le> x \<and> 4 \<le> y \<and> black (x - 4) (y - 4)"
      then have "x - 4 < sz \<and> y - 4 < sz" using assms(1) by blast
      then show False using b False by auto
    qed
    moreover have "code_picture sz black ! (y div 2) ! x = BothLit"
      using False picture_cell[OF assms(2) k] by auto
    ultimately show ?thesis by (simp add: lit_def)
  qed
  moreover have "sz + 8 \<le> 2 * length (code_picture sz black)" by (simp add: code_picture_size(1))
  ultimately show ?thesis using code_picture_size(2) by blast
qed

lemma picture_shows_code_witness:
  "lit (code_picture 1 (\<lambda>x y. x = 0 \<and> y = 0)) 4 4 = False \<and> length (code_picture 1 (\<lambda>x y. x = 0 \<and> y = 0)) = 5"
  using picture_shows_code[of "\<lambda>x y. x = 0 \<and> y = 0" 1 4 4] by (simp add: code_picture_size)

lemma flags_named:
  "list_all (flag_name \<circ> fst) [(''length'', x), (''code'', c)]"
  by (simp add: flag_name_def)

lemma send_settled:
  assumes "- (2 ^ 63) \<le> len" "len < 2 ^ 63"
  shows "settle send_flags [(''length'', FormatInt 10 len), (''code'', code)]
     = Some [(''length'', IntV len), (''code'', StringV code)]"
  using assms by (simp add: send_flags_def fset_def ParseInt0_FormatInt)

lemma main_runs:
  assumes "LookupEnvOrBool env ''WW_VERBOSE'' False = Some verb" "map_of (subcmds (env_of env ''HOME'')) cmd = Some run"
    "plain_args [cmd]"
  shows "main env (cmd # args) = (Some (verb, LookupEnvOrString env ''WW_SIGSERV'' ''https://webwormhole.com''), run args)"
proof -
  have "plain_args (cmd # args)" using assms(3) by (simp add: plain_args_def)
  then show ?thesis using assms(1,2)
    by (simp add: main_def Parse_plain bool_of_def string_flag_def)
qed

text \<open>
  C22. What is typed is what runs: \<open>ww send\<close> with any length, any code and any files, their names
  starting with a dash or not, sends exactly these files over the connection for that code and length;
  and with no file at all it ends with the usage.
\<close>
theorem send_as_typed:
  assumes "LookupEnvOrBool env ''WW_VERBOSE'' False = Some verb" "- (2 ^ 63) \<le> len" "len < 2 ^ 63"
  shows "main env (''send'' # map flag_arg [(''length'', FormatInt 10 len), (''code'', code)] @ ''--'' # files) =
    (Some (verb, LookupEnvOrString env ''WW_SIGSERV'' ''https://webwormhole.com''),
     if files = [] then Exit 2 else SendFiles code len files)
    \<and> (plain_args files \<longrightarrow>
        main env (''send'' # map flag_arg [(''length'', FormatInt 10 len), (''code'', code)] @ files) =
        main env (''send'' # map flag_arg [(''length'', FormatInt 10 len), (''code'', code)] @ ''--'' # files))"
proof -
  have run: "map_of (subcmds h) ''send'' = Some send_args" for h by (simp add: subcmds_def)
  have "plain_args [''send'']" by (simp add: plain_args_def)
  note m = main_runs[OF assms(1) run this]
  let ?vs = "[(''length'', IntV len), (''code'', StringV code)]"
  have p: "Parse send_flags (map flag_arg [(''length'', FormatInt 10 len), (''code'', code)] @ rest) = Parse ?vs rest" for rest
    by (rule Parse_settle[OF send_settled[OF assms(2,3)] flags_named])
  have "send_args (map flag_arg [(''length'', FormatInt 10 len), (''code'', code)] @ ''--'' # files) =
      (if files = [] then Exit 2 else SendFiles code len files)"
    unfolding send_args_def p Parse_dashes
    by (simp add: string_flag_def int_of_def Suc_le_eq)
  moreover have "send_args (map flag_arg [(''length'', FormatInt 10 len), (''code'', code)] @ files) =
      send_args (map flag_arg [(''length'', FormatInt 10 len), (''code'', code)] @ ''--'' # files)" if "plain_args files"
    unfolding send_args_def p Parse_dashes Parse_plain[OF that] ..
  ultimately show ?thesis unfolding m by simp
qed

lemma send_as_typed_witness:
  "main (\<lambda>_. None) [''send'', ''-length=4'', ''-code='', ''--'', ''-f''] =
    (Some (False, ''https://webwormhole.com''), SendFiles '''' 4 [''-f''])"
proof -
  have "FormatInt 10 4 = ''4''"
    by (simp add: FormatInt_def) (subst nat_digits.simps, simp add: digit_char_def char_of_def bit_numeral_rec bit_0)
  then show ?thesis
    using send_as_typed[of "\<lambda>_. None" False 4 "''''" "[''-f'']"]
    by (simp add: LookupEnvOrBool_def LookupEnvOrString_def flag_arg_def)
qed

text \<open>A negative \<open>-length\<close> makes the program panic: no one checks it before \<open>make\<close>.\<close>
theorem negative_length_panics:
  assumes "LookupEnvOrBool env ''WW_VERBOSE'' False = Some verb" "- (2 ^ 63) \<le> len" "len < 0"
  shows "\<exists>c. snd (main env (''pipe'' # map flag_arg [(''length'', FormatInt 10 len)])) = c
     \<and> connection L sigserv c = Some Panic"
proof -
  have run: "map_of (subcmds h) ''pipe'' = Some pipe_args" for h by (simp add: subcmds_def)
  have "plain_args [''pipe'']" by (simp add: plain_args_def)
  note m = main_runs[OF assms(1) run this]
  have "settle pipe_flags [(''length'', FormatInt 10 len)] = Some [(''length'', IntV len)]"
    using assms(2,3) by (simp add: pipe_flags_def fset_def ParseInt0_FormatInt)
  from Parse_settle[OF this, of "[]"] have "Parse pipe_flags (map flag_arg [(''length'', FormatInt 10 len)]) = Inr ([(''length'', IntV len)], [])"
    by (simp add: flag_name_def Parse_plain plain_args_def)
  then have "pipe_args (map flag_arg [(''length'', FormatInt 10 len)]) = PipeStreams '''' len"
    by (simp add: pipe_args_def arg0_def int_of_def)
  then show ?thesis using assms(3) unfolding m by (simp add: connection_def newConn_def)
qed

text \<open>With \<open>-length=0\<close> the code that is printed is empty: the peer has nothing to type.\<close>
theorem zero_length_no_code:
  assumes "Atoi s = Some slot"
  shows "printed_code [] s = Some ''''"
  using assms en_varint.Enc_Nil by (simp add: printed_code_def wl_Encode_eq)

end
