(* ===== verification/Rendezvous.thy ===== *)
theory Rendezvous
  imports Network Commands
begin

text \<open>
  Two people and the server: one runs a command without a code and reads the code it prints to the other,
  who runs a command with it. Joins the codes, the command line, the handshake and the server: what
  \<open>newConn\<close> does around \<open>New\<close> and \<open>Join\<close> leaves the runs of the two as they are.
\<close>

section \<open>A program that goes on\<close>

text \<open>A client whose program does \<open>f\<close> with what it returns.\<close>
definition wrap :: "('r \<Rightarrow> ('d, 'c, 's) proc) \<Rightarrow> ('d, 'c, 'r) side \<Rightarrow> ('d, 'c, 's) side" where
  "wrap f c = \<lparr>prog = andthen (prog c) f, inbox = inbox c, seed = seed c, nonces = nonces c,
     description = description c, localDesc = localDesc c, remoteDesc = remoteDesc c, candKey = candKey c\<rparr>"

lemma wrap_simps [simp]:
  "prog (wrap f c) = andthen (prog c) f" "inbox (wrap f c) = inbox c" "localDesc (wrap f c) = localDesc c"
  "remoteDesc (wrap f c) = remoteDesc c" "candKey (wrap f c) = candKey c"
  "deliver ms (wrap f c) = wrap f (deliver ms c)"
  by (simp_all add: wrap_def deliver_def)

lemma react_wrap: "react c = Some (c', out) \<Longrightarrow> react (wrap f c) = Some (wrap f c', out)"
  by (auto simp: wrap_def split: proc.splits list.splits)

lemma schedule_wrap:
  "schedule bs (a, b) = Some (a', b') \<Longrightarrow> schedule bs (wrap f a, wrap g b) = Some (wrap f a', wrap g b')"
proof (induction bs arbitrary: a b)
  case (Cons x bs)
  show ?case
  proof (cases x)
    case True
    with Cons.prems obtain c out where r: "react a = Some (c, out)" "schedule bs (c, deliver out b) = Some (a', b')"
      by (auto simp: left_step_def simp del: react.simps split: option.splits)
    then show ?thesis using True react_wrap[OF r(1), of f] Cons.IH[OF r(2)]
      by (simp add: left_step_def del: react.simps)
  next
    case False
    with Cons.prems obtain c out where r: "react b = Some (c, out)" "schedule bs (deliver out a, c) = Some (a', b')"
      by (auto simp: right_step_def simp del: react.simps split: option.splits)
    then show ?thesis using False react_wrap[OF r(1), of g] Cons.IH[OF r(2)]
      by (simp add: right_step_def del: react.simps)
  qed
qed simp

lemma silent_andthen: "silent p \<Longrightarrow> (\<And>r. silent (f r)) \<Longrightarrow> silent (andthen p f)"
  by (induction p) simp_all

lemma closes_last_andthen: "closes_last p \<Longrightarrow> (\<And>r. silent (f r)) \<Longrightarrow> closes_last (andthen p f)"
  by (induction p) (simp_all add: silent_andthen silent_closes_last)

lemma silent_connected: "silent (connected r)"
  by (simp add: connected_def IsRelay_def split: sum.split option.split)

section \<open>Two commands\<close>

text \<open>The client of a command, with the randomness for its password and its nonce.\<close>
definition command_side :: "('d, 'c, 'r) proc \<Rightarrow> string \<Rightarrow> nat \<Rightarrow> byte list list \<Rightarrow> 'd \<Rightarrow> ('d, 'c, 'r) side" where
  "command_side p initmsg sd rs desc =
     \<lparr>prog = p, inbox = [Inr initmsg], seed = sd, nonces = rs, description = desc,
      localDesc = None, remoteDesc = None, candKey = None\<rparr>"

lemma owner_starts:
  assumes "0 \<le> len"
  shows "left_step (command_side (newConn L sigserv '''' len) io so [pass, no] offer, b)
     = Some (wrap connected (new_side L (string_of pass) sigserv [Inr io] so no offer), b)"
  using assms by (simp add: left_step_def command_side_def newConn_def wrap_def new_side_def deliver_def)

lemma joiner_is:
  assumes "wl_Decode typed = Some (slot, pj)" "typed \<noteq> ''''"
  shows "command_side (newConn L sigserv typed len) ij sj [nj] answer
     = wrap connected (join_side L (Itoa slot) (string_of pj) sigserv [Inr ij] sj nj answer)"
  using assms by (simp add: command_side_def newConn_def wrap_def join_side_def)

lemma newConn_closes_last: "closes_last (newConn L sigserv code len)"
  by (auto simp: newConn_def split: option.split sum.split
      intro!: closes_last_andthen silent_connected closes_last_New closes_last_Join)

text \<open>One schedule for the two commands, from one for \<open>New\<close> and \<open>Join\<close>.\<close>
lemma commands_schedule:
  assumes "0 \<le> len" "wl_Decode typed = Some (slot, pj)" "typed \<noteq> ''''"
    "schedule bs (new_side L (string_of pass) sigserv [Inr io] so no offer,
       join_side L (Itoa slot) (string_of pj) sigserv [Inr ij] sj nj answer) = Some q"
  shows "schedule (True # bs) (command_side (newConn L sigserv '''' len) io so [pass, no] offer,
      command_side (newConn L sigserv typed len') ij sj [nj] answer) = Some (wrap connected (fst q), wrap connected (snd q))"
  using owner_starts[OF assms(1), of L sigserv io so pass no offer] assms(4)
  by (cases q) (simp add: joiner_is[OF assms(2,3)] schedule_wrap)

lemma wrapped_stuck:
  "agreed k offer answer q \<Longrightarrow> stuck (wrap connected (fst q), wrap connected (snd q))"
  "both_bad_key q \<Longrightarrow> stuck (wrap connected (fst q), wrap connected (snd q))"
  by (simp_all add: agreed_def both_bad_key_def stuck_def await_open_def connected_def)

lemma not_silent_connecting: "\<not> silent (andthen await_open connected)"
  by (simp add: await_open_def) (rule exI[of _ After30s], simp)

lemma commands_decided:
  assumes "lib_works L" "url_Parse L sigserv = Inr u"
    "init_Unmarshal L io = Inr inito" "init_Unmarshal L ij = Inr initj" "0 \<le> len"
    "wl_Decode typed = Some (slot, pj)" "typed \<noteq> ''''"
    "pake_keys L so sj (string_of pass) (string_of pj) = Some (ko, kj)" "length no = 24" "length nj = 24"
  shows "\<exists>bs q. schedule bs (command_side (newConn L sigserv '''' len) io so [pass, no] offer,
      command_side (newConn L sigserv typed len') ij sj [nj] answer) = Some (wrap connected (fst q), wrap connected (snd q))
    \<and> stuck (wrap connected (fst q), wrap connected (snd q))
    \<and> (if ko = kj then agreed ko offer answer else both_bad_key) q"
proof -
  let ?a = "new_side L (string_of pass) sigserv [Inr io] so no offer"
    and ?b = "join_side L (Itoa slot) (string_of pj) sigserv [Inr ij] sj nj answer"
  obtain n s' where "(pair_step ^^ n) (?a, ?b) s'" "stuck s'"
    using all_runs_end[OF assms(1-4,8,9,10), where m = 0] by (metis relpowp_0_I)
  then obtain bs where bs: "schedule bs (?a, ?b) = Some s'" using run_schedule by blast
  have st: "stuck s'" "(pair_step ^^ length bs) (?a, ?b) s'" using \<open>stuck s'\<close> schedule_run[OF bs] by simp_all
  have "(if ko = kj then agreed ko offer answer else both_bad_key) s'"
    using same_keys_agree[OF assms(1-4) _ assms(9,10) st(2,1)] other_keys_fail[OF assms(1-4,8) _ assms(9) st(2,1)] assms(8)
    by (cases "ko = kj") auto
  moreover from this have "stuck (wrap connected (fst s'), wrap connected (snd s'))"
    using wrapped_stuck by (simp split: if_splits)
  ultimately show ?thesis using commands_schedule[OF assms(5-7) bs] by blast
qed

section \<open>A concrete meeting\<close>

lemma slot_5: "freeslot ([] :: (string \<times> nat) list) (\<lambda>_. 5) = Some ''5''"
proof -
  have "try_slots ([] :: (string \<times> nat) list) (\<lambda>_. 5) (2 ^ 7) 0 (Suc 63) = Some ''5''"
    unfolding try_slots.simps by (simp add: Let_def Itoa_5)
  then show ?thesis by (simp add: freeslot_def)
qed

lemma code_5: "typed_as (wl_Encode 5 [97, 98]) (wl_Encode 5 [97, 98])" "wl_Encode 5 [97, 98] \<noteq> ''''"
proof -
  have parts: "code_parts (wl_Encode 5 [97, 98]) = words_of 5 [97, 98]"
    using words_of_lower[of 5 "[97, 98]"] by (simp add: wl_Encode_words code_parts_Join list_all_iff code_word_lower)
  have "length (words_of 5 [97, 98]) \<noteq> 0" by (simp add: words_of_def)
  moreover have "code_parts '''' = []" by (simp add: code_parts_def ReplaceAll1_def)
  ultimately show "typed_as (wl_Encode 5 [97, 98]) (wl_Encode 5 [97, 98])" "wl_Encode 5 [97, 98] \<noteq> ''''"
    using parts by auto
qed

lemma meeting_matched: "\<exists>tr s. rrun no_slots tr s \<and> matched 0 1 s"
proof -
  have "case rplay (take 8 meeting) [] no_slots of None \<Rightarrow> False | Some (tr, s) \<Rightarrow> matched 0 1 s" by code_simp
  from rplay_witness[OF this] show ?thesis by auto
qed

lemma commands_through:
  assumes "lib_works L" "url_Parse L sigserv = Inr u" "freeslot taken_slots rnd = Some s"
    "init_Unmarshal L io = Inr (s, ice)" "init_Unmarshal L ij = Inr initj" "0 \<le> len" "pass \<noteq> []"
    "printed_code pass s = Some code" "typed_as typed code" "typed \<noteq> ''''"
    "pake_keys L so sj (string_of pass) (string_of pass) = Some (k, k)" "length no = 24" "length nj = 24"
    "rrun no_slots tr srv0" "matched i j srv0"
    "(net_step i j)\<^sup>*\<^sup>* (on_slot i (command_side (newConn L sigserv '''' len) io so [pass, no] offer)
       (command_side (newConn L sigserv typed len') ij sj [nj] answer) srv0) n"
  shows "newConn L sigserv typed len' = andthen (Join_slot L s (string_of pass) sigserv) connected
    \<and> (\<exists>n'. (net_step i j)\<^sup>*\<^sup>* n n' \<and> quiet i j n')
    \<and> (quiet i j n \<longrightarrow> (\<exists>q. agreed k offer answer q \<and>
         client (ends n i) = wrap connected (fst q) \<and> client (ends n j) = wrap connected (snd q)))"
proof -
  let ?a = "command_side (newConn L sigserv '''' len) io so [pass, no] offer"
    and ?b = "command_side (newConn L sigserv typed len') ij sj [nj] answer"
  obtain slot where slot: "s = Itoa slot" "Atoi s = Some slot" "unat slot < 2 ^ 21"
    by (rule freeslot_number[OF assms(3)])
  have dec: "wl_Decode typed = Some (slot, pass)"
    using code_decodes[OF assms(7)] assms(8,9) slot(2) by (simp add: printed_code_def)
  have joins: "newConn L sigserv typed len' = andthen (Join_slot L s (string_of pass) sigserv) connected"
    using dec assms(10) slot(1) by (simp add: newConn_def)
  obtain bs q where q: "schedule bs (?a, ?b) = Some (wrap connected (fst q), wrap connected (snd q))"
    "stuck (wrap connected (fst q), wrap connected (snd q))" "agreed k offer answer q"
    using commands_decided[OF assms(1,2,4,5,6) dec assms(10,11,12,13)] by fastforce
  have cl: "closes_last (prog ?a)" "closes_last (prog ?b)" by (simp_all add: command_side_def newConn_closes_last)
  have few: "\<forall>m p. (pair_step ^^ m) (?a, ?b) p \<longrightarrow> m \<le> length bs"
    using one_run_decides(1)[OF q(1,2)] by blast
  note net = through_server[OF assms(14,15) cl assms(16) few]
  have "client (ends n i) = wrap connected (fst q) \<and> client (ends n j) = wrap connected (snd q)" if qu: "quiet i j n"
  proof -
    from net(2)[OF qu] obtain m p where p: "(pair_step ^^ m) (?a, ?b) p" "stuck p"
      "silent (prog (fst p)) \<or> fst p = client (ends n i)" "silent (prog (snd p)) \<or> snd p = client (ends n j)" by blast
    have eq: "p = (wrap connected (fst q), wrap connected (snd q))" by (rule one_run_decides(3)[OF q(1,2) p(1,2)])
    show ?thesis using p(3,4) eq q(3) not_silent_connecting by (auto simp: agreed_def)
  qed
  then show ?thesis using joins net(1) q(3) by blast
qed

section \<open>Properties\<close>

text \<open>
  C2. Two commands meet: one prints a code for the slot the server has given it, and when the other is
  given that code, in any case and with any separators, it joins this slot with this password; and
  once the server has matched the two, whatever else it does, they get to the point where nothing is
  left to do, and at every such point both wait for the data channel with one key and each other's
  description.
\<close>
theorem commands_meet:
  assumes "lib_works L" "url_Parse L sigserv = Inr u" "freeslot taken_slots rnd = Some s"
    "init_Unmarshal L io = Inr (s, ice)" "init_Unmarshal L ij = Inr initj" "0 \<le> len" "pass \<noteq> []"
    "printed_code pass s = Some code" "typed_as typed code" "typed \<noteq> ''''"
    "pake_keys L so sj (string_of pass) (string_of pass) = Some (k, k)" "length no = 24" "length nj = 24"
    "rrun no_slots tr srv0" "matched i j srv0"
    "(net_step i j)\<^sup>*\<^sup>* (on_slot i (command_side (newConn L sigserv '''' len) io so [pass, no] offer)
       (command_side (newConn L sigserv typed len') ij sj [nj] answer) srv0) n"
  shows "newConn L sigserv typed len' = andthen (Join_slot L s (string_of pass) sigserv) connected
    \<and> (\<exists>n'. (net_step i j)\<^sup>*\<^sup>* n n' \<and> quiet i j n')
    \<and> (quiet i j n \<longrightarrow> (\<exists>q. agreed k offer answer q \<and>
         client (ends n i) = wrap connected (fst q) \<and> client (ends n j) = wrap connected (snd q)))"
  by (rule commands_through[OF assms])

lemma commands_meet_witness:
  "\<exists>s n k typed. (net_step 0 1)\<^sup>*\<^sup>* (on_slot 0
       (command_side (newConn plain_lib ''//s'' '''' 2) ''5'' 0 [[97, 98], replicate 24 1] [1, 2])
       (command_side (newConn plain_lib ''//s'' typed 2) '''' 0 [replicate 24 2] [3]) s) n \<and> quiet 0 1 n
     \<and> newConn plain_lib ''//s'' typed 2 = andthen (Join_slot plain_lib ''5'' ''ab'' ''//s'') connected
     \<and> (\<exists>q. agreed k [1, 2] [3] q \<and> client (ends n 0) = wrap connected (fst q) \<and> client (ends n 1) = wrap connected (snd q))"
proof -
  have n: "length (replicate 24 (x :: byte)) = 24" for x by simp
  have a: "Atoi ''5'' = Some 5" using Atoi_Itoa[of 5] by (simp add: Itoa_5)
  have ab: "string_of [97, 98] = ''ab''" by code_simp
  let ?code = "wl_Encode 5 [97, 98]"
  have c: "printed_code [97, 98] ''5'' = Some ?code" by (simp add: printed_code_def a)
  obtain tr s where s: "rrun no_slots tr s" "matched 0 1 s" using meeting_matched by blast
  have keys: "pake_keys plain_lib 0 0 (string_of [97, 98]) (string_of [97, 98]) = Some (97 # 98 # replicate 30 0, 97 # 98 # replicate 30 0)"
    unfolding ab by (rule plain_keys(1))
  have h: "(0 :: int) \<le> 2" "[97, 98 :: byte] \<noteq> []" by simp_all
  note works = commands_meet[OF plain_lib_works plain_calls(4) slot_5 plain_calls(1,1) h c code_5 keys n n s,
    where offer = "[1, 2]" and answer = "[3]" and len' = 2]
  let ?n = "on_slot 0 (command_side (newConn plain_lib ''//s'' '''' 2) ''5'' 0 [[97, 98], replicate 24 1] [1, 2])
       (command_side (newConn plain_lib ''//s'' ?code 2) '''' 0 [replicate 24 2] [3]) s"
  obtain n' where n': "(net_step 0 1)\<^sup>*\<^sup>* ?n n'" "quiet 0 1 n'" using works[OF rtranclp.rtrancl_refl] by blast
  show ?thesis using works[OF n'(1)] n' unfolding ab by blast
qed

end
