(* ===== verification/FileTransfer.thy ===== *)
theory FileTransfer
  imports GoStrings
begin

text \<open>
  \<open>ww send\<close> and \<open>ww receive\<close>, \<open>src/cmd/ww/file.go\<close>, over a connection that delivers messages in
  order, with the path functions of \<open>path/filepath\<close> they use. The file system and the JSON of the
  header are parameters.
\<close>

section \<open>Paths\<close>

text \<open>\<open>Clean\<close>: the components that stay, the last one first in the second argument.\<close>
fun clean_parts :: "bool \<Rightarrow> string list \<Rightarrow> string list \<Rightarrow> string list" where
  "clean_parts rooted st [] = rev st"
| "clean_parts rooted st (c # cs) =
     (if c = '''' \<or> c = ''.'' then clean_parts rooted st cs
      else if c = ''..'' then
        (case st of
           [] \<Rightarrow> clean_parts rooted (if rooted then [] else [''..'']) cs
         | t # ts \<Rightarrow> clean_parts rooted (if t = ''..'' then c # st else ts) cs)
      else clean_parts rooted (c # st) cs)"

definition is_rooted :: "string \<Rightarrow> bool" where
  "is_rooted p \<longleftrightarrow> p \<noteq> '''' \<and> hd p = CHR ''/''"

definition render :: "bool \<Rightarrow> string list \<Rightarrow> string" where
  "render rooted parts =
     (if rooted then CHR ''/'' # Join parts ''/'' else if parts = [] then ''.'' else Join parts ''/'')"

definition path_parts :: "string \<Rightarrow> string list" where
  "path_parts p = clean_parts (is_rooted p) [] (Split1 (CHR ''/'') p)"

definition Clean :: "string \<Rightarrow> string" where
  "Clean p = render (is_rooted p) (path_parts p)"

definition JoinPath :: "string \<Rightarrow> string \<Rightarrow> string" where
  "JoinPath dir p = (if dir \<noteq> '''' then Clean (dir @ ''/'' @ p) else if p \<noteq> '''' then Clean p else '''')"

definition Base :: "string \<Rightarrow> string" where
  "Base p =
     (if p = '''' then ''.''
      else let b = last (Split1 (CHR ''/'') (rev (dropWhile (\<lambda>c. c = CHR ''/'') (rev p))))
           in if b = '''' then ''/'' else b)"

section \<open>Sending\<close>

record header =
  Name :: string
  Size :: int
  Type :: string

definition msgChunkSize :: nat where "msgChunkSize = 32 * 2 ^ 10"

text \<open>The messages \<open>io.CopyBuffer\<close> writes for a file it reads \<open>n\<close> bytes at a time.\<close>
fun pieces :: "nat \<Rightarrow> 'a list \<Rightarrow> 'a list list" where
  "pieces n xs = (if n = 0 \<or> xs = [] then [] else take n xs # pieces n (drop n xs))"

declare pieces.simps [simp del]

text \<open>
  What \<open>send\<close> writes, and the message of \<open>fatalf\<close> if it ends with one. \<open>fs\<close> gives the size \<open>Stat\<close>
  reports and the bytes read until the end of the file; \<open>room\<close> is how many messages the connection
  takes before a write fails.
\<close>
fun send :: "(header \<Rightarrow> byte list option) \<Rightarrow> (string \<Rightarrow> (int \<times> byte list) option) \<Rightarrow> nat \<Rightarrow> string list
    \<Rightarrow> byte list list \<times> string option" where
  "send marshal fs room [] = ([], None)"
| "send marshal fs room (filename # names) =
     (case fs filename of
        None \<Rightarrow> ([], Some ''could not open file'')
      | Some (sz, contents) \<Rightarrow>
          (case marshal \<lparr>Name = Base (Clean filename), Size = sz, Type = ''''\<rparr> of
             None \<Rightarrow> ([], Some ''failed to marshal json'')
           | Some h \<Rightarrow>
               if room = 0 then ([], Some ''could not send file header'')
               else
                 let ps = pieces msgChunkSize contents
                 in if room - 1 < length ps
                    then (h # take (room - 1) ps, Some ''could not send file'')
                    else if int (length contents) \<noteq> sz
                    then (h # ps, Some ''EOF before sending all bytes'')
                    else (case send marshal fs (room - 1 - length ps) names of
                        (ms, end) \<Rightarrow> (h # ps @ ms, end))))"

section \<open>Receiving\<close>

text \<open>
  A read with a buffer of \<open>n\<close> bytes takes the next message, which has to fit; after the last message
  the connection is at its end, or fails with \<open>closing\<close>.
\<close>
fun read_message :: "string option \<Rightarrow> nat \<Rightarrow> byte list list \<Rightarrow> (string + byte list option) \<times> byte list list" where
  "read_message closing n [] = (case closing of None \<Rightarrow> Inr None | Some e \<Rightarrow> Inl e, [])"
| "read_message closing n (m # ms) = (if length m \<le> n then Inr (Some m) else Inl ''short buffer'', ms)"

lemma read_message_some:
  "read_message closing n msgs = (Inr (Some m), rest) \<Longrightarrow> msgs = m # rest \<and> length m \<le> n"
  by (cases msgs) (auto split: option.splits if_splits)

text \<open>\<open>io.CopyBuffer\<close> from a \<open>LimitReader\<close> with \<open>left\<close> bytes to go: what it wrote, and its error.\<close>
function copy_limited :: "string option \<Rightarrow> int \<Rightarrow> byte list list \<Rightarrow> byte list \<Rightarrow> byte list \<times> string option \<times> byte list list" where
  "copy_limited closing left msgs written =
     (if left \<le> 0 then (written, None, msgs)
      else
        (case read_message closing (min msgChunkSize (nat left)) msgs of
          (Inl e, rest) \<Rightarrow> (written, Some e, rest)
        | (Inr None, rest) \<Rightarrow> (written, None, rest)
        | (Inr (Some m), rest) \<Rightarrow> copy_limited closing (left - int (length m)) rest (written @ m)))"
  by pat_completeness auto
termination
  by (relation "measure (\<lambda>(closing, left, msgs, written). length msgs)", simp)
    (auto dest!: read_message_some[OF sym])

declare copy_limited.simps [simp del]

lemma copy_limited_rest: "copy_limited closing left msgs written = (data, e, rest) \<Longrightarrow> length rest \<le> length msgs"
proof (induction closing left msgs written rule: copy_limited.induct)
  case (1 closing left msgs written)
  show ?case
  proof (cases msgs)
    case Nil
    then show ?thesis using 1(2) by (subst (asm) copy_limited.simps) (auto split: if_splits option.splits)
  next
    case (Cons m ms)
    then show ?thesis using 1 by (subst (asm) copy_limited.simps) (auto split: if_splits simp: le_SucI)
  qed
qed

text \<open>Where a file of that name goes.\<close>
definition target :: "string \<Rightarrow> string \<Rightarrow> string" where
  "target directory name = JoinPath directory (Clean (''/'' @ name))"

text \<open>The files written, in order, and the message of \<open>fatalf\<close> if \<open>receive\<close> ends with one.\<close>
function receive :: "(byte list \<Rightarrow> header option) \<Rightarrow> (string \<Rightarrow> bool) \<Rightarrow> string \<Rightarrow> string option \<Rightarrow> byte list list
    \<Rightarrow> (string \<times> byte list) list \<times> string option" where
  "receive unmarshal create directory closing msgs =
     (case read_message closing (2 ^ 10) msgs of
        (Inl e, _) \<Rightarrow> ([], Some ''could not read file header'')
      | (Inr None, _) \<Rightarrow> ([], None)
      | (Inr (Some m), rest) \<Rightarrow>
          (case unmarshal m of
             None \<Rightarrow> ([], Some ''could not decode file header'')
           | Some h \<Rightarrow>
               let path = target directory (Name h)
               in if \<not> create path then ([], Some ''could not create output file'')
                  else
                    (case copy_limited closing (Size h) rest [] of
                      (data, Some e, _) \<Rightarrow> ([(path, data)], Some ''could not save file'')
                    | (data, None, rest') \<Rightarrow>
                        if int (length data) \<noteq> Size h then ([(path, data)], Some ''EOF before receiving all bytes'')
                        else (case receive unmarshal create directory closing rest' of
                            (files, end) \<Rightarrow> ((path, data) # files, end)))))"
  by pat_completeness auto
termination
  by (relation "measure (\<lambda>(unmarshal, create, directory, closing, msgs). length msgs)", simp)
    (auto dest!: read_message_some[OF sym] copy_limited_rest[OF sym])

declare receive.simps [simp del]

section \<open>Where files go\<close>

definition ordinary :: "string \<Rightarrow> bool" where
  "ordinary c \<longleftrightarrow> c \<noteq> '''' \<and> c \<noteq> ''.'' \<and> c \<noteq> ''..'' \<and> CHR ''/'' \<notin> set c"

lemma clean_parts_append:
  "clean_parts r st (xs @ ys) = clean_parts r (rev (clean_parts r st xs)) ys"
  by (induction r st xs rule: clean_parts.induct) (auto split: list.splits)

lemma clean_parts_ordinary: "list_all ordinary xs \<Longrightarrow> clean_parts r st xs = rev st @ xs"
  by (induction xs arbitrary: st) (auto simp: ordinary_def)

lemma clean_parts_rooted:
  "list_all ordinary st \<Longrightarrow> list_all (\<lambda>c. CHR ''/'' \<notin> set c) xs \<Longrightarrow> list_all ordinary (clean_parts True st xs)"
proof (induction xs arbitrary: st)
  case (Cons c cs)
  then show ?case by (cases st) (auto simp: ordinary_def)
qed (simp add: list_all_iff)

lemma Split1_nonempty [simp]: "Split1 a s \<noteq> []"
  by (induction a s rule: Split1.induct) (auto split: list.splits)

lemma Split1_sep: "list_all (\<lambda>c. a \<notin> set c) (Split1 a s)"
  by (induction a s rule: Split1.induct) (auto split: list.splits)

lemma Split1_append: "Split1 a (s @ a # t) = Split1 a s @ Split1 a t"
proof (induction s)
  case (Cons c s)
  obtain w ws where "Split1 a s = w # ws" by (meson Split1_nonempty neq_Nil_conv)
  then show ?case using Cons by simp
qed simp

lemma Split1_Join:
  "ws \<noteq> [] \<Longrightarrow> list_all (\<lambda>c. a \<notin> set c) ws \<Longrightarrow> Split1 a (Join ws [a]) = ws"
proof (induction ws rule: induct_list012)
  case (2 w)
  then have "a \<notin> set w" by simp
  then show ?case by (induction w) auto
next
  case (3 w v ws)
  have "Split1 a w = [w]" using 3(3) 3(4) by (induction w) (auto split: list.splits)
  then show ?case using 3 Split1_append[of a w "Join (v # ws) [a]"] by simp
qed simp

lemma path_parts_Clean_rooted:
  assumes "is_rooted p"
  shows "\<exists>parts. list_all ordinary parts \<and> Clean p = CHR ''/'' # Join parts ''/'' \<and> path_parts p = parts
    \<and> filter (\<lambda>c. c \<noteq> '''') (Split1 (CHR ''/'') (Clean p)) = parts"
proof -
  let ?parts = "path_parts p"
  have o: "list_all ordinary ?parts"
    unfolding path_parts_def using assms clean_parts_rooted[of "[]"] Split1_sep by simp
  have c: "Clean p = CHR ''/'' # Join ?parts ''/''" using assms by (simp add: Clean_def render_def)
  have "filter (\<lambda>c. c \<noteq> '''') (Split1 (CHR ''/'') (Join ?parts ''/'')) = ?parts"
  proof (cases "?parts = []")
    case False
    have "list_all (\<lambda>c. CHR ''/'' \<notin> set c) ?parts" using o by (auto simp: list_all_iff ordinary_def)
    then have "Split1 (CHR ''/'') (Join ?parts ''/'') = ?parts" using False by (rule Split1_Join[rotated])
    moreover have "filter (\<lambda>c. c \<noteq> '''') ?parts = ?parts" using o by (auto simp: list_all_iff ordinary_def)
    ultimately show ?thesis by simp
  qed simp
  with o c show ?thesis by auto
qed

lemma clean_parts_skip: "clean_parts r st (filter (\<lambda>c. c \<noteq> '''') xs) = clean_parts r st xs"
  by (induction r st xs rule: clean_parts.induct) (auto split: list.splits)

lemma target_parts:
  assumes "directory \<noteq> ''''"
  shows "\<exists>parts. list_all ordinary parts \<and> path_parts (''/'' @ name) = parts
    \<and> target directory name = render (is_rooted directory) (path_parts directory @ parts)"
proof -
  let ?p = "''/'' @ name"
  have "is_rooted ?p" by (simp add: is_rooted_def)
  then obtain parts where p: "list_all ordinary parts" "path_parts ?p = parts"
    "filter (\<lambda>c. c \<noteq> '''') (Split1 (CHR ''/'') (Clean ?p)) = parts"
    using path_parts_Clean_rooted by blast
  let ?r = "is_rooted directory" and ?j = "directory @ ''/'' @ Clean ?p"
  have r: "is_rooted ?j = ?r" using assms by (simp add: is_rooted_def)
  have "Split1 (CHR ''/'') ?j = Split1 (CHR ''/'') directory @ Split1 (CHR ''/'') (Clean ?p)"
    using Split1_append by simp
  then have "path_parts ?j = clean_parts ?r (rev (path_parts directory)) (Split1 (CHR ''/'') (Clean ?p))"
    unfolding path_parts_def r by (simp add: clean_parts_append)
  also have "\<dots> = path_parts directory @ parts"
    using clean_parts_skip[of ?r "rev (path_parts directory)" "Split1 (CHR ''/'') (Clean ?p)"]
    unfolding p(3) clean_parts_ordinary[OF p(1)] by simp
  finally have j: "path_parts ?j = path_parts directory @ parts" .
  have "target directory name = Clean ?j" using assms by (simp add: target_def JoinPath_def)
  also have "\<dots> = render ?r (path_parts directory @ parts)" unfolding Clean_def[of ?j] r j ..
  finally show ?thesis using p(1,2) by blast
qed

section \<open>Copying\<close>

lemma pieces_Nil [simp]: "pieces n [] = []"
  by (simp add: pieces.simps)

lemma pieces_step: "0 < n \<Longrightarrow> xs \<noteq> [] \<Longrightarrow> pieces n xs = take n xs # pieces n (drop n xs)"
  by (subst pieces.simps) simp

lemma msgChunkSize_pos: "0 < msgChunkSize"
  by (simp add: msgChunkSize_def)

text \<open>Of the pieces of \<open>xs\<close> only the first \<open>k\<close> arrive.\<close>
lemma copy_pieces:
  "n = msgChunkSize \<Longrightarrow> (k < length (pieces n xs) \<longrightarrow> rest = []) \<Longrightarrow>
   copy_limited None (int (length xs)) (take k (pieces n xs) @ rest) written
     = (written @ concat (take k (pieces n xs)), None, rest)"
proof (induction n xs arbitrary: k written rule: pieces.induct)
  case (1 n xs)
  show ?case
  proof (cases "xs = []")
    case True
    then show ?thesis by (simp add: copy_limited.simps)
  next
    case False
    have n: "0 < n" using 1(2) msgChunkSize_pos by simp
    note p = pieces_step[OF n False]
    show ?thesis
    proof (cases k)
      case 0
      then have "rest = []" using 1(3) p by simp
      then show ?thesis using 0 False by (subst copy_limited.simps) simp
    next
      case (Suc k')
      have "read_message None (min msgChunkSize (nat (int (length xs)))) (take k (pieces n xs) @ rest)
          = (Inr (Some (take n xs)), take k' (pieces n (drop n xs)) @ rest)"
        unfolding p Suc using 1(2) by simp
      moreover have "int (length xs) - int (length (take n xs)) = int (length (drop n xs))" by simp
      ultimately have "copy_limited None (int (length xs)) (take k (pieces n xs) @ rest) written
          = copy_limited None (int (length (drop n xs))) (take k' (pieces n (drop n xs)) @ rest) (written @ take n xs)"
        using False by (subst copy_limited.simps) simp
      also have "\<dots> = (written @ take n xs @ concat (take k' (pieces n (drop n xs))), None, rest)"
        using 1(1)[of k' "written @ take n xs"] 1(2,3) n False p Suc by simp
      finally show ?thesis by (simp add: p Suc)
    qed
  qed
qed

lemma concat_pieces: "0 < n \<Longrightarrow> concat (pieces n xs) = xs"
proof (induction n xs rule: pieces.induct)
  case (1 n xs)
  then show ?case by (cases "xs = []") (simp_all add: pieces_step)
qed

lemma pieces_nonempty: "p \<in> set (pieces n xs) \<Longrightarrow> p \<noteq> []"
proof (induction n xs rule: pieces.induct)
  case (1 n xs)
  then show ?case by (subst (asm) pieces.simps) (auto split: if_splits)
qed

lemma copy_all:
  "copy_limited None (int (length xs)) (pieces msgChunkSize xs @ rest) [] = (xs, None, rest)"
  using copy_pieces[OF refl, of "length (pieces msgChunkSize xs)" xs rest "[]"]
  by (simp add: concat_pieces[OF msgChunkSize_pos])

lemma copy_cut:
  assumes "k < length (pieces msgChunkSize xs)"
  shows "\<exists>data. copy_limited None (int (length xs)) (take k (pieces msgChunkSize xs)) [] = (data, None, [])
    \<and> length data < length xs"
proof -
  let ?p = "pieces msgChunkSize xs"
  have "length xs = length (concat (take k ?p)) + length (concat (drop k ?p))"
    using concat_pieces[OF msgChunkSize_pos, of xs] by (metis append_take_drop_id concat_append length_append)
  moreover have "concat (drop k ?p) \<noteq> []"
    using assms pieces_nonempty[of _ msgChunkSize xs]
    by (metis concat_eq_Nil_conv drop_eq_Nil in_set_dropD leD list.set_intros(1) neq_Nil_conv)
  ultimately have "length (concat (take k ?p)) < length xs" by (cases "concat (drop k ?p)") simp_all
  then show ?thesis using copy_pieces[OF refl, of k xs "[]" "[]"] assms by simp
qed

section \<open>Properties\<close>

lemma receive_cases:
  obtains (none) e where "receive unmarshal create directory closing msgs = ([], e)"
  | (broken) h :: header and data e where "receive unmarshal create directory closing msgs = ([(target directory (Name h), data)], e)"
  | (more) h :: header and data rest files e where "length rest < length msgs" "receive unmarshal create directory closing rest = (files, e)"
      "receive unmarshal create directory closing msgs = ((target directory (Name h), data) # files, e)"
proof (cases "\<exists>m rest h. read_message closing (2 ^ 10) msgs = (Inr (Some m), rest) \<and> unmarshal m = Some h
    \<and> create (target directory (Name h))")
  case False
  then have "\<exists>e. receive unmarshal create directory closing msgs = ([], e)"
    by (subst receive.simps) (auto split: prod.split sum.split option.split simp: Let_def simp del: read_message.simps)
  then show ?thesis using none by blast
next
  case True
  then obtain m rest h where r: "read_message closing (2 ^ 10) msgs = (Inr (Some m), rest)" "unmarshal m = Some h"
    "create (target directory (Name h))" by blast
  obtain data err rest' where c: "copy_limited closing (Size h) rest [] = (data, err, rest')" by (metis prod_cases3)
  obtain files e where f: "receive unmarshal create directory closing rest' = (files, e)" by fastforce
  have eq: "receive unmarshal create directory closing msgs =
      (if err = None \<and> int (length data) = Size h then ((target directory (Name h), data) # files, e)
       else ([(target directory (Name h), data)],
         Some (if err = None then ''EOF before receiving all bytes'' else ''could not save file'')))"
    using r c f by (subst receive.simps) (cases err; simp add: Let_def del: read_message.simps)
  show ?thesis
  proof (cases "err = None \<and> int (length data) = Size h")
    case True
    have "length rest' < length msgs" using read_message_some[OF r(1)] copy_limited_rest[OF c] by simp
    then show ?thesis using more[of rest' files e h data] f eq True by simp
  next
    case False
    then show ?thesis using broken[of h data] eq by (simp only: False if_False)
  qed
qed

lemma received_target:
  "(path, data) \<in> set (fst (receive unmarshal create directory closing msgs)) \<Longrightarrow> \<exists>name. path = target directory name"
proof (induction msgs rule: measure_induct_rule[of length])
  case (less msgs)
  show ?case
  proof (rule receive_cases[where unmarshal = unmarshal and create = create and directory = directory
        and closing = closing and msgs = msgs], goal_cases)
    case (3 h dat rest files e)
    then have "path = target directory (Name h) \<or> (path, data) \<in> set (fst (receive unmarshal create directory closing rest))"
      using less(2) by auto
    then show ?case using less(1)[OF 3(1)] by blast
  qed (use less(2) in auto)
qed

text \<open>
  C14. A sender cannot choose where its files go: whatever messages arrive, every file \<open>receive\<close> writes
  is below the directory it was given; the rest of its path has no component that is \<open>..\<close>.
\<close>
theorem receive_inside:
  assumes "directory \<noteq> ''''" "(path, data) \<in> set (fst (receive unmarshal create directory closing msgs))"
  shows "\<exists>parts. list_all ordinary parts \<and> path = render (is_rooted directory) (path_parts directory @ parts)"
  using received_target[OF assms(2)] target_parts[OF assms(1)] by metis

text \<open>The header of a file.\<close>
definition file_header :: "(string \<Rightarrow> (int \<times> byte list) option) \<Rightarrow> string \<Rightarrow> header" where
  "file_header fs f = \<lparr>Name = Base (Clean f), Size = fst (the (fs f)), Type = ''''\<rparr>"

definition arrives :: "(string \<Rightarrow> (int \<times> byte list) option) \<Rightarrow> string \<Rightarrow> string \<Rightarrow> string \<times> byte list" where
  "arrives fs directory f = (target directory (Base (Clean f)), snd (the (fs f)))"

lemma send_Cons:
  assumes "send marshal fs room (f # names) = (ms, None)"
  obtains h ms' room' where "marshal (file_header fs f) = Some h" "ms = h # pieces msgChunkSize (snd (the (fs f))) @ ms'"
    "send marshal fs room' names = (ms', None)" "Size (file_header fs f) = int (length (snd (the (fs f))))"
proof -
  obtain sz contents where f: "fs f = Some (sz, contents)" using assms by (cases "fs f") auto
  have hd: "file_header fs f = \<lparr>Name = Base (Clean f), Size = sz, Type = ''''\<rparr>" by (simp add: file_header_def f)
  obtain h where h: "marshal (file_header fs f) = Some h"
    using assms f by (cases "marshal (file_header fs f)") (simp_all add: hd)
  let ?room = "room - 1 - length (pieces msgChunkSize contents)"
  obtain ms' e where s: "send marshal fs ?room names = (ms', e)" by fastforce
  show ?thesis
    by (rule that[OF h _ _ , of ms' ?room]) (use assms f s in \<open>simp_all add: h[unfolded hd] hd Let_def split: if_splits\<close>)
qed

lemma receive_header:
  assumes "unmarshal h = Some (file_header fs f)" "length h \<le> 2 ^ 10" "\<And>p. create p"
    "Size (file_header fs f) = int (length (snd (the (fs f))))"
  shows "receive unmarshal create directory None (h # pieces msgChunkSize (snd (the (fs f))) @ rest)
    = (case receive unmarshal create directory None rest of (files, e) \<Rightarrow> (arrives fs directory f # files, e))"
proof -
  have n: "Name (file_header fs f) = Base (Clean f)" by (simp add: file_header_def)
  have r: "read_message None (2 ^ 10) (h # xs) = (Inr (Some h), xs)" for xs using assms(2) by (simp only: read_message.simps if_True)
  show ?thesis
   unfolding receive.simps[of unmarshal create directory None "h # _"] r
   by (simp add: assms(1,3) n assms(4) copy_all arrives_def Let_def)
qed

lemma sent_received:
  assumes "send marshal fs room names = (ms, None)"
    "\<And>f h. f \<in> set names \<Longrightarrow> marshal (file_header fs f) = Some h \<Longrightarrow>
       unmarshal h = Some (file_header fs f) \<and> length h \<le> 2 ^ 10"
    "\<And>p. create p"
  shows "receive unmarshal create directory None ms = (map (arrives fs directory) names, None)"
  using assms(1,2)
proof (induction names arbitrary: ms room)
  case Nil
  then show ?case by (subst receive.simps) simp
next
  case (Cons f names)
  obtain h ms' room' where s: "marshal (file_header fs f) = Some h"
    "ms = h # pieces msgChunkSize (snd (the (fs f))) @ ms'" "send marshal fs room' names = (ms', None)"
    "Size (file_header fs f) = int (length (snd (the (fs f))))" using Cons.prems(1) by (rule send_Cons)
  have h: "unmarshal h = Some (file_header fs f)" "length h \<le> 2 ^ 10" using Cons.prems(2)[of f h] s(1) by simp_all
  have "receive unmarshal create directory None ms' = (map (arrives fs directory) names, None)"
    by (rule Cons.IH[OF s(3)], rule Cons.prems(2)) simp_all
  then show ?case using receive_header[of unmarshal h fs f create directory ms', OF h assms(3) s(4)] s(2) by simp
qed

text \<open>
  C13. Files arrive whole: when \<open>send\<close> ends without an error, a receiver that reads all its messages, and
  can create the files, writes every file with its contents under its base name, in order, and ends
  without an error. The header's JSON has to decode and to fit the first read.
\<close>
theorem receive_sent:
  assumes "send marshal fs room names = (ms, None)"
    "\<And>f h. f \<in> set names \<Longrightarrow> marshal (file_header fs f) = Some h \<Longrightarrow>
       unmarshal h = Some (file_header fs f) \<and> length h \<le> 2 ^ 10"
    "\<And>p. create p"
  shows "receive unmarshal create directory None ms = (map (arrives fs directory) names, None)"
  using assms by (rule sent_received)

text \<open>
  C29. A transfer that breaks off is not taken for a whole one: if only the first \<open>k\<close> messages arrive
  before the connection ends and \<open>receive\<close> ends without an error, the files it wrote are whole and are
  the first of those sent.
\<close>
theorem receive_broken_off:
  assumes "send marshal fs room names = (ms, None)"
    "\<And>f h. f \<in> set names \<Longrightarrow> marshal (file_header fs f) = Some h \<Longrightarrow>
       unmarshal h = Some (file_header fs f) \<and> length h \<le> 2 ^ 10"
    "\<And>p. create p" "receive unmarshal create directory None (take k ms) = (files, None)"
  shows "files = take (length files) (map (arrives fs directory) names)"
  using assms(1,2,4)
proof (induction names arbitrary: ms room k files)
  case Nil
  then show ?case by (subst (asm) receive.simps) simp
next
  case (Cons f names)
  let ?ps = "pieces msgChunkSize (snd (the (fs f)))"
  obtain h ms' room' where s: "marshal (file_header fs f) = Some h" "ms = h # ?ps @ ms'"
    "send marshal fs room' names = (ms', None)"
    "Size (file_header fs f) = int (length (snd (the (fs f))))" using Cons.prems(1) by (rule send_Cons)
  have h: "unmarshal h = Some (file_header fs f)" "length h \<le> 2 ^ 10" using Cons.prems(2)[of f h] s(1) by simp_all
  show ?case
  proof (cases k)
    case 0
    then show ?thesis using Cons.prems(3) by (subst (asm) receive.simps) simp
  next
    case (Suc k')
    show ?thesis
    proof (cases "k' < length ?ps")
      case True
      obtain data where "copy_limited None (int (length (snd (the (fs f))))) (take k' ?ps) [] = (data, None, [])"
        "length data < length (snd (the (fs f)))" using copy_cut[OF True] by blast
      then have "snd (receive unmarshal create directory None (take k ms)) \<noteq> None"
        using True by (subst receive.simps) (simp add: Suc s(2,4) h assms(3) Let_def)
      then show ?thesis using Cons.prems(3) by simp
    next
      case False
      then have "take k ms = h # ?ps @ take (k' - length ?ps) ms'" by (simp add: Suc s(2))
      then obtain files' where f: "files = arrives fs directory f # files'"
        "receive unmarshal create directory None (take (k' - length ?ps) ms') = (files', None)"
        using Cons.prems(3) receive_header[of unmarshal h fs f create directory, OF h assms(3) s(4)] by (auto split: prod.splits)
      have "files' = take (length files') (map (arrives fs directory) names)"
        by (rule Cons.IH[OF s(3) _ f(2)], intro Cons.prems(2)) simp_all
      then show ?thesis using f(1) by simp
    qed
  qed
qed

section \<open>Concrete transfers\<close>

definition short_marshal :: "header \<Rightarrow> byte list option" where
  "short_marshal h =
     (if 0 \<le> Size h \<and> Size h < 256 \<and> Type h = ''''
      then Some (of_int (Size h) # map (\<lambda>c. of_nat (of_char c)) (Name h)) else None)"

fun short_unmarshal :: "byte list \<Rightarrow> header option" where
  "short_unmarshal [] = None"
| "short_unmarshal (b # bs) = Some \<lparr>Name = map (\<lambda>b. char_of (unat b)) bs, Size = uint b, Type = ''''\<rparr>"

definition two_files :: "string \<Rightarrow> (int \<times> byte list) option" where
  "two_files f = (if f = ''d/a'' then Some (2, [1, 2]) else if f = ''b'' then Some (0, []) else None)"

lemma two_files_sent:
  "send short_marshal two_files 3 [''d/a'', ''b''] = ([[2, 97], [1, 2], [0, 98]], None)"
proof -
  have "Base (Clean ''d/a'') = ''a''" "Base (Clean ''b'') = ''b''" by code_simp+
  then show ?thesis
    by (simp add: short_marshal_def two_files_def pieces_step msgChunkSize_def)
qed

lemma two_files_headers:
  assumes "f \<in> set [''d/a'', ''b'']" "short_marshal (file_header two_files f) = Some h"
  shows "short_unmarshal h = Some (file_header two_files f) \<and> length h \<le> 2 ^ 10"
proof -
  have "case short_marshal (file_header two_files f) of None \<Rightarrow> True
      | Some h \<Rightarrow> short_unmarshal h = Some (file_header two_files f) \<and> length h \<le> 2 ^ 10"
    if "f = ''d/a'' \<or> f = ''b''"
    using that by (elim disjE; hypsubst; code_simp)
  then show ?thesis using assms by simp
qed

lemma receive_inside_witness:
  "(''out/x'', []) \<in> set (fst (receive (\<lambda>_. Some \<lparr>Name = ''../../x'', Size = 0, Type = ''''\<rparr>) (\<lambda>_. True) ''out'' None [[1]]))
   \<and> (\<exists>parts. list_all ordinary parts \<and> ''out/x'' = render (is_rooted ''out'') (path_parts ''out'' @ parts))"
proof -
  have r: "(''out/x'', []) \<in> set (fst (receive (\<lambda>_. Some \<lparr>Name = ''../../x'', Size = 0, Type = ''''\<rparr>) (\<lambda>_. True) ''out'' None [[1]]))"
    by code_simp
  show ?thesis using r receive_inside[OF _ r] by simp
qed

lemma receive_sent_witness:
  "receive short_unmarshal (\<lambda>_. True) ''.'' None [[2, 97], [1, 2], [0, 98]]
     = (map (arrives two_files ''.'') [''d/a'', ''b''], None)"
  by (rule receive_sent[OF two_files_sent two_files_headers]) simp_all

lemma receive_broken_off_witness:
  "receive short_unmarshal (\<lambda>_. True) ''.'' None (take 2 [[2, 97], [1, 2], [0, 98]]) = ([(''a'', [1, 2])], None)
   \<and> [(''a'', [1, 2])] = take 1 (map (arrives two_files ''.'') [''d/a'', ''b''])"
proof -
  have r: "receive short_unmarshal (\<lambda>_. True) ''.'' None (take 2 [[2, 97], [1, 2], [0, 98]]) = ([(''a'', [1, 2])], None)"
    by code_simp
  from receive_broken_off[OF two_files_sent two_files_headers _ r] r show ?thesis by simp
qed

end
