(* ===== verification/Sending.thy ===== *)
theory Sending
  imports Rendezvous FileTransfer
begin

text \<open>
  \<open>ww send\<close> on one computer and \<open>ww receive\<close> on another, from what is typed to the files on the disk: joins
  the command line, the codes, the handshake through the server and the file transfer. Between the
  two descriptions and the messages is WebRTC: the data channel opens at both ends, and carries
  messages in order.
\<close>

section \<open>The programs\<close>

text \<open>The connection that \<open>ww\<close> with these arguments makes, if it makes one.\<close>
definition command_program :: "('d, 'c) lib \<Rightarrow> (string \<rightharpoonup> string) \<Rightarrow> string list \<Rightarrow> ('d, 'c, string + bool) proc option" where
  "command_program L env args = (case main env args of
     (Some (verbose, sigserv), c) \<Rightarrow> connection L sigserv c
   | (None, c) \<Rightarrow> None)"

text \<open>
  What becomes of a program that waits for the data channel when it opens: its result and the
  statuses it closes its WebSocket with, \<open>stats\<close> being what \<open>GetStats\<close> reports. Other effects do
  not come any more.
\<close>
primrec after_open :: "(string \<times> stat) list \<Rightarrow> ('d, 'c, 'r) proc \<Rightarrow> ('r \<times> nat list) option" where
  "after_open stats (Return r) = Some (r, [])"
| "after_open stats Panic = None"
| "after_open stats (DialWs ctx a k) = None"
| "after_open stats (GoCloseWhenDone ctx st p) = None"
| "after_open stats (ReadWs ctx k) = None"
| "after_open stats (WriteWs ctx m k) = None"
| "after_open stats (CloseWs st p) = map_option (\<lambda>(r, sts). (r, st # sts)) (after_open stats p)"
| "after_open stats (SendSlot s p) = None"
| "after_open stats (NewPeerConnection ice k) = None"
| "after_open stats (CreateDataChannel k) = None"
| "after_open stats (DrawSeed k) = None"
| "after_open stats (ReadRand n k) = None"
| "after_open stats (OnICECandidate ctx mk p) = None"
| "after_open stats (CreateOffer k) = None"
| "after_open stats (CreateAnswer k) = None"
| "after_open stats (SetLocalDescription d k) = None"
| "after_open stats (SetRemoteDescription d k) = None"
| "after_open stats (AddICECandidate c k) = None"
| "after_open stats (GoHandleRemoteCandidates ctx mk p) = None"
| "after_open stats (GetStats k) = after_open stats (k stats)"
| "after_open stats (PollDone ctx k) = None"
| "after_open stats (Select k) = after_open stats (k Opened)"
| "after_open stats (SelectCtx ctx k d) = None"

section \<open>Lemmas\<close>

lemma connected_opens:
  "after_open stats (andthen await_open connected) = Some (Inr (relayed stats),
     [if relayed stats then CloseWebRTCSuccessRelay else CloseWebRTCSuccessDirect])"
  by (simp add: await_open_def IsRelay_def connected_def)

lemma send_program:
  assumes "LookupEnvOrBool env ''WW_VERBOSE'' False = Some verb" "plain_args files" "files \<noteq> []"
  shows "command_program L env (''send'' # files) =
    Some (newConn L (LookupEnvOrString env ''WW_SIGSERV'' ''https://webwormhole.com'') '''' 2)"
proof -
  have run: "map_of (subcmds h) ''send'' = Some send_args" for h by (simp add: subcmds_def)
  have "plain_args [''send'']" by (simp add: plain_args_def)
  note m = main_runs[OF assms(1) run this]
  have "send_args files = SendFiles '''' 2 files"
    unfolding send_args_def Parse_plain[OF assms(2)] using assms(3)
    by (simp add: send_flags_def string_flag_def int_of_def Suc_le_eq)
  then show ?thesis by (simp add: command_program_def m connection_def)
qed

lemma receive_program:
  assumes "LookupEnvOrBool env ''WW_VERBOSE'' False = Some verb" "plain_args [code]"
  shows "command_program L env [''receive'', code] =
    Some (newConn L (LookupEnvOrString env ''WW_SIGSERV'' ''https://webwormhole.com'') code 2)"
proof -
  have run: "map_of (subcmds h) ''receive'' = Some receive_args" for h by (simp add: subcmds_def)
  have "plain_args [''receive'']" by (simp add: plain_args_def)
  note m = main_runs[OF assms(1) run this]
  have "receive_args [code] = ReceiveFiles code 2 ''.''"
    unfolding receive_args_def Parse_plain[OF assms(2)]
    by (simp add: receive_flags_def string_flag_def int_of_def arg0_def)
  then show ?thesis by (simp add: command_program_def m connection_def)
qed

text \<open>A code does not look like a flag, however it is typed: it starts with a letter.\<close>
lemma typed_code_plain:
  assumes "pass \<noteq> []" "typed_as typed (wl_Encode slot pass)"
  shows "plain_args [typed]"
proof -
  have low: "list_all lower_word (words_of slot pass)" by (rule words_of_lower)
  have no_dash: "c \<noteq> CHR ''-''" if "typed_char c d" "is_lower d" for c d
    using that by (auto simp: typed_char_def case_variant_def is_lower_def)
  consider "wl_Encode slot pass = []" | d r where "wl_Encode slot pass = d # r" "is_lower d"
  proof (cases "words_of slot pass")
    case Nil
    then show ?thesis using that(1) by (simp add: wl_Encode_words[OF assms(1)])
  next
    case (Cons w ws)
    then obtain d w' where "w = d # w'" "is_lower d" using low by (cases w) (auto simp: lower_word_def)
    then show ?thesis using that(2) Cons by (cases ws) (simp_all add: wl_Encode_words[OF assms(1)])
  qed
  then show ?thesis using assms(2) no_dash by cases (auto simp: plain_args_def list_all2_Cons2)
qed

section \<open>Properties\<close>

text \<open>
  C1. \<open>ww send\<close> and \<open>ww receive\<close> do what they are for. One runs \<open>ww send\<close> with the names of files and
  reads the code it prints to the other, who types \<open>ww receive\<close> with it, both with the same signalling
  server. Once the server has matched the two, whatever else it does, they get to the point where only
  WebRTC has something left to do, and hold one key there; when the channel opens both go on with
  their connection; and what \<open>send\<close> then writes without an error, \<open>receive\<close> stores, every file
  whole, under its base name in the current directory.
\<close>
theorem files_cross:
  assumes "LookupEnvOrBool env ''WW_VERBOSE'' False = Some v" "LookupEnvOrBool env' ''WW_VERBOSE'' False = Some v'"
    "LookupEnvOrString env ''WW_SIGSERV'' ''https://webwormhole.com'' = sigserv"
    "LookupEnvOrString env' ''WW_SIGSERV'' ''https://webwormhole.com'' = sigserv"
    "plain_args files" "files \<noteq> []" "typed \<noteq> ''''"
    "command_program L env (''send'' # files) = Some p1" "command_program L env' [''receive'', typed] = Some p2"
    "lib_works L" "url_Parse L sigserv = Inr u" "freeslot taken_slots rnd = Some s"
    "init_Unmarshal L io = Inr (s, ice)" "init_Unmarshal L ij = Inr initj" "length pass = 2"
    "printed_code pass s = Some code" "typed_as typed code"
    "pake_keys L so sj (string_of pass) (string_of pass) = Some (k, k)" "length no = 24" "length nj = 24"
    "rrun no_slots tr srv0" "matched i j srv0"
    "(net_step i j)\<^sup>*\<^sup>* (on_slot i (command_side p1 io so [pass, no] offer) (command_side p2 ij sj [nj] answer) srv0) n"
    "send marshal fs room files = (ms, None)"
    "\<And>f h. f \<in> set files \<Longrightarrow> marshal (file_header fs f) = Some h \<Longrightarrow>
       unmarshal h = Some (file_header fs f) \<and> length h \<le> 2 ^ 10"
    "\<And>p. create p"
  shows "(\<exists>n'. (net_step i j)\<^sup>*\<^sup>* n n' \<and> quiet i j n')
    \<and> (quiet i j n \<longrightarrow> candKey (client (ends n i)) = Some k \<and> candKey (client (ends n j)) = Some k
         \<and> (\<exists>r st. after_open stats (prog (client (ends n i))) = Some (Inr r, [st]) \<and> st \<in> set ice_reports)
         \<and> (\<exists>r st. after_open stats (prog (client (ends n j))) = Some (Inr r, [st]) \<and> st \<in> set ice_reports))
    \<and> receive unmarshal create ''.'' None ms = (map (FileTransfer.arrives fs ''.'') files, None)"
proof -
  have len: "(0 :: int) \<le> 2" "pass \<noteq> []" using assms(15) by auto
  obtain slot where "code = wl_Encode slot pass" using assms(16) by (auto simp: printed_code_def)
  then have typed: "plain_args [typed]" using typed_code_plain[OF len(2)] assms(17) by blast
  have p: "p1 = newConn L sigserv '''' 2" "p2 = newConn L sigserv typed 2"
    using send_program[OF assms(1,5,6), of L] receive_program[OF assms(2) typed, of L] assms(3,4,8,9) by simp_all
  note net = commands_through[OF assms(10-14) len assms(16,17,7,18-22) assms(23)[unfolded p]]
  have "candKey (client (ends n i)) = Some k \<and> candKey (client (ends n j)) = Some k
         \<and> prog (client (ends n i)) = andthen await_open connected \<and> prog (client (ends n j)) = andthen await_open connected"
    if "quiet i j n"
    using net that by (auto simp: agreed_def)
  note waiting = this
  have "candKey (client (ends n i)) = Some k \<and> candKey (client (ends n j)) = Some k
         \<and> (\<exists>r st. after_open stats (prog (client (ends n i))) = Some (Inr r, [st]) \<and> st \<in> set ice_reports)
         \<and> (\<exists>r st. after_open stats (prog (client (ends n j))) = Some (Inr r, [st]) \<and> st \<in> set ice_reports)"
    if "quiet i j n"
    using waiting[OF that] by (simp add: connected_opens ice_reports_def)
  moreover have "receive unmarshal create ''.'' None ms = (map (FileTransfer.arrives fs ''.'') files, None)"
    by (rule sent_received[OF assms(24) _ assms(26)]) (rule assms(25))
  ultimately show ?thesis using net by blast
qed

lemma files_cross_witness:
  "\<exists>p1 p2 typed s n k.
     command_program plain_lib (\<lambda>_. None) [''send'', ''d/a'', ''b''] = Some p1
     \<and> command_program plain_lib (\<lambda>_. None) [''receive'', typed] = Some p2
     \<and> (net_step 0 1)\<^sup>*\<^sup>* (on_slot 0 (command_side p1 ''5'' 0 [[97, 98], replicate 24 1] [1, 2])
          (command_side p2 '''' 0 [replicate 24 2] [3]) s) n \<and> quiet 0 1 n
     \<and> candKey (client (ends n 0)) = Some k \<and> candKey (client (ends n 1)) = Some k
     \<and> (\<exists>r st. after_open [] (prog (client (ends n 0))) = Some (Inr r, [st]))
     \<and> receive short_unmarshal (\<lambda>_. True) ''.'' None [[2, 97], [1, 2], [0, 98]]
         = (map (FileTransfer.arrives two_files ''.'') [''d/a'', ''b''], None)"
proof -
  let ?sig = "''https://webwormhole.com''" and ?code = "wl_Encode 5 [97, 98]"
  have env: "LookupEnvOrBool (\<lambda>_. None) ''WW_VERBOSE'' False = Some False"
    "LookupEnvOrString (\<lambda>_. None) ''WW_SIGSERV'' ?sig = ?sig"
    by (simp_all add: LookupEnvOrBool_def LookupEnvOrString_def)
  have files: "plain_args [''d/a'', ''b'']" "[''d/a'', ''b''] \<noteq> []" by (simp_all add: plain_args_def)
  have code: "plain_args [?code]" by (rule typed_code_plain[of "[97, 98]" _ 5]) (simp_all add: list_all2_same)
  note progs = send_program[OF env(1) files, of plain_lib, unfolded env] receive_program[OF env(1) code, of plain_lib, unfolded env]
  have n: "length (replicate 24 (x :: byte)) = 24" "length [97, 98 :: byte] = 2" for x by simp_all
  have "Atoi ''5'' = Some 5" using Atoi_Itoa[of 5] by (simp add: Itoa_5)
  then have c: "printed_code [97, 98] ''5'' = Some ?code" by (simp add: printed_code_def)
  have ab: "string_of [97, 98] = ''ab''" by code_simp
  obtain tr s where s: "rrun no_slots tr s" "matched 0 1 s" using meeting_matched by blast
  have keys: "pake_keys plain_lib 0 0 (string_of [97, 98]) (string_of [97, 98]) = Some (97 # 98 # replicate 30 0, 97 # 98 # replicate 30 0)"
    unfolding ab by (rule plain_keys(1))
  let ?n = "on_slot 0 (command_side (newConn plain_lib ?sig '''' 2) ''5'' 0 [[97, 98], replicate 24 1] [1, 2])
       (command_side (newConn plain_lib ?sig ?code 2) '''' 0 [replicate 24 2] [3]) s"
  let ?k = "97 # 98 # replicate 30 0"
  have works: "(\<exists>n'. (net_step 0 1)\<^sup>*\<^sup>* n n' \<and> quiet 0 1 n')
     \<and> (quiet 0 1 n \<longrightarrow> candKey (client (ends n 0)) = Some ?k \<and> candKey (client (ends n 1)) = Some ?k
         \<and> (\<exists>r st. after_open [] (prog (client (ends n 0))) = Some (Inr r, [st]) \<and> st \<in> set ice_reports)
         \<and> (\<exists>r st. after_open [] (prog (client (ends n 1))) = Some (Inr r, [st]) \<and> st \<in> set ice_reports))
     \<and> receive short_unmarshal (\<lambda>_. True) ''.'' None [[2, 97], [1, 2], [0, 98]]
         = (map (FileTransfer.arrives two_files ''.'') [''d/a'', ''b''], None)" if "(net_step 0 1)\<^sup>*\<^sup>* ?n n" for n
    by (rule files_cross[OF env(1,1,2,2) files code_5(2) progs plain_lib_works plain_calls(4) slot_5 plain_calls(1,1) n(2)
      c code_5(1) keys n(1,1) s that two_files_sent]) (rule two_files_headers, assumption+, simp)
  obtain n where n': "(net_step 0 1)\<^sup>*\<^sup>* ?n n" "quiet 0 1 n" using works[OF rtranclp.rtrancl_refl] by blast
  show ?thesis using progs n' works[OF n'(1)] by blast
qed

end
