(* ===== verification/Pipe.thy ===== *)
theory Pipe
  imports Forwarding
begin

text \<open>
  \<open>ww pipe\<close>, \<open>src/cmd/ww/pipe.go\<close>, once it has its connection: one goroutine copies from the
  connection to standard output, one from standard input to the connection, and the program closes the
  connection and ends when the first of them is done. A copy that fails ends the program with status
  1; it may fail at any time.
\<close>

section \<open>Steps\<close>

text \<open>
  \<open>copy_of True\<close> is the copy to standard output. \<open>finished\<close> counts the copies that wait to send on
  \<open>done\<close>, \<open>woken\<close> tells that the program has received from it, \<open>status\<close> how it has ended.
\<close>
record pipe =
  copy_of :: "bool \<Rightarrow> copy_flow"
  finished :: nat
  woken :: bool
  conn_closed :: bool
  status :: "nat option"

definition new_pipe :: pipe where
  "new_pipe = \<lparr>copy_of = (\<lambda>_. new_flow), finished = 0, woken = False, conn_closed = False, status = None\<rparr>"

inductive pipe_step :: "pipe \<Rightarrow> pipe \<Rightarrow> bool" where
  pp_copy: "status s = None \<Longrightarrow> flow_step (conn_closed s \<and> \<not> b) (copy_of s b) f \<Longrightarrow> running f = running (copy_of s b)
    \<Longrightarrow> pipe_step s (s\<lparr>copy_of := (copy_of s)(b := f)\<rparr>)"
| pp_eof: "status s = None \<Longrightarrow> running (copy_of s b) \<Longrightarrow> held (copy_of s b) = [] \<Longrightarrow> unread (copy_of s b) = []
    \<Longrightarrow> ended (copy_of s b)
    \<Longrightarrow> pipe_step s (s\<lparr>copy_of := (copy_of s)(b := (copy_of s b)\<lparr>running := False\<rparr>), finished := finished s + 1\<rparr>)"
| pp_fail: "status s = None \<Longrightarrow> running (copy_of s b) \<Longrightarrow> pipe_step s (s\<lparr>status := Some 1\<rparr>)"
| pp_done: "status s = None \<Longrightarrow> finished s = Suc n \<Longrightarrow> \<not> woken s \<Longrightarrow> pipe_step s (s\<lparr>finished := n, woken := True\<rparr>)"
| pp_close: "status s = None \<Longrightarrow> woken s \<Longrightarrow> pipe_step s (s\<lparr>conn_closed := True\<rparr>)"
| pp_exit: "status s = None \<Longrightarrow> conn_closed s \<Longrightarrow> pipe_step s (s\<lparr>status := Some 0\<rparr>)"

inductive_cases pipe_stepE: "pipe_step s s'"

abbreviation pipe_run :: "pipe \<Rightarrow> pipe \<Rightarrow> bool" where
  "pipe_run \<equiv> pipe_step\<^sup>*\<^sup>*"

section \<open>The invariant\<close>

text \<open>A copy that has ended well has copied all its source will ever have sent.\<close>
definition complete :: "copy_flow \<Rightarrow> bool" where
  "complete f \<longleftrightarrow> \<not> running f \<and> ended f \<and> copied f = sent f"

definition pipe_ok :: "pipe \<Rightarrow> bool" where
  "pipe_ok s \<longleftrightarrow> (\<forall>b. flow_ok (copy_of s b)) \<and> (0 < finished s \<or> woken s \<longrightarrow> (\<exists>b. complete (copy_of s b)))
     \<and> (conn_closed s \<longrightarrow> woken s) \<and> (status s = Some 0 \<longrightarrow> woken s)"

lemma complete_stays: "flow_step c f f' \<Longrightarrow> complete f \<Longrightarrow> complete f'"
  by (erule flow_stepE) (auto simp: complete_def)

lemma pipe_step_ok:
  assumes "pipe_step s s'" "pipe_ok s"
  shows "pipe_ok s'"
  using assms(1)
proof cases
  case (pp_copy b f)
  have "flow_ok f" using flow_step_ok[OF pp_copy(3)] assms(2) by (simp add: pipe_ok_def)
  moreover have "\<exists>b'. complete (((copy_of s)(b := f)) b')" if c: "complete (copy_of s b')" for b'
  proof (cases "b' = b")
    case True
    then show ?thesis using complete_stays[OF pp_copy(3)] c by (intro exI[of _ b]) simp
  next
    case False
    then show ?thesis using c by (intro exI[of _ b']) simp
  qed
  ultimately have "(\<forall>b'. flow_ok (((copy_of s)(b := f)) b'))
      \<and> (0 < finished s \<or> woken s \<longrightarrow> (\<exists>b'. complete (((copy_of s)(b := f)) b')))"
    using assms(2) unfolding pipe_ok_def by (metis fun_upd_apply)
  then show ?thesis using assms(2) pp_copy(1) by (simp add: pipe_ok_def)
next
  case (pp_eof b)
  let ?f = "(copy_of s b)\<lparr>running := False\<rparr>"
  have ok: "flow_ok (copy_of s b)" using assms(2) by (simp add: pipe_ok_def)
  then have "complete ?f" using pp_eof by (simp add: complete_def flow_ok_def)
  then have "\<exists>b'. complete (((copy_of s)(b := ?f)) b')" by (intro exI[of _ b]) simp
  moreover have "\<forall>b'. flow_ok (((copy_of s)(b := ?f)) b')" using ok assms(2) by (simp add: flow_ok_def pipe_ok_def)
  ultimately show ?thesis using assms(2) pp_eof(1) by (simp add: pipe_ok_def)
qed (use assms(2) in \<open>auto simp: pipe_ok_def\<close>)

lemma pipe_run_ok: "pipe_run new_pipe s \<Longrightarrow> pipe_ok s"
proof (induction rule: rtranclp_induct)
  case base
  show ?case by (simp add: pipe_ok_def flow_ok_def new_pipe_def new_flow_def)
next
  case (step t u)
  then show ?case by (blast intro: pipe_step_ok)
qed

section \<open>Properties\<close>

text \<open>
  C40. \<open>ww pipe\<close> copies faithfully, and its success means something: what it has written in a direction
  is a prefix of what was sent, and when it ends with status 0, in one of the two directions everything
  was copied, to the end of the source.
\<close>
theorem pipe_copies:
  assumes "pipe_run new_pipe s"
  shows "prefix (copied (copy_of s b)) (sent (copy_of s b))
    \<and> (status s = Some 0 \<longrightarrow> (\<exists>d. ended (copy_of s d) \<and> copied (copy_of s d) = sent (copy_of s d)))"
  using pipe_run_ok[OF assms] by (auto simp: pipe_ok_def flow_ok_def complete_def)

text \<open>Standard input ends at once; what the peer has sent by then is not written any more.\<close>
definition cut_off :: pipe where
  "cut_off = \<lparr>copy_of = case_bool (new_flow\<lparr>sent := [2], unread := [2]\<rparr>) (new_flow\<lparr>ended := True, running := False\<rparr>),
     finished = 0, woken = True, conn_closed = True, status = Some 0\<rparr>"

lemma case_bool_upd:
  "(case_bool x y)(True := z) = case_bool z y" "(case_bool x y)(False := z) = case_bool x z" "(\<lambda>_. x) = case_bool x x"
  by (auto simp: fun_eq_iff split: bool.split)

lemma cut_off_run: "pipe_run new_pipe cut_off"
proof -
  let ?f = "new_flow\<lparr>sent := [2], unread := [2]\<rparr>"
  let ?s = "\<lambda>g n w c st. \<lparr>copy_of = case_bool ?f g, finished = n, woken = w, conn_closed = c, status = st\<rparr>"
  have "pipe_step new_pipe (?s new_flow 0 False False None)"
    using pp_copy[of new_pipe True ?f] f_send[of new_flow False "[2]"]
    by (simp add: new_pipe_def case_bool_upd) (simp add: new_flow_def)
  moreover have "pipe_step (?s new_flow 0 False False None) (?s (new_flow\<lparr>ended := True\<rparr>) 0 False False None)"
    using pp_copy[of "?s new_flow 0 False False None" False "new_flow\<lparr>ended := True\<rparr>"] f_end[of False new_flow]
    by (simp add: case_bool_upd)
  moreover have "pipe_step (?s (new_flow\<lparr>ended := True\<rparr>) 0 False False None)
      (?s (new_flow\<lparr>ended := True, running := False\<rparr>) 1 False False None)"
    using pp_eof[of "?s (new_flow\<lparr>ended := True\<rparr>) 0 False False None" False]
    by (simp add: case_bool_upd) (simp add: new_flow_def)
  moreover have "pipe_step (?s (new_flow\<lparr>ended := True, running := False\<rparr>) 1 False False None)
      (?s (new_flow\<lparr>ended := True, running := False\<rparr>) 0 True False None)"
    using pp_done[of "?s (new_flow\<lparr>ended := True, running := False\<rparr>) 1 False False None" 0] by simp
  moreover have "pipe_step (?s (new_flow\<lparr>ended := True, running := False\<rparr>) 0 True False None)
      (?s (new_flow\<lparr>ended := True, running := False\<rparr>) 0 True True None)"
    using pp_close[of "?s (new_flow\<lparr>ended := True, running := False\<rparr>) 0 True False None"] by simp
  moreover have "pipe_step (?s (new_flow\<lparr>ended := True, running := False\<rparr>) 0 True True None) cut_off"
    using pp_exit[of "?s (new_flow\<lparr>ended := True, running := False\<rparr>) 0 True True None"] by (simp add: cut_off_def)
  ultimately show ?thesis by (meson converse_rtranclp_into_rtranclp rtranclp.rtrancl_refl)
qed

lemma pipe_copies_witness:
  "pipe_run new_pipe cut_off \<and> status cut_off = Some 0 \<and> prefix (copied (copy_of cut_off True)) [2]
   \<and> (\<exists>d. ended (copy_of cut_off d) \<and> copied (copy_of cut_off d) = sent (copy_of cut_off d))"
  using pipe_copies[OF cut_off_run, of True] cut_off_run by (simp add: cut_off_def)

text \<open>
  \<open>ww pipe </dev/null\<close> receives nothing: the end of standard input ends the program, with status 0,
  whatever the peer still has to say.
\<close>
theorem pipe_drops_input:
  "\<exists>s. pipe_run new_pipe s \<and> status s = Some 0 \<and> sent (copy_of s True) = [2] \<and> copied (copy_of s True) = []
     \<and> (\<forall>s'. \<not> pipe_step s s')"
proof -
  have "\<not> pipe_step cut_off s'" for s' by (rule notI, erule pipe_stepE) (simp_all add: cut_off_def)
  then show ?thesis using cut_off_run by (intro exI[of _ cut_off]) (simp add: cut_off_def new_flow_def)
qed

end
