(* ===== verification/Tunnels.thy ===== *)
theory Tunnels
  imports Rendezvous
begin

text \<open>
  Two programs that make a tunnel with the \<open>Client\<close> of \<open>src/wormhole/client_ctx.go\<close>, through the
  server: one calls \<open>PrepareTunnel\<close>, shows the code and calls the function it was given, the other
  calls \<open>JoinTunnel\<close> with the code. Both have contexts, which are not done meanwhile. A run of them is a
  run of the programs without their contexts, with steps between that change nothing; so the outcome
  of \<open>New\<close> and \<open>Join\<close> is theirs.
\<close>

section \<open>A client without its context\<close>

definition erased :: "('d, 'c, 'r) side \<Rightarrow> ('d, 'c, 'r) side" where
  "erased c = c\<lparr>prog := uncancelled (prog c)\<rparr>"

lemma erased_simps [simp]:
  "prog (erased c) = uncancelled (prog c)" "inbox (erased c) = inbox c" "localDesc (erased c) = localDesc c"
  "remoteDesc (erased c) = remoteDesc c" "candKey (erased c) = candKey c"
  "erased (deliver ms c) = deliver ms (erased c)"
  by (simp_all add: erased_def deliver_def)

lemma erased_wrap: "erased (wrap f c) = wrap (\<lambda>r. uncancelled (f r)) (erased c)"
  by (simp add: erased_def wrap_def uncancelled_andthen)

lemma silent_uncancelled: "silent p \<Longrightarrow> silent (uncancelled p)"
  by (induction p) auto

lemma left_steps:
  "react a = Some (a', out) \<Longrightarrow> schedule bs (a', deliver out b) = Some q \<Longrightarrow> schedule (True # bs) (a, b) = Some q"
  by (simp add: left_step_def del: react.simps)

lemma right_steps:
  "react b = Some (b', out) \<Longrightarrow> schedule bs (deliver out a, b') = Some q \<Longrightarrow> schedule (False # bs) (a, b) = Some q"
  by (simp add: right_step_def del: react.simps)

text \<open>What the client without its context does, the client does after steps that change nothing.\<close>
inductive idles :: "('d, 'c, 'r) side \<Rightarrow> ('d, 'c, 'r) side \<Rightarrow> bool" where
  idle_done: "idles a a"
| idle_step: "react a = Some (a', []) \<Longrightarrow> erased a' = erased a \<Longrightarrow> idles a' a'' \<Longrightarrow> idles a a''"

lemma idles_erased: "idles a a' \<Longrightarrow> erased a' = erased a"
  by (induction rule: idles.induct) simp_all

lemma idles_left: "idles a a' \<Longrightarrow> schedule bs (a', b) = Some q \<Longrightarrow> \<exists>bs'. schedule bs' (a, b) = Some q"
proof (induction rule: idles.induct)
  case (idle_step a a' a'')
  then obtain bs' where "schedule bs' (a', b) = Some q" by blast
  then have "schedule bs' (a', deliver [] b) = Some q" by simp
  from left_steps[OF idle_step.hyps(1) this] show ?case by blast
qed blast

lemma idles_right: "idles b b' \<Longrightarrow> schedule bs (a, b') = Some q \<Longrightarrow> \<exists>bs'. schedule bs' (a, b) = Some q"
proof (induction rule: idles.induct)
  case (idle_step b b' b'')
  then obtain bs' where "schedule bs' (a, b') = Some q" by blast
  then have "schedule bs' (deliver [] a, b') = Some q" by simp
  from right_steps[OF idle_step.hyps(1) this] show ?case by blast
qed blast

text \<open>A client that has made all these steps.\<close>
definition plain_next :: "('d, 'c, 'r) side \<Rightarrow> bool" where
  "plain_next c \<longleftrightarrow> (case prog c of GoCloseWhenDone ctx st p \<Rightarrow> False | PollDone ctx k \<Rightarrow> False | _ \<Rightarrow> True)"

lemma plain_idles: "plain_next c \<Longrightarrow> \<exists>c'. idles c c' \<and> plain_next c'"
  by (blast intro: idle_done)

lemma idles_to_plain: "\<exists>c'. idles c c' \<and> plain_next c'"
proof (induction "prog c" arbitrary: c)
  case (GoCloseWhenDone ctx st p)
  have "react c = Some (c\<lparr>prog := p\<rparr>, [])" "erased (c\<lparr>prog := p\<rparr>) = erased c"
    using GoCloseWhenDone(2)[symmetric] by (simp_all add: erased_def)
  moreover obtain c' where "idles (c\<lparr>prog := p\<rparr>) c'" "plain_next c'"
    using GoCloseWhenDone(1)[where c = "c\<lparr>prog := p\<rparr>"] by auto
  ultimately show ?case by (blast intro: idle_step)
next
  case (PollDone ctx k)
  have "react c = Some (c\<lparr>prog := k False\<rparr>, [])" "erased (c\<lparr>prog := k False\<rparr>) = erased c"
    using PollDone(2)[symmetric] by (simp_all add: erased_def)
  moreover obtain c' where "idles (c\<lparr>prog := k False\<rparr>) c'" "plain_next c'"
    using PollDone(1)[where c = "c\<lparr>prog := k False\<rparr>"] by auto
  ultimately show ?case by (blast intro: idle_step)
qed (rule plain_idles, drule sym, simp add: plain_next_def)+

lemma react_erased:
  assumes "plain_next c" "react (erased c) = Some (x, out)"
  shows "\<exists>c'. react c = Some (c', out) \<and> erased c' = x"
  using assms by (auto simp: plain_next_def erased_def split: proc.splits list.splits)

lemma react_erased_none: "plain_next c \<Longrightarrow> react (erased c) = None \<Longrightarrow> react c = None"
  by (auto simp: plain_next_def erased_def split: proc.splits list.splits)

section \<open>Runs without contexts are runs\<close>

lemma schedule_erased:
  assumes "schedule bs (erased a, erased b) = Some q" "stuck q"
  shows "\<exists>bs' a' b'. schedule bs' (a, b) = Some (a', b') \<and> stuck (a', b') \<and> erased a' = fst q \<and> erased b' = snd q"
  using assms(1)
proof (induction bs arbitrary: a b)
  case Nil
  then have q: "q = (erased a, erased b)" by simp
  obtain a' b' where i: "idles a a'" "plain_next a'" "idles b b'" "plain_next b'" using idles_to_plain by meson
  note e = idles_erased[OF i(1)] idles_erased[OF i(3)]
  have st: "stuck (a', b')" using assms(2) i(2,4) react_erased_none[of a'] react_erased_none[of b'] e
    by (simp add: q stuck_def del: react.simps)
  have "schedule [] (a', b') = Some (a', b')" by simp
  from idles_right[OF i(3) this] obtain bs1 where "schedule bs1 (a', b) = Some (a', b')" by blast
  from idles_left[OF i(1) this] st e show ?case by (auto simp: q)
next
  case (Cons x bs)
  show ?case
  proof (cases x)
    case True
    with Cons.prems obtain c out where r: "react (erased a) = Some (c, out)" "schedule bs (c, deliver out (erased b)) = Some q"
      by (auto simp: left_step_def simp del: react.simps split: option.splits)
    obtain a1 where i: "idles a a1" "plain_next a1" using idles_to_plain by blast
    obtain a2 where s: "react a1 = Some (a2, out)" "erased a2 = c"
      using react_erased[OF i(2)] r(1) idles_erased[OF i(1)] by metis
    from Cons.IH[of a2 "deliver out b"] r(2) s(2) obtain bs' a' b' where
      d: "schedule bs' (a2, deliver out b) = Some (a', b')" "stuck (a', b')" "erased a' = fst q" "erased b' = snd q" by auto
    from idles_left[OF i(1) left_steps[OF s(1) d(1)]] d(2-4) show ?thesis by blast
  next
    case False
    with Cons.prems obtain c out where r: "react (erased b) = Some (c, out)" "schedule bs (deliver out (erased a), c) = Some q"
      by (auto simp: right_step_def simp del: react.simps split: option.splits)
    obtain b1 where i: "idles b b1" "plain_next b1" using idles_to_plain by blast
    obtain b2 where s: "react b1 = Some (b2, out)" "erased b2 = c"
      using react_erased[OF i(2)] r(1) idles_erased[OF i(1)] by metis
    from Cons.IH[of "deliver out a" b2] r(2) s(2) obtain bs' a' b' where
      d: "schedule bs' (deliver out a, b2) = Some (a', b')" "stuck (a', b')" "erased a' = fst q" "erased b' = snd q" by auto
    from idles_right[OF i(1) right_steps[OF s(1) d(1)]] d(2-4) show ?thesis by blast
  qed
qed

section \<open>The two programs\<close>

text \<open>\<open>PrepareTunnel\<close> and then the function it returns; the code, shown between the two, is the result.\<close>
definition make_tunnel :: "goctx \<Rightarrow> ('d, 'c) lib \<Rightarrow> string \<Rightarrow> ('d, 'c, dial_err + string) proc" where
  "make_tunnel ctx L SignalServer =
     attempt (PrepareTunnel ctx L SignalServer '''') (\<lambda>(code, go). attempt go (\<lambda>_. Return (Inr code)))"

text \<open>The same with \<open>NewTunnelCtx\<close>, for a code known before.\<close>
definition new_tunnel :: "goctx \<Rightarrow> ('d, 'c) lib \<Rightarrow> byte list \<Rightarrow> string \<Rightarrow> string \<Rightarrow> ('d, 'c, dial_err + string) proc" where
  "new_tunnel ctx L pass sigserv code = attempt (NewTunnelCtx ctx L (string_of pass) sigserv) (\<lambda>_. Return (Inr code))"

text \<open>What \<open>JoinTunnel\<close> does with the connection of \<open>JoinCtx\<close>.\<close>
definition tunnel_joined :: "string \<Rightarrow> dial_err + dial_err option \<Rightarrow> ('d, 'c, dial_err + string) proc" where
  "tunnel_joined code = (\<lambda>r. andthen (tunnel_over r) (\<lambda>t. orfail t (\<lambda>_. Return (Inr code))))"

lemma silent_tunnels: "silent (tunnel_over r)" "silent (tunnel_joined code r)"
  by (simp_all add: tunnel_joined_def tunnel_over_def orfail_def fail_def split: sum.split option.split)

lemma uncancelled_tunnels: "uncancelled (tunnel_over r) = tunnel_over r" "uncancelled (tunnel_joined code r) = tunnel_joined code r"
  by (simp_all add: tunnel_joined_def tunnel_over_def orfail_def fail_def split: sum.split option.split)

lemma joining:
  assumes "wl_Decode code = Some (slot, pass)"
  shows "Client_JoinTunnel ctx L SignalServer code =
     andthen (JoinCtx ctx L (Itoa slot) (string_of pass) (signalServer SignalServer)) (tunnel_joined code)"
  using assms by (simp add: Client_JoinTunnel_def JoinTunnelCtx_def attempt_def andthen_assoc tunnel_joined_def)

lemma joiner_erased:
  assumes "wl_Decode code = Some (slot, pass)"
  shows "erased (command_side (Client_JoinTunnel ctx L SignalServer code) ij sj [nj] answer) = wrap (tunnel_joined code)
     (join_side L (Itoa slot) (string_of pass) (signalServer SignalServer) [Inr ij] sj nj answer)"
  by (simp add: joining[OF assms] erased_def wrap_def command_side_def join_side_def uncancelled_andthen
      uncancelled_programs uncancelled_tunnels)

lemma owner_erased:
  "erased (command_side (new_tunnel ctx L pass sigserv code) io so [no] offer)
     = wrap (tunnel_joined code) (new_side L (string_of pass) sigserv [Inr io] so no offer)"
proof -
  have "new_tunnel ctx L pass sigserv code = andthen (NewCtx ctx L (string_of pass) sigserv) (tunnel_joined code)"
    by (simp add: new_tunnel_def NewTunnelCtx_def attempt_def andthen_assoc tunnel_joined_def)
  then show ?thesis
    by (simp add: erased_def wrap_def command_side_def new_side_def uncancelled_andthen
        uncancelled_programs uncancelled_tunnels)
qed

lemma agreed_stuck: "agreed k offer answer q \<Longrightarrow> stuck (wrap f (fst q), wrap g (snd q))"
  by (simp add: agreed_def stuck_def await_open_def)

text \<open>The client that has made its connection to the server, whichever of the two functions made it.\<close>
definition connecting :: "goctx \<Rightarrow> ('d, 'c) lib \<Rightarrow> byte list \<Rightarrow> string \<Rightarrow> nat \<Rightarrow> byte list list \<Rightarrow> 'd
    \<Rightarrow> ('d, 'c, dial_err + string) side" where
  "connecting ctx L pass code so rs offer =
     \<lparr>prog = attempt (connect ctx L pass) (\<lambda>_. Return (Inr code)), inbox = [], seed = so, nonces = rs, description = offer,
      localDesc = None, remoteDesc = None, candKey = None\<rparr>"

lemmas first_steps = command_side_def connecting_def left_step_def attempt_def proc_simps readInitMsgCtx_def
  newPeerConnection_def deliver_def numeral_eq_Suc

lemma prepared:
  assumes "url_Parse L (signalServer SignalServer) = Inr u" "init_Unmarshal L io = Inr (s, ice)" "Atoi s = Some slot"
  shows "schedule (replicate 6 True) (command_side (make_tunnel ctx L SignalServer) io so (pass # rs) offer, b)
       = Some (connecting ctx L pass (wl_Encode slot pass) so rs offer, b)"
    "\<exists>q. schedule (replicate 6 True) (command_side (PrepareTunnel ctx L SignalServer '''') io so (pass # rs) offer, b') = Some q
       \<and> prog (fst q) = Return (Inr (wl_Encode slot pass, connect ctx L pass))"
  by (simp_all add: make_tunnel_def PrepareTunnel_def signalWSURL_def assms first_steps)

lemma newly_connected:
  assumes "url_Parse L sigserv = Inr u" "init_Unmarshal L io = Inr (s, ice)"
  shows "schedule (replicate 6 True) (command_side (new_tunnel ctx L pass sigserv code) io so rs offer, b)
       = Some (connecting ctx L pass code so rs offer, b)"
  by (simp add: new_tunnel_def NewTunnelCtx_connect assms first_steps)

lemma closes_last_tunnels:
  "closes_last (make_tunnel ctx L SignalServer)" "closes_last (Client_JoinTunnel ctx L SignalServer code)"
proof -
  show "closes_last (make_tunnel ctx L SignalServer)"
    by (simp add: make_tunnel_def PrepareTunnel_def connect_def readEncJSONCtx_def writeEncJSONCtx_def readBase64Ctx_def
        writeBase64Ctx_def readInitMsgCtx_def await_openCtx_def tunnel_over_def client_programs
        split: sum.splits option.splits wake.splits)
  have "closes_last (JoinCtx ctx L slot pass sigserv)" for slot pass sigserv
    by (simp add: JoinCtx_def readEncJSONCtx_def writeEncJSONCtx_def readBase64Ctx_def
        writeBase64Ctx_def readInitMsgCtx_def await_openCtx_def client_programs
        split: sum.splits option.splits wake.splits)
  then show "closes_last (Client_JoinTunnel ctx L SignalServer code)"
  proof (cases "wl_Decode code")
    case (Some sp)
    with \<open>\<And>slot pass sigserv. closes_last (JoinCtx ctx L slot pass sigserv)\<close> show ?thesis
      by (cases sp) (simp add: joining closes_last_andthen silent_tunnels)
  qed (simp add: Client_JoinTunnel_def fail_def)
qed

lemma tunnels_decided:
  assumes "lib_works L" "url_Parse L (signalServer SignalServer) = Inr u"
    "init_Unmarshal L io = Inr (s, ice)" "init_Unmarshal L ij = Inr initj" "Atoi s = Some slot"
    "wl_Decode typed = Some (slot', pj)"
    "pake_keys L so sj (string_of pass) (string_of pj) = Some (k, k)" "length no = 24" "length nj = 24"
  shows "\<exists>bs a b q. schedule bs (command_side (make_tunnel ctx L SignalServer) io so [pass, no] offer,
      command_side (Client_JoinTunnel ctx' L SignalServer typed) ij sj [nj] answer) = Some (a, b) \<and> stuck (a, b)
    \<and> agreed k offer answer q \<and> erased a = wrap (tunnel_joined (wl_Encode slot pass)) (fst q)
    \<and> erased b = wrap (tunnel_joined typed) (snd q)"
proof -
  let ?code = "wl_Encode slot pass" and ?sigserv = "signalServer SignalServer"
  let ?a = "new_side L (string_of pass) ?sigserv [Inr io] so no offer"
    and ?b = "join_side L (Itoa slot') (string_of pj) ?sigserv [Inr ij] sj nj answer"
    and ?new = "command_side (new_tunnel ctx L pass ?sigserv ?code) io so [no] offer"
    and ?join = "command_side (Client_JoinTunnel ctx' L SignalServer typed) ij sj [nj] answer"
    and ?next = "connecting ctx L pass ?code so [no] offer"
  obtain n q where "(pair_step ^^ n) (?a, ?b) q" and st: "stuck q"
    using all_runs_end[OF assms(1-4,7,8,9), where m = 0] by (metis relpowp_0_I)
  then obtain bs where bs: "schedule bs (?a, ?b) = Some q" using run_schedule by blast
  have ag: "agreed k offer answer q"
    using same_keys_agree[OF assms(1-4,7-9) schedule_run[OF bs] st] .
  have "schedule bs (erased ?new, erased ?join) = Some (wrap (tunnel_joined ?code) (fst q), wrap (tunnel_joined typed) (snd q))"
    using bs by (cases q) (simp add: owner_erased joiner_erased[OF assms(6)] schedule_wrap)
  from schedule_erased[OF this agreed_stuck[OF ag]] obtain bs1 a b where
    r: "schedule bs1 (?new, ?join) = Some (a, b)" "stuck (a, b)" and
    e: "erased a = wrap (tunnel_joined ?code) (fst q)" "erased b = wrap (tunnel_joined typed) (snd q)" by auto
  have "(pair_step ^^ 6) (?new, ?join) (?next, ?join)"
    using schedule_run[OF newly_connected[OF assms(2,3)]] by simp
  from one_run_decides(2)[OF r this] obtain bs2 where bs2: "schedule bs2 (?next, ?join) = Some (a, b)"
    using run_schedule by blast
  have "schedule (replicate 6 True @ bs2) (command_side (make_tunnel ctx L SignalServer) io so [pass, no] offer, ?join) = Some (a, b)"
    unfolding schedule_append prepared(1)[OF assms(2,3,5)] by (simp add: bs2)
  then show ?thesis using r(2) ag e by blast
qed

lemma not_silent_joined: "uncancelled p = andthen await_open (tunnel_joined code) \<Longrightarrow> \<not> silent p"
proof
  assume p: "uncancelled p = andthen await_open (tunnel_joined code)" "silent p"
  from silent_uncancelled[OF p(2)] show False unfolding p(1) by (auto simp: await_open_def dest: spec[of _ After30s])
qed

section \<open>Properties\<close>

text \<open>
  C3. Two programs get their tunnel: one calls \<open>PrepareTunnel\<close> without a code, shows the code it is given
  and calls the function, the other calls \<open>JoinTunnel\<close> with the code, in any case and with any
  separators. Once the server has matched the two, whatever else it does, they get to the point where
  nothing is left to do as long as their contexts are not done, and at every such point both wait
  for the data channel with one key and each other's description.
\<close>
theorem tunnels_meet:
  assumes "lib_works L" "url_Parse L (signalServer SignalServer) = Inr u" "freeslot taken_slots rnd = Some s"
    "init_Unmarshal L io = Inr (s, ice)" "init_Unmarshal L ij = Inr initj" "Atoi s = Some slot" "length pass = 2"
    "typed_as typed (wl_Encode slot pass)"
    "pake_keys L so sj (string_of pass) (string_of pass) = Some (k, k)" "length no = 24" "length nj = 24"
    "rrun no_slots tr srv0" "matched i j srv0"
    "(net_step i j)\<^sup>*\<^sup>* (on_slot i (command_side (make_tunnel ctx L SignalServer) io so [pass, no] offer)
       (command_side (Client_JoinTunnel ctx' L SignalServer typed) ij sj [nj] answer) srv0) n"
  shows "(\<exists>q. schedule (replicate 6 True) (command_side (PrepareTunnel ctx L SignalServer '''') io so [pass, no] offer, peer) = Some q
       \<and> prog (fst q) = Return (Inr (wl_Encode slot pass, connect ctx L pass)))
    \<and> (\<exists>n'. (net_step i j)\<^sup>*\<^sup>* n n' \<and> quiet i j n')
    \<and> (quiet i j n \<longrightarrow> (\<exists>q. agreed k offer answer q
         \<and> erased (client (ends n i)) = wrap (tunnel_joined (wl_Encode slot pass)) (fst q)
         \<and> erased (client (ends n j)) = wrap (tunnel_joined typed) (snd q)))"
proof -
  let ?a = "command_side (make_tunnel ctx L SignalServer) io so [pass, no] offer"
    and ?b = "command_side (Client_JoinTunnel ctx' L SignalServer typed) ij sj [nj] answer"
  have "pass \<noteq> []" using assms(7) by auto
  then have dec: "wl_Decode typed = Some (slot, pass)" using assms(8) by (rule code_decodes)
  obtain bs a b q where r: "schedule bs (?a, ?b) = Some (a, b)" "stuck (a, b)" "agreed k offer answer q"
    "erased a = wrap (tunnel_joined (wl_Encode slot pass)) (fst q)" "erased b = wrap (tunnel_joined typed) (snd q)"
    using tunnels_decided[OF assms(1,2,4,5,6) dec assms(9-11)] by blast
  have cl: "closes_last (prog ?a)" "closes_last (prog ?b)" by (simp_all add: command_side_def closes_last_tunnels)
  have few: "\<forall>m p. (pair_step ^^ m) (?a, ?b) p \<longrightarrow> m \<le> length bs"
    using one_run_decides(1)[OF r(1,2)] by blast
  note net = through_server[OF assms(12,13) cl assms(14) few]
  have "client (ends n i) = a \<and> client (ends n j) = b" if qu: "quiet i j n"
  proof -
    from net(2)[OF qu] obtain m p where p: "(pair_step ^^ m) (?a, ?b) p" "stuck p"
      "silent (prog (fst p)) \<or> fst p = client (ends n i)" "silent (prog (snd p)) \<or> snd p = client (ends n j)" by blast
    have "p = (a, b)" by (rule one_run_decides(3)[OF r(1,2) p(1,2)])
    moreover have "uncancelled (prog a) = andthen await_open (tunnel_joined (wl_Encode slot pass))"
      "uncancelled (prog b) = andthen await_open (tunnel_joined typed)"
      using arg_cong[OF r(4), of prog] arg_cong[OF r(5), of prog] r(3) by (simp_all add: agreed_def)
    ultimately show ?thesis using p(3,4) not_silent_joined by auto
  qed
  then show ?thesis using net(1) r(3-5) prepared(2)[OF assms(2,4,6)] by blast
qed

lemma tunnels_meet_witness:
  "\<exists>s n k typed. (net_step 0 1)\<^sup>*\<^sup>* (on_slot 0
       (command_side (make_tunnel (Ctx 1) plain_lib ''//s'') ''5'' 0 [[97, 98], replicate 24 1] [1, 2])
       (command_side (Client_JoinTunnel (Ctx 2) plain_lib ''//s'' typed) '''' 0 [replicate 24 2] [3]) s) n \<and> quiet 0 1 n
     \<and> (\<exists>q. agreed k [1, 2] [3] q \<and> erased (client (ends n 0)) = wrap (tunnel_joined typed) (fst q)
         \<and> erased (client (ends n 1)) = wrap (tunnel_joined typed) (snd q))"
proof -
  have n: "length (replicate 24 (x :: byte)) = 24" for x by simp
  have a: "Atoi ''5'' = Some 5" using Atoi_Itoa[of 5] by (simp add: Itoa_5)
  have ab: "string_of [97, 98] = ''ab''" by code_simp
  have keys: "pake_keys plain_lib 0 0 (string_of [97, 98]) (string_of [97, 98]) = Some (97 # 98 # replicate 30 0, 97 # 98 # replicate 30 0)"
    unfolding ab by (rule plain_keys(1))
  obtain tr s where s: "rrun no_slots tr s" "matched 0 1 s" using meeting_matched by blast
  have p: "length [97, 98 :: byte] = 2" by simp
  note works = tunnels_meet[OF plain_lib_works plain_calls(4) slot_5 plain_calls(1,1) a p code_5(1) keys n n s,
    where offer = "[1, 2]" and answer = "[3]" and ctx = "Ctx 1" and ctx' = "Ctx 2" and SignalServer = "''//s''"]
  let ?n = "on_slot 0 (command_side (make_tunnel (Ctx 1) plain_lib ''//s'') ''5'' 0 [[97, 98], replicate 24 1] [1, 2])
       (command_side (Client_JoinTunnel (Ctx 2) plain_lib ''//s'' (wl_Encode 5 [97, 98])) '''' 0 [replicate 24 2] [3]) s"
  obtain n' where n': "(net_step 0 1)\<^sup>*\<^sup>* ?n n'" "quiet 0 1 n'" using works[OF rtranclp.rtrancl_refl] by blast
  show ?thesis using works[OF n'(1)] n' by blast
qed

end
