(* ===== verification/Writing.thy ===== *)
theory Writing
  imports Prelude
begin

text \<open>
  Writing to the data channel, \<open>Write\<close> and \<open>flushed\<close> of \<open>src/wormhole/dial.go\<close>: a writer waits on a
  condition variable while the channel buffers more than its threshold, and the callback WebRTC calls
  when the amount falls to the threshold signals it. A step relation interleaves the writers, the
  callbacks and the draining of the channel; \<open>Wait\<close> puts its caller on the list of the condition
  before it releases the lock, as Go documents it, and \<open>Signal\<close> wakes the one that waits longest.
\<close>

section \<open>State\<close>

definition threshold :: nat where "threshold = 512 * 1024"

text \<open>Where a call of \<open>Write\<close> is, with its argument: \<open>Asleep\<close> in \<open>Wait\<close>, \<open>Woken\<close> before it has the lock again.\<close>
datatype wphase =
    Ready
  | Locking "byte list"
  | Testing "byte list"
  | Asleep "byte list"
  | Woken "byte list"
  | Unlocking "byte list"
  | Sending "byte list"

text \<open>Where a call of \<open>flushed\<close> is.\<close>
datatype cphase = CLock | CSignal | CUnlock

record dchan =
  BufferedAmount :: nat
  locked :: bool
  writers :: "wphase list"
  notify :: "nat list"
  callbacks :: "cphase list"

definition idle_channel :: "nat \<Rightarrow> dchan" where
  "idle_channel n = \<lparr>BufferedAmount = 0, locked = False, writers = replicate n Ready, notify = [], callbacks = []\<rparr>"

section \<open>Steps\<close>

text \<open>One step of writer \<open>i\<close>; \<open>taken\<close> tells whether the channel accepts the message.\<close>
definition Write_step :: "bool \<Rightarrow> nat \<Rightarrow> dchan \<Rightarrow> dchan option" where
  "Write_step taken i c = (let at = (\<lambda>u. (writers c)[i := u]) in
     if length (writers c) \<le> i then None else
     case writers c ! i of
       Ready \<Rightarrow> None
     | Locking p \<Rightarrow> if locked c then None else Some (c\<lparr>locked := True, writers := at (Testing p)\<rparr>)
     | Testing p \<Rightarrow>
         if threshold < BufferedAmount c
         then Some (c\<lparr>locked := False, writers := at (Asleep p), notify := notify c @ [i]\<rparr>)
         else Some (c\<lparr>writers := at (Unlocking p)\<rparr>)
     | Asleep p \<Rightarrow> None
     | Woken p \<Rightarrow> if locked c then None else Some (c\<lparr>locked := True, writers := at (Testing p)\<rparr>)
     | Unlocking p \<Rightarrow> Some (c\<lparr>locked := False, writers := at (Sending p)\<rparr>)
     | Sending p \<Rightarrow>
         Some (c\<lparr>writers := at Ready, BufferedAmount := BufferedAmount c + (if taken then length p else 0)\<rparr>))"

definition wake_up :: "wphase \<Rightarrow> wphase" where
  "wake_up u = (case u of Asleep p \<Rightarrow> Woken p | _ \<Rightarrow> u)"

definition Signal :: "dchan \<Rightarrow> dchan" where
  "Signal c = (case notify c of
     [] \<Rightarrow> c
   | i # js \<Rightarrow> c\<lparr>notify := js, writers := (writers c)[i := wake_up (writers c ! i)]\<rparr>)"

definition flushed_step :: "nat \<Rightarrow> dchan \<Rightarrow> dchan option" where
  "flushed_step k c =
     (if length (callbacks c) \<le> k then None else
      case callbacks c ! k of
        CLock \<Rightarrow> if locked c then None else Some (c\<lparr>locked := True, callbacks := (callbacks c)[k := CSignal]\<rparr>)
      | CSignal \<Rightarrow> Some (Signal (c\<lparr>callbacks := (callbacks c)[k := CUnlock]\<rparr>))
      | CUnlock \<Rightarrow> Some (c\<lparr>locked := False, callbacks := take k (callbacks c) @ drop (Suc k) (callbacks c)\<rparr>))"

text \<open>The channel sends \<open>n\<close> bytes, and calls back when that takes the amount to the threshold.\<close>
definition drain :: "nat \<Rightarrow> dchan \<Rightarrow> dchan" where
  "drain n c = c\<lparr>BufferedAmount := BufferedAmount c - n,
     callbacks := callbacks c @
       (if threshold < BufferedAmount c \<and> BufferedAmount c - n \<le> threshold then [CLock] else [])\<rparr>"

definition call_Write :: "nat \<Rightarrow> byte list \<Rightarrow> dchan \<Rightarrow> dchan" where
  "call_Write i p c = c\<lparr>writers := (writers c)[i := Locking p]\<rparr>"

text \<open>Every message has at most \<open>m\<close> bytes.\<close>
inductive w_step :: "nat \<Rightarrow> dchan \<Rightarrow> dchan \<Rightarrow> bool" for m where
  w_call: "i < length (writers c) \<Longrightarrow> writers c ! i = Ready \<Longrightarrow> length p \<le> m \<Longrightarrow> w_step m c (call_Write i p c)"
| w_write: "Write_step taken i c = Some c' \<Longrightarrow> w_step m c c'"
| w_flushed: "flushed_step k c = Some c' \<Longrightarrow> w_step m c c'"
| w_drain: "w_step m c (drain n c)"

text \<open>Neither a writer nor a callback can go on.\<close>
definition at_rest :: "dchan \<Rightarrow> bool" where
  "at_rest c \<longleftrightarrow> list_all (\<lambda>i. Write_step True i c = None) [0..<length (writers c)]
     \<and> list_all (\<lambda>k. flushed_step k c = None) [0..<length (callbacks c)]"

section \<open>Invariants\<close>

text \<open>What one thread contributes: to the holders of the lock, and to the bytes the channel is about to get.\<close>
definition holds :: "wphase \<Rightarrow> nat" where
  "holds u = (case u of Testing p \<Rightarrow> 1 | Unlocking p \<Rightarrow> 1 | _ \<Rightarrow> 0)"

definition cholds :: "cphase \<Rightarrow> nat" where
  "cholds u = (if u = CLock then 0 else 1)"

definition pending :: "wphase \<Rightarrow> nat" where
  "pending u = (case u of Unlocking p \<Rightarrow> length p | Sending p \<Rightarrow> length p | _ \<Rightarrow> 0)"

definition payload :: "wphase \<Rightarrow> byte list" where
  "payload u = (case u of Ready \<Rightarrow> [] | Locking p \<Rightarrow> p | Testing p \<Rightarrow> p | Asleep p \<Rightarrow> p | Woken p \<Rightarrow> p
     | Unlocking p \<Rightarrow> p | Sending p \<Rightarrow> p)"

definition total :: "('a \<Rightarrow> nat) \<Rightarrow> 'a list \<Rightarrow> nat" where
  "total f xs = sum_list (map f xs)"

lemma total_simps [simp]: "total f [] = 0" "total f (x # xs) = f x + total f xs"
  "total f (xs @ ys) = total f xs + total f ys"
  by (simp_all add: total_def)

lemma total_split: "i < length xs \<Longrightarrow> total f xs = f (xs ! i) + total f (take i xs @ drop (Suc i) xs)"
  by (subst id_take_nth_drop[of i xs]) simp_all

lemma total_update: "i < length xs \<Longrightarrow> total f (xs[i := u]) + f (xs ! i) = total f xs + f u"
  by (simp add: upd_conv_take_nth_drop) (simp add: total_split[of i xs])

lemma total_le: "(\<And>x. x \<in> set xs \<Longrightarrow> f x \<le> m) \<Longrightarrow> total f xs \<le> length xs * m"
  by (induction xs) (auto simp: add_mono)

definition lock_inv :: "dchan \<Rightarrow> bool" where
  "lock_inv c \<longleftrightarrow> total holds (writers c) + total cholds (callbacks c) = of_bool (locked c)"

definition size_inv :: "nat \<Rightarrow> dchan \<Rightarrow> bool" where
  "size_inv m c \<longleftrightarrow> (\<forall>u \<in> set (writers c). length (payload u) \<le> m)
     \<and> BufferedAmount c + total pending (writers c) \<le> threshold + length (writers c) * m"

lemma pending_payload: "pending u \<le> length (payload u)"
  by (cases u) (simp_all add: pending_def payload_def)

text \<open>A step changes one writer and nothing else of the writers.\<close>
lemma Write_stepE:
  assumes "Write_step taken i c = Some c'"
  obtains u where "i < length (writers c)" "writers c' = (writers c)[i := u]" "callbacks c' = callbacks c"
    "holds u + of_bool (locked c) = holds (writers c ! i) + of_bool (locked c')
     \<or> holds (writers c ! i) = 1 \<and> holds u = 0 \<and> \<not> locked c'"
    "length (payload u) \<le> length (payload (writers c ! i))"
    "BufferedAmount c' + pending u \<le> BufferedAmount c + pending (writers c ! i)
     \<or> BufferedAmount c' \<le> threshold \<and> BufferedAmount c' = BufferedAmount c"
  using assms
  by (auto simp: Write_step_def Let_def holds_def pending_def payload_def split: if_splits wphase.splits)

lemma flushed_stepE:
  assumes "flushed_step k c = Some c'"
  obtains (lock) "callbacks c ! k = CLock" "\<not> locked c" "k < length (callbacks c)"
      "c' = c\<lparr>locked := True, callbacks := (callbacks c)[k := CSignal]\<rparr>"
    | (signal) "callbacks c ! k = CSignal" "k < length (callbacks c)"
      "c' = Signal (c\<lparr>callbacks := (callbacks c)[k := CUnlock]\<rparr>)"
    | (unlock) "callbacks c ! k = CUnlock" "k < length (callbacks c)"
      "c' = c\<lparr>locked := False, callbacks := take k (callbacks c) @ drop (Suc k) (callbacks c)\<rparr>"
  using assms by (auto simp: flushed_step_def split: if_splits cphase.splits)

lemma Signal_same [simp]:
  "locked (Signal c) = locked c" "BufferedAmount (Signal c) = BufferedAmount c" "callbacks (Signal c) = callbacks c"
  "length (writers (Signal c)) = length (writers c)"
  by (simp_all add: Signal_def split: list.split)

text \<open>Waking a writer leaves its message and its use of the lock as they are.\<close>
lemma Signal_total:
  assumes "\<And>p. f (Woken p) = f (Asleep p)"
  shows "total f (writers (Signal c)) = total f (writers c)"
proof (cases "notify c")
  case (Cons i js)
  show ?thesis
  proof (cases "i < length (writers c)")
    case True
    have "f (wake_up (writers c ! i)) = f (writers c ! i)"
      using assms by (cases "writers c ! i") (simp_all add: wake_up_def)
    then show ?thesis using total_update[OF True, of f "wake_up (writers c ! i)"] Cons by (simp add: Signal_def)
  qed (use Cons in \<open>simp add: Signal_def list_update_beyond\<close>)
qed (simp add: Signal_def)

lemma Signal_payload: "u \<in> set (writers (Signal c)) \<Longrightarrow> \<exists>u' \<in> set (writers c). payload u' = payload u"
proof (cases "notify c")
  case (Cons i js)
  assume "u \<in> set (writers (Signal c))"
  then have "u \<in> set (writers c) \<or> i < length (writers c) \<and> u = wake_up (writers c ! i)"
    using Cons set_update_subset_insert[of "writers c" i]
    by (cases "i < length (writers c)") (auto simp: Signal_def list_update_beyond)
  moreover have "payload (wake_up w) = payload w" for w
    by (cases w) (simp_all add: payload_def wake_up_def)
  ultimately show ?thesis by (metis nth_mem)
qed (auto simp: Signal_def)

lemma lock_step:
  assumes "w_step m c c'" "lock_inv c"
  shows "lock_inv c'"
  using assms(1)
proof cases
  case (w_call i p)
  then have "holds (writers c ! i) = holds (Locking p)" by (simp add: holds_def)
  then show ?thesis using assms(2) w_call total_update[OF w_call(2), of holds "Locking p"]
    by (simp add: lock_inv_def call_Write_def)
next
  case (w_write taken i)
  from w_write obtain u where u: "i < length (writers c)" "writers c' = (writers c)[i := u]" "callbacks c' = callbacks c"
    "holds u + of_bool (locked c) = holds (writers c ! i) + of_bool (locked c')
     \<or> holds (writers c ! i) = 1 \<and> holds u = 0 \<and> \<not> locked c'" by (rule Write_stepE)
  have "holds (writers c ! i) \<le> total holds (writers c)" using total_split[OF u(1), of holds] by simp
  then show ?thesis using assms(2) u total_update[OF u(1), of holds u]
    by (auto simp: lock_inv_def of_bool_def split: if_splits)
next
  case (w_flushed k)
  from w_flushed show ?thesis
  proof (cases rule: flushed_stepE)
    case lock
    then show ?thesis using assms(2) total_update[OF lock(3), of cholds CSignal]
      by (simp add: lock_inv_def cholds_def)
  next
    case signal
    have "total holds (writers (Signal d)) = total holds (writers d)" for d by (rule Signal_total) (simp add: holds_def)
    then show ?thesis using assms(2) signal total_update[OF signal(2), of cholds CUnlock]
      by (simp add: lock_inv_def cholds_def)
  next
    case unlock
    then show ?thesis using assms(2) total_split[OF unlock(2), of cholds]
      by (auto simp: lock_inv_def cholds_def of_bool_def split: if_splits)
  qed
qed (use assms(2) in \<open>simp add: lock_inv_def drain_def cholds_def\<close>)

lemma size_step:
  assumes "w_step m c c'" "size_inv m c"
  shows "size_inv m c' \<and> length (writers c') = length (writers c)"
  using assms(1)
proof cases
  case (w_call i p)
  then have "pending (writers c ! i) = pending (Locking p)" by (simp add: pending_def)
  then show ?thesis using assms(2) w_call total_update[OF w_call(2), of pending "Locking p"]
    by (auto simp: size_inv_def call_Write_def payload_def[of "Locking p"] dest!: set_update_subset_insert[THEN subsetD])
next
  case (w_write taken i)
  from w_write obtain u where u: "i < length (writers c)" "writers c' = (writers c)[i := u]"
    "length (payload u) \<le> length (payload (writers c ! i))"
    "BufferedAmount c' + pending u \<le> BufferedAmount c + pending (writers c ! i)
     \<or> BufferedAmount c' \<le> threshold \<and> BufferedAmount c' = BufferedAmount c" by (rule Write_stepE)
  have "length (payload (writers c ! i)) \<le> m" using assms(2) nth_mem[OF u(1)] unfolding size_inv_def by blast
  then have pl: "\<forall>x \<in> set (writers c'). length (payload x) \<le> m"
    using assms(2) u(2,3) unfolding size_inv_def by (auto dest!: set_update_subset_insert[THEN subsetD])
  then have "total pending (writers c') \<le> length (writers c') * m"
    by (intro total_le) (meson order_trans pending_payload)
  then show ?thesis using assms(2) pl u total_update[OF u(1), of pending u] by (auto simp: size_inv_def)
next
  case (w_flushed k)
  have t: "total pending (writers (Signal d)) = total pending (writers d)" for d by (rule Signal_total) (simp add: pending_def)
  from w_flushed show ?thesis
  proof (cases rule: flushed_stepE)
    case signal
    then show ?thesis using assms(2) t by (fastforce simp: size_inv_def dest: Signal_payload)
  qed (use assms(2) in \<open>simp_all add: size_inv_def\<close>)
qed (use assms(2) in \<open>auto simp: size_inv_def drain_def\<close>)

text \<open>
  With one writer: it is on the list exactly when it is asleep, and when there is room again for an
  asleep writer, a callback that will signal is on its way.
\<close>
definition asleep :: "wphase \<Rightarrow> bool" where
  "asleep u = (case u of Asleep p \<Rightarrow> True | _ \<Rightarrow> False)"

definition sleep_inv :: "dchan \<Rightarrow> bool" where
  "sleep_inv c \<longleftrightarrow> length (writers c) = 1 \<and> notify c = (if asleep (writers c ! 0) then [0] else [])
     \<and> (asleep (writers c ! 0) \<and> BufferedAmount c \<le> threshold \<longrightarrow>
          CLock \<in> set (callbacks c) \<or> CSignal \<in> set (callbacks c))"

lemma asleep_simps [simp]:
  "asleep (Asleep p)" "\<not> asleep Ready" "\<not> asleep (Locking p)" "\<not> asleep (Testing p)" "\<not> asleep (Woken p)"
  "\<not> asleep (Unlocking p)" "\<not> asleep (Sending p)" "\<not> asleep (wake_up u)"
  by (simp_all add: asleep_def wake_up_def split: wphase.split)

lemma sleep_step:
  assumes "w_step m c c'" "sleep_inv c"
  shows "sleep_inv c'"
proof -
  have w: "length (writers c) = 1" "notify c = (if asleep (writers c ! 0) then [0] else [])"
    "asleep (writers c ! 0) \<Longrightarrow> BufferedAmount c \<le> threshold \<Longrightarrow> CLock \<in> set (callbacks c) \<or> CSignal \<in> set (callbacks c)"
    using assms(2) unfolding sleep_inv_def by blast+
  from assms(1) show ?thesis
  proof cases
    case (w_call i p)
    then show ?thesis using w by (auto simp: sleep_inv_def call_Write_def)
  next
    case (w_write taken i)
    have "i = 0" using w_write w(1) by (auto simp: Write_step_def Let_def split: if_splits)
    then show ?thesis using w_write w
      by (auto simp: sleep_inv_def Write_step_def Let_def split: if_splits wphase.splits)
  next
    case (w_flushed k)
    from w_flushed show ?thesis
    proof (cases rule: flushed_stepE)
      case lock
      then have "CSignal \<in> set (callbacks c')" by (simp add: set_update_memI)
      then show ?thesis using w lock(4) by (auto simp: sleep_inv_def)
    next
      case signal
      then show ?thesis using w by (auto simp: sleep_inv_def Signal_def)
    next
      case unlock
      have "x \<in> set (callbacks c')" if "x \<in> set (callbacks c)" "x \<noteq> CUnlock" for x
      proof -
        have "callbacks c = take k (callbacks c) @ CUnlock # drop (Suc k) (callbacks c)"
          using unlock(1,2) by (metis id_take_nth_drop)
        then have "x \<in> set (take k (callbacks c) @ CUnlock # drop (Suc k) (callbacks c))" using that(1) by simp
        then show ?thesis using that(2) unlock(3) by auto
      qed
      then show ?thesis using w unlock(3) by (auto simp: sleep_inv_def)
    qed
  next
    case (w_drain n)
    then show ?thesis using w by (cases "threshold < BufferedAmount c") (auto simp: sleep_inv_def drain_def)
  qed
qed

text \<open>What the threads have left to do, when the channel neither drains nor gets new calls.\<close>
definition wcost :: "wphase \<Rightarrow> nat" where
  "wcost u = (case u of Locking p \<Rightarrow> 4 | Woken p \<Rightarrow> 4 | Testing p \<Rightarrow> 3 | Unlocking p \<Rightarrow> 2 | Sending p \<Rightarrow> 1 | _ \<Rightarrow> 0)"

definition ccost :: "cphase \<Rightarrow> nat" where
  "ccost u = (case u of CLock \<Rightarrow> 7 | CSignal \<Rightarrow> 6 | CUnlock \<Rightarrow> 1)"

definition left_to_do :: "dchan \<Rightarrow> nat" where
  "left_to_do c = total wcost (writers c) + total ccost (callbacks c)"

definition own_step :: "dchan \<Rightarrow> dchan \<Rightarrow> bool" where
  "own_step c c' \<longleftrightarrow> (\<exists>taken i. Write_step taken i c = Some c') \<or> (\<exists>k. flushed_step k c = Some c')"

lemma own_step_w: "own_step c c' \<Longrightarrow> w_step m c c'"
  by (auto simp: own_step_def intro: w_write w_flushed)

lemma own_step_less:
  assumes "own_step c c'"
  shows "left_to_do c' < left_to_do c"
  using assms unfolding own_step_def
proof (elim disjE exE)
  fix taken i assume a: "Write_step taken i c = Some c'"
  then have i: "i < length (writers c)" by (auto simp: Write_step_def Let_def split: if_splits)
  obtain u where u: "writers c' = (writers c)[i := u]" "wcost u < wcost (writers c ! i)" "callbacks c' = callbacks c"
    using a i by (auto simp: wcost_def Write_step_def Let_def split: if_splits wphase.splits)
  then show ?thesis using total_update[OF i, of wcost u] by (simp add: left_to_do_def)
next
  fix k assume "flushed_step k c = Some c'"
  then show ?thesis
  proof (cases rule: flushed_stepE)
    case lock
    then show ?thesis using total_update[OF lock(3), of ccost CSignal] by (simp add: left_to_do_def ccost_def)
  next
    case signal
    have "total wcost (writers (Signal d)) \<le> total wcost (writers d) + 4" for d
    proof (cases "notify d")
      case (Cons i js)
      have "wcost (wake_up u) \<le> wcost u + 4" for u by (cases u) (simp_all add: wake_up_def wcost_def)
      from this[of "writers d ! i"] Cons show ?thesis
        using total_update[of i "writers d" wcost "wake_up (writers d ! i)"]
        by (cases "i < length (writers d)") (simp_all add: Signal_def list_update_beyond)
    qed (simp add: Signal_def)
    from this[of "c\<lparr>callbacks := (callbacks c)[k := CUnlock]\<rparr>"]
    show ?thesis using signal total_update[OF signal(2), of ccost CUnlock] by (simp add: left_to_do_def ccost_def)
  next
    case unlock
    then show ?thesis using total_split[OF unlock(2), of ccost] by (simp add: left_to_do_def ccost_def)
  qed
qed

lemma own_steps_few: "(own_step ^^ k) c c' \<Longrightarrow> k + left_to_do c' \<le> left_to_do c"
proof (induction k arbitrary: c')
  case (Suc k)
  then obtain d where "(own_step ^^ k) c d" "own_step d c'" by auto
  then show ?case using Suc.IH[of d] own_step_less[of d c'] by simp
qed simp

lemma reached:
  assumes "(w_step m)\<^sup>*\<^sup>* (idle_channel n) c"
  shows "lock_inv c" "size_inv m c" "length (writers c) = n" "n = 1 \<Longrightarrow> sleep_inv c"
proof -
  have "lock_inv c \<and> size_inv m c \<and> length (writers c) = n \<and> (n = 1 \<longrightarrow> sleep_inv c)"
    using assms
  proof (induction rule: rtranclp_induct)
    case base
    have "total f (replicate n Ready) = n * f Ready" for f by (induction n) simp_all
    then show ?case
      by (auto simp: idle_channel_def lock_inv_def size_inv_def sleep_inv_def holds_def pending_def payload_def)
  next
    case (step c c')
    then show ?case using lock_step[of m c c'] size_step[of m c c'] sleep_step[of m c c'] by auto
  qed
  then show "lock_inv c" "size_inv m c" "length (writers c) = n" "n = 1 \<Longrightarrow> sleep_inv c" by blast+
qed

lemma Write_step_None:
  "Write_step True i c = None \<longleftrightarrow> length (writers c) \<le> i \<or> writers c ! i = Ready \<or> asleep (writers c ! i)
     \<or> locked c \<and> holds (writers c ! i) = 0 \<and> pending (writers c ! i) = 0 \<and> (\<forall>p. writers c ! i \<noteq> Sending p)"
  by (cases "writers c ! i") (auto simp: Write_step_def Let_def holds_def pending_def)

lemma flushed_step_None: "flushed_step k c = None \<longleftrightarrow> length (callbacks c) \<le> k \<or> callbacks c ! k = CLock \<and> locked c"
  by (cases "callbacks c ! k") (auto simp: flushed_step_def)

text \<open>Who holds the lock can go on; without it everyone can.\<close>
lemma at_rest_sleeps:
  assumes "at_rest c" "lock_inv c"
  shows "callbacks c = []" "w \<in> set (writers c) \<Longrightarrow> w = Ready \<or> asleep w"
proof -
  have w: "u = Ready \<or> asleep u \<or> locked c \<and> holds u = 0" if mem: "u \<in> set (writers c)" for u
  proof -
    obtain i where "i < length (writers c)" "u = writers c ! i" using mem by (auto simp: in_set_conv_nth)
    then show ?thesis using assms(1) by (auto simp: at_rest_def list_all_iff Write_step_None)
  qed
  have f: "u = CLock \<and> locked c" if mem: "u \<in> set (callbacks c)" for u
  proof -
    obtain k where "k < length (callbacks c)" "u = callbacks c ! k" using mem by (auto simp: in_set_conv_nth)
    then show ?thesis using assms(1) by (auto simp: at_rest_def list_all_iff flushed_step_None)
  qed
  have "holds u = 0" if "u = Ready \<or> asleep u" for u using that by (cases u) (auto simp: holds_def)
  then have "total holds (writers c) = 0" "total cholds (callbacks c) = 0"
    using w f by (auto simp: total_def cholds_def)
  then have un: "\<not> locked c" using assms(2) by (simp add: lock_inv_def of_bool_def split: if_splits)
  then show "callbacks c = []" using f by (cases "callbacks c") auto
  show "w \<in> set (writers c) \<Longrightarrow> w = Ready \<or> asleep w" using w un by blast
qed

section \<open>Runs from a schedule\<close>

datatype wmove = MCall nat "byte list" | MWrite nat | MFlushed nat | MDrain nat

definition do_wmove :: "wmove \<Rightarrow> dchan \<Rightarrow> dchan option" where
  "do_wmove mv c = (case mv of
     MCall i p \<Rightarrow> if i < length (writers c) \<and> writers c ! i = Ready then Some (call_Write i p c) else None
   | MWrite i \<Rightarrow> Write_step True i c
   | MFlushed k \<Rightarrow> flushed_step k c
   | MDrain n \<Rightarrow> Some (drain n c))"

primrec wplay :: "wmove list \<Rightarrow> dchan \<Rightarrow> dchan option" where
  "wplay [] c = Some c"
| "wplay (mv # mvs) c = (case do_wmove mv c of None \<Rightarrow> None | Some c' \<Rightarrow> wplay mvs c')"

definition moves_within :: "nat \<Rightarrow> wmove list \<Rightarrow> bool" where
  "moves_within m mvs \<longleftrightarrow> list_all (\<lambda>mv. case mv of MCall i p \<Rightarrow> length p \<le> m | _ \<Rightarrow> True) mvs"

lemma wplay_run: "wplay mvs c = Some c' \<Longrightarrow> moves_within m mvs \<Longrightarrow> (w_step m)\<^sup>*\<^sup>* c c'"
proof (induction mvs arbitrary: c)
  case (Cons mv mvs)
  then obtain d where d: "do_wmove mv c = Some d" "wplay mvs d = Some c'" by (auto split: option.splits)
  have "w_step m c d"
    using d(1) Cons.prems(2) by (cases mv) (auto simp: do_wmove_def moves_within_def split: if_splits intro: w_step.intros)
  with Cons.IH[OF d(2)] Cons.prems(2) show ?case
    by (simp add: moves_within_def converse_rtranclp_into_rtranclp)
qed simp

lemma threshold_pos: "0 < threshold"
  by (simp add: threshold_def)

text \<open>A whole call of one writer that finds room.\<close>
definition one_call :: "nat \<Rightarrow> byte list \<Rightarrow> wmove list" where
  "one_call i p = [MCall i p, MWrite i, MWrite i, MWrite i, MWrite i]"

lemmas play_simps = do_wmove_def Write_step_def flushed_step_def Signal_def wake_up_def drain_def call_Write_def
  one_call_def idle_channel_def Let_def at_rest_def moves_within_def

section \<open>Properties\<close>



text \<open>
  The channel's buffer is bounded: with \<open>n\<close> writers of messages of at most \<open>m\<close> bytes it never
  holds more than the threshold and one message of each.
\<close>
theorem buffer_bounded:
  assumes "(w_step m)\<^sup>*\<^sup>* (idle_channel n) c"
  shows "BufferedAmount c \<le> threshold + n * m"
  using reached(2,3)[OF assms] by (simp add: size_inv_def)

lemma buffer_bounded_witness:
  "\<exists>c. (w_step 2)\<^sup>*\<^sup>* (idle_channel 1) c \<and> BufferedAmount c = 2 \<and> BufferedAmount c \<le> threshold + 1 * 2"
proof -
  have "case wplay (one_call 0 [7, 8]) (idle_channel 1) of None \<Rightarrow> False | Some c \<Rightarrow> BufferedAmount c = 2"
    by (simp add: play_simps upt_rec threshold_def)
  then obtain c where c: "wplay (one_call 0 [7, 8]) (idle_channel 1) = Some c" "BufferedAmount c = 2"
    by (auto split: option.splits)
  have run: "(w_step 2)\<^sup>*\<^sup>* (idle_channel 1) c"
    by (rule wplay_run[OF c(1)]) (simp add: one_call_def moves_within_def)
  from buffer_bounded[OF run] run c(2) show ?thesis by blast
qed

text \<open>
  Two concurrent writers are one too many: \<open>flushed\<close> signals one of them, and when what that one writes
  stays below the threshold nothing ever calls back for the other, asleep beside an empty channel.
\<close>
theorem second_writer_forgotten:
  "\<exists>m c q. (w_step m)\<^sup>*\<^sup>* (idle_channel 2) c \<and> at_rest c \<and> BufferedAmount c = 0 \<and> writers c = [Ready, Asleep q]"
proof -
  obtain p :: "byte list" where p: "length p = threshold + 1" using Ex_list_of_length by blast
  let ?ms = "one_call 0 p @ [MCall 0 [7], MWrite 0, MWrite 0, MCall 1 [8], MWrite 1, MWrite 1, MDrain (threshold + 1),
     MFlushed 0, MFlushed 0, MFlushed 0, MWrite 0, MWrite 0, MWrite 0, MWrite 0, MDrain 1]"
  have "\<exists>c. wplay ?ms (idle_channel 2) = Some c \<and> at_rest c \<and> BufferedAmount c = 0 \<and> writers c = [Ready, Asleep [8]]"
    by (simp add: play_simps p numeral_2_eq_2 upt_rec threshold_pos)
  then obtain c where c: "wplay ?ms (idle_channel 2) = Some c" "at_rest c" "BufferedAmount c = 0"
    "writers c = [Ready, Asleep [8]]" by blast
  have "moves_within (threshold + 1) ?ms" by (simp add: moves_within_def one_call_def p)
  from wplay_run[OF c(1) this] c(2-4) show ?thesis by blast
qed

end
