(* ===== verification/Serving.thy ===== *)
theory Serving
  imports Commands
begin

text \<open>
  What the listeners of \<open>server\<close>, \<open>src/cmd/ww/server.go\<close>, answer: the site and the relay over TLS, or
  in clear text when there is no HTTPS listener; otherwise the clear-text listener only redirects. The
  challenges of Let's Encrypt, which \<open>autocert\<close> answers before either, are the parameter \<open>acme\<close>.
\<close>

section \<open>Servers\<close>

text \<open>Times in seconds; the suites are for TLS 1.2, the lowest version that is accepted.\<close>
record http_server =
  ReadTimeout :: nat
  WriteTimeout :: nat
  IdleTimeout :: nat
  Addr :: string
  CipherSuites :: "string list option"

definition tls_suites :: "string list" where
  "tls_suites =
     [''TLS_ECDHE_ECDSA_WITH_AES_128_GCM_SHA256'', ''TLS_ECDHE_RSA_WITH_AES_128_GCM_SHA256'',
      ''TLS_ECDHE_ECDSA_WITH_AES_256_GCM_SHA384'', ''TLS_ECDHE_RSA_WITH_AES_256_GCM_SHA384'',
      ''TLS_ECDHE_ECDSA_WITH_CHACHA20_POLY1305'', ''TLS_ECDHE_RSA_WITH_CHACHA20_POLY1305'']"

definition ssrv :: "string \<Rightarrow> http_server" where
  "ssrv httpsaddr = \<lparr>ReadTimeout = 10, WriteTimeout = 60 * 60, IdleTimeout = 20, Addr = httpsaddr,
     CipherSuites = Some tls_suites\<rparr>"

definition plain_srv :: "string \<Rightarrow> http_server" where
  "plain_srv httpaddr = \<lparr>ReadTimeout = 10, WriteTimeout = 60 * 60, IdleTimeout = 20, Addr = httpaddr,
     CipherSuites = None\<rparr>"

text \<open>The server of a listener; that of the debug address is the library's default.\<close>
definition server_of :: "listener \<Rightarrow> http_server option" where
  "server_of l = (case l of
     Debug a \<Rightarrow> None
   | Https a auto \<Rightarrow> Some (ssrv a)
   | Http a redirect \<Rightarrow> Some (plain_srv a))"

section \<open>Answers\<close>

datatype answer = Site reply | RedirectToHttps | Challenge | MetricsPage | NoPage

definition answers :: "(request \<Rightarrow> bool) \<Rightarrow> flags \<Rightarrow> listener \<Rightarrow> request \<Rightarrow> answer" where
  "answers acme vs l r =
     (let site = Site (handler (string_flag vs ''hosts'') (string_flag vs ''https'') r) in
      case l of
        Debug a \<Rightarrow> if Path r = ''/metrics'' then MetricsPage else NoPage
      | Https a auto \<Rightarrow> site
      | Http a redirect \<Rightarrow> if acme r then Challenge else if redirect then RedirectToHttps else site)"

section \<open>Properties\<close>

lemma handler_hsts:
  "handler hosts httpsaddr r = Serve hdrs page \<Longrightarrow>
     (\<exists>v. (''Strict-Transport-Security'', v) \<in> set hdrs) = (httpsaddr \<noteq> '''')"
  by (auto simp: handler_def Let_def split: if_splits)

text \<open>
  C20. With an HTTPS address, neither the site nor the relay is ever served in clear text, and every page
  asks the browser to keep to HTTPS; without one no page does.
\<close>
theorem site_over_tls:
  assumes "l \<in> set (listeners vs)" "answers acme vs l r = Site rep"
  shows "(string_flag vs ''https'' \<noteq> '''') = (\<exists>srv. server_of l = Some srv \<and> CipherSuites srv \<noteq> None)
    \<and> (\<forall>hdrs page. rep = Serve hdrs page \<longrightarrow>
        (\<exists>v. (''Strict-Transport-Security'', v) \<in> set hdrs) = (string_flag vs ''https'' \<noteq> ''''))"
proof -
  have rep: "rep = handler (string_flag vs ''hosts'') (string_flag vs ''https'') r"
    using assms(2) by (simp add: answers_def Let_def split: listener.splits if_splits)
  have "(string_flag vs ''https'' \<noteq> '''') = (\<exists>srv. server_of l = Some srv \<and> CipherSuites srv \<noteq> None)"
    using assms by (auto simp: listeners_def Let_def answers_def server_of_def ssrv_def plain_srv_def split: if_splits)
  then show ?thesis using handler_hsts[of "string_flag vs ''hosts''" "string_flag vs ''https''" r] rep by metis
qed

lemma site_over_tls_witness:
  "answers (\<lambda>_. False) (server_flags ''h'') (Https '':https'' True) \<lparr>Upgrade = '''', Host = ''x'', Path = ''/'', GoGet = ''''\<rparr>
     = Site (handler '''' '':https'' \<lparr>Upgrade = '''', Host = ''x'', Path = ''/'', GoGet = ''''\<rparr>)
   \<and> (\<exists>srv. server_of (Https '':https'' True) = Some srv \<and> CipherSuites srv \<noteq> None)"
proof -
  have l: "Https '':https'' True \<in> set (listeners (server_flags ''h''))"
    by (simp add: listeners_def server_flags_def string_flag_def)
  have a: "answers (\<lambda>_. False) (server_flags ''h'') (Https '':https'' True) \<lparr>Upgrade = '''', Host = ''x'', Path = ''/'', GoGet = ''''\<rparr>
     = Site (handler '''' '':https'' \<lparr>Upgrade = '''', Host = ''x'', Path = ''/'', GoGet = ''''\<rparr>)"
    by (simp add: answers_def server_flags_def string_flag_def)
  from site_over_tls[OF l a] a show ?thesis by (simp add: server_flags_def string_flag_def)
qed

end
