(* ===== verification/Metrics.thy ===== *)
theory Metrics
  imports Relay
begin

text \<open>
  The metrics of the signalling server, \<open>src/cmd/ww/server.go\<close>: what each step of the relay adds to the
  counters, and what the numbers then say. The gauge \<open>busy_slots\<close> is a field of the server's state.
\<close>

section \<open>Counters\<close>

record metrics =
  rendezvous_attempts :: "string \<Rightarrow> nat"
  webrtc_attempts :: "string \<times> string \<Rightarrow> nat"
  protocol_errors :: "string \<Rightarrow> nat"

definition no_metrics :: metrics where
  "no_metrics = \<lparr>rendezvous_attempts = (\<lambda>_. 0), webrtc_attempts = (\<lambda>_. 0), protocol_errors = (\<lambda>_. 0)\<rparr>"

definition inc :: "'l \<Rightarrow> ('l \<Rightarrow> nat) \<Rightarrow> 'l \<Rightarrow> nat" where
  "inc l f = f(l := f l + 1)"

definition count_rendezvous :: "string \<Rightarrow> metrics \<Rightarrow> metrics" where
  "count_rendezvous l m = m\<lparr>rendezvous_attempts := inc l (rendezvous_attempts m)\<rparr>"

definition count_error :: "string \<Rightarrow> metrics \<Rightarrow> metrics" where
  "count_error l m = m\<lparr>protocol_errors := inc l (protocol_errors m)\<rparr>"

section \<open>What is counted\<close>

definition arrive_counts :: "bool \<Rightarrow> metrics \<Rightarrow> metrics" where
  "arrive_counts right_protocol m = (if right_protocol then m else count_error ''wrongversion'' m)"

text \<open>
  The goroutine of connection \<open>j\<close>, on the step with the event \<open>e\<close>; of those that time out only an owner
  is counted.
\<close>
definition setup_counts :: "nat \<Rightarrow> revent \<Rightarrow> server \<Rightarrow> metrics \<Rightarrow> metrics" where
  "setup_counts j e s m =
     (case phase (hs s ! j) of
        SStart \<Rightarrow>
          if e = CloseConn j CloseNoMoreSlots then count_rendezvous ''nomoreslots'' m
          else if e = CloseConn j CloseNoSuchSlot then count_rendezvous ''nosuchslot'' m
          else m
      | SWait \<Rightarrow> count_rendezvous ''timeout'' m
      | _ \<Rightarrow> m)"

text \<open>A joiner that has sent its connection and an owner that has received one are done.\<close>
definition meet_counts :: "nat \<Rightarrow> nat \<Rightarrow> server \<Rightarrow> metrics \<Rightarrow> metrics" where
  "meet_counts i j s m =
     (let m = (if phase (hs s ! i) = SWait then m else count_rendezvous ''success'' m)
      in if phase (hs s ! j) = SGot then count_rendezvous ''success'' m else m)"

definition ice_label :: "nat option \<Rightarrow> string \<times> string" where
  "ice_label status =
     (if status = Some CloseBadKey then (''fail'', ''badkey'')
      else if status = Some CloseWebRTCFailed then (''fail'', ''unknown'')
      else if status = Some CloseWebRTCSuccess then (''success'', ''unknown'')
      else if status = Some CloseWebRTCSuccessDirect then (''success'', ''direct'')
      else if status = Some CloseWebRTCSuccessRelay then (''success'', ''relay'')
      else (''unknown'', ''unknown''))"

definition read_counts :: "rd \<Rightarrow> metrics \<Rightarrow> metrics" where
  "read_counts r m = (case r of
     Inl e \<Rightarrow> m\<lparr>webrtc_attempts := inc (ice_label (CloseStatus e)) (webrtc_attempts m)\<rparr>
   | Inr p \<Rightarrow> m)"

text \<open>A request that is no WebSocket.\<close>
definition page_counts :: "reply \<Rightarrow> metrics \<Rightarrow> metrics" where
  "page_counts rep m = (case rep of Serve hdrs ServiceWorkerPage \<Rightarrow> count_error ''serviceworkererr'' m | _ \<Rightarrow> m)"

text \<open>The steps of the relay with their counts, and pages served in between.\<close>
inductive mstep :: "server \<times> metrics \<Rightarrow> server \<times> metrics \<Rightarrow> bool" where
  m_arrive: "arrive ok key s = (e, s') \<Longrightarrow> mstep (s, m) (s', arrive_counts ok m)"
| m_setup: "j < length (hs s) \<Longrightarrow> (e, s') \<in> set (setup_steps rnd j s) \<Longrightarrow> mstep (s, m) (s', setup_counts j e s m)"
| m_meet: "i \<noteq> j \<Longrightarrow> sends_on sc i s \<Longrightarrow> receives_on sc j s \<Longrightarrow> mstep (s, m) (meet sc i j s, meet_counts i j s m)"
| m_read: "j < length (hs s) \<Longrightarrow> reading (hs s ! j) \<Longrightarrow> on_read j r wrote s = (e, s')
    \<Longrightarrow> mstep (s, m) (s', read_counts r m)"
| m_expire: "j < length (hs s) \<Longrightarrow> mstep (s, m) (set_h j ((hs s ! j)\<lparr>ctx_done := True\<rparr>) s, m)"
| m_page: "mstep (s, m) (s, page_counts rep m)"

inductive_cases mstepE: "mstep (s, m) (s', m')"

abbreviation counted :: "server \<Rightarrow> metrics \<Rightarrow> bool" where
  "counted s m \<equiv> mstep\<^sup>*\<^sup>* (no_slots, no_metrics) (s, m)"

text \<open>Counting changes nothing else: a counted run is a run of the relay, and every run can be counted.\<close>
lemma mstep_rstep: "mstep (s, m) (s', m') \<Longrightarrow> s' = s \<or> (\<exists>e. rstep s e s')"
  by (erule mstepE) (blast intro: rstep.intros)+

lemma rstep_mstep: "rstep s e s' \<Longrightarrow> \<exists>m'. mstep (s, m) (s', m')"
  by (erule rstep_E) (blast intro: mstep.intros)+

lemma counted_run: "counted s m \<Longrightarrow> \<exists>tr. rrun no_slots tr s"
proof (induction "(s, m)" arbitrary: s m rule: rtranclp_induct)
  case base
  then show ?case using rrun_nil by blast
next
  case (step y)
  obtain t n where y: "y = (t, n)" by fastforce
  then obtain tr where "rrun no_slots tr t" using step(3) by blast
  with mstep_rstep[of t n s m] step(2) y show ?case by (blast intro: rrun_snoc)
qed

lemma run_counted: "rrun s0 tr s \<Longrightarrow> s0 = no_slots \<Longrightarrow> \<exists>m. counted s m"
proof (induction rule: rrun.induct)
  case (rrun_snoc s0 tr s' e s'')
  then obtain m where "counted s' m" by blast
  with rstep_mstep[OF rrun_snoc.hyps(2), of m] show ?case by (blast intro: rtranclp.rtrancl_into_rtrancl)
qed blast

section \<open>What the numbers are of\<close>

text \<open>Connections that are paired with one that is paired with them.\<close>
definition paired_up :: "server \<Rightarrow> nat set" where
  "paired_up s = {j. \<exists>k. C_of s j = Some k \<and> C_of s k = Some j}"

text \<open>Connections whose rendezvous goroutine has ended, and those whose loop has.\<close>
definition set_up :: "server \<Rightarrow> nat set" where
  "set_up s = {j. P_of s j = Some SEnd}"

definition hung_up :: "server \<Rightarrow> nat set" where
  "hung_up s = {j. j < length (hs s) \<and> \<not> reading (hs s ! j)}"

text \<open>The connections whose slots can be joined.\<close>
definition bookers :: "server \<Rightarrow> nat set" where
  "bookers s = {j. \<exists>k. map_of (slots s) k = Some j}"

definition rendezvous_total :: "metrics \<Rightarrow> nat" where
  "rendezvous_total m = sum (rendezvous_attempts m) {''success'', ''timeout'', ''nosuchslot'', ''nomoreslots''}"

definition webrtc_total :: "metrics \<Rightarrow> nat" where
  "webrtc_total m = sum (webrtc_attempts m)
     {(''fail'', ''badkey''), (''fail'', ''unknown''), (''success'', ''unknown''), (''success'', ''direct''),
      (''success'', ''relay''), (''unknown'', ''unknown'')}"

lemma finite_of: "finite (paired_up s)" "finite (set_up s)" "finite (hung_up s)"
proof -
  have "paired_up s \<subseteq> {..<length (hs s)}" "set_up s \<subseteq> {..<length (hs s)}" "hung_up s \<subseteq> {..<length (hs s)}"
    by (auto simp: paired_up_def set_up_def hung_up_def C_of_def P_of_def split: if_splits)
  then show "finite (paired_up s)" "finite (set_up s)" "finite (hung_up s)"
    by (auto intro: finite_subset)
qed

lemma count_simps [simp]:
  "rendezvous_total (count_rendezvous l m) = rendezvous_total m + (if l \<in> {''success'', ''timeout'', ''nosuchslot'', ''nomoreslots''} then 1 else 0)"
  "rendezvous_attempts (count_rendezvous l m) ''success'' = rendezvous_attempts m ''success'' + (if l = ''success'' then 1 else 0)"
  "webrtc_total (count_rendezvous l m) = webrtc_total m"
  "rendezvous_total (count_error l m) = rendezvous_total m"
  "rendezvous_attempts (count_error l m) = rendezvous_attempts m" "webrtc_total (count_error l m) = webrtc_total m"
  by (auto simp: count_rendezvous_def count_error_def rendezvous_total_def webrtc_total_def inc_def)

lemma read_counts_simps:
  "rendezvous_total (read_counts r m) = rendezvous_total m"
  "rendezvous_attempts (read_counts r m) = rendezvous_attempts m"
  "webrtc_total (read_counts r m) = webrtc_total m + (if isl r then 1 else 0)"
  by (auto simp: read_counts_def rendezvous_total_def webrtc_total_def inc_def ice_label_def split: sum.split)

lemma bookers_gauge:
  assumes "server_ok s"
  shows "slotsGuage s = card (bookers s)" "j \<in> bookers s \<Longrightarrow> P_of s j = Some SAnnounce \<or> P_of s j = Some SWait"
proof -
  have inv: "slots_inv (P_of s) (K_of s) (map_of (slots s))" and d: "distinct (map fst (slots s))"
    "slotsGuage s = length (slots s)" using assms by (simp_all add: server_ok_def core_def)
  have "inj_on snd (set (slots s))"
  proof (rule inj_onI)
    fix x y assume "x \<in> set (slots s)" "y \<in> set (slots s)" "snd x = snd y"
    moreover from this have "map_of (slots s) (fst x) = Some (snd x)" "map_of (slots s) (fst y) = Some (snd y)"
      using d(1) by (metis map_of_eq_Some_iff prod.collapse)+
    ultimately show "x = y" using slots_invD(1)[OF inv, of "fst x"] slots_invD(1)[OF inv, of "fst y"]
      by (simp add: prod_eq_iff)
  qed
  moreover have "bookers s = snd ` set (slots s)"
    using d(1) by (force simp: bookers_def)
  moreover have "card (set (slots s)) = length (slots s)" using d(1) by (metis distinct_card distinct_map)
  ultimately show "slotsGuage s = card (bookers s)" using d(2) by (simp add: card_image)
  show "j \<in> bookers s \<Longrightarrow> P_of s j = Some SAnnounce \<or> P_of s j = Some SWait"
    using slots_invD(2)[OF inv] by (auto simp: bookers_def)
qed

section \<open>The invariant\<close>

definition metrics_ok :: "server \<Rightarrow> metrics \<Rightarrow> bool" where
  "metrics_ok s m \<longleftrightarrow> server_ok s \<and> rendezvous_attempts m ''success'' = card (paired_up s)
     \<and> rendezvous_total m \<le> card (set_up s) \<and> webrtc_total m \<le> card (hung_up s)"

lemma card_le: "finite B \<Longrightarrow> A \<subseteq> B \<Longrightarrow> n \<le> card A \<Longrightarrow> n \<le> card B"
  by (meson card_mono le_trans)

lemma card_more: "finite B \<Longrightarrow> A \<subseteq> B \<Longrightarrow> j \<in> B \<Longrightarrow> j \<notin> A \<Longrightarrow> n \<le> card A \<Longrightarrow> n + 1 \<le> card B"
  by (metis Suc_eq_plus1 card_seteq less_le_not_le not_less_eq_eq psubset_card_mono psubsetI Suc_le_mono le_trans)

lemma hung_up_simps [simp]:
  "j < length (hs s) \<Longrightarrow> reading h = reading (hs s ! j) \<Longrightarrow> hung_up (set_h j h s) = hung_up s"
  "hung_up (set_slots sl s) = hung_up s" "hung_up (unslot key s) = hung_up s"
  by (auto simp: hung_up_def set_h_def nth_list_update)

text \<open>What a step of the goroutine does to the sets.\<close>
lemma setup_phases:
  assumes "j < length (hs s)" "(e, s') \<in> set (setup_steps rnd j s)"
  shows "\<exists>u. P_of s' = (P_of s)(j \<mapsto> u) \<and> P_of s j \<noteq> Some SEnd
      \<and> (setup_counts j e s m = m \<or> u = SEnd \<and> (\<exists>l. l \<noteq> ''success'' \<and> setup_counts j e s m = count_rendezvous l m))"
    "hung_up s' = hung_up s"
proof -
  have ended: "\<exists>l. l \<noteq> ''success'' \<and> count_rendezvous ''timeout'' m = count_rendezvous l m"
    "\<exists>l. l \<noteq> ''success'' \<and> count_rendezvous ''nosuchslot'' m = count_rendezvous l m"
    "\<exists>l. l \<noteq> ''success'' \<and> count_rendezvous ''nomoreslots'' m = count_rendezvous l m"
    by (rule exI, rule conjI[OF _ refl], simp)+
  show "\<exists>u. P_of s' = (P_of s)(j \<mapsto> u) \<and> P_of s j \<noteq> Some SEnd
      \<and> (setup_counts j e s m = m \<or> u = SEnd \<and> (\<exists>l. l \<noteq> ''success'' \<and> setup_counts j e s m = count_rendezvous l m))"
    using assms ended
    by (auto simp: setup_steps_def book_def join_def announce_def wait_done_def join_announce_def join_wait_done_def
        set_h_core at_core setup_counts_def split: rphase.splits if_splits option.splits)
  show "hung_up s' = hung_up s"
    using assms
    by (auto simp: setup_steps_def book_def join_def announce_def wait_done_def join_announce_def join_wait_done_def
        split: rphase.splits if_splits option.splits)
qed

text \<open>A meeting is that of an owner with its joiner, in one direction or the other.\<close>
lemma meet_kind:
  assumes "server_ok s" "i \<noteq> j" "sends_on sc i s" "receives_on sc j s"
  obtains (owner) "phase (hs s ! i) = SWait" "phase (hs s ! j) = JWait i" "C_of s i = None"
    | (joiner) "phase (hs s ! i) = JSend j" "phase (hs s ! j) = SGot" "C_of s i = Some j"
proof -
  have c: "core (P_of s) (C_of s) (K_of s) (map_of (slots s))" using assms(1) by (simp add: server_ok_def)
  then have inv: "pairs_inv (P_of s) (C_of s)" "joins_inv (P_of s) (map_of (slots s))" by (simp_all add: core_def)
  have len: "i < length (hs s)" "j < length (hs s)" using assms by (simp_all add: sends_on_def receives_on_def)
  consider (1) "phase (hs s ! i) = SWait" "phase (hs s ! j) = JWait i"
    | (2) "phase (hs s ! i) = JSend j" "phase (hs s ! j) = SGot"
    | (3) "phase (hs s ! i) = JSend sc" "phase (hs s ! j) = JWait sc"
    using assms by (auto simp: sends_on_def receives_on_def)
  then show ?thesis
  proof cases
    case 1
    then have "C_of s i = None" using pairs_inv_out(1)[OF inv(1), of i] len by (simp add: at_core)
    then show ?thesis using owner 1 by blast
  next
    case 2
    then have p: "P_of s i = Some (JSend j)" "P_of s j = Some SGot" using len by (simp_all add: at_core)
    then obtain k where k: "C_of s k = Some j" using inv(1) unfolding pairs_inv_def by blast
    then have "P_of s k = Some (JSend j)" using inv(1) p(2) unfolding pairs_inv_def by fastforce
    then have "k = i" using joins_invD(3)[OF inv(2), of i j k] p(1) by simp
    then show ?thesis using joiner 2 k by blast
  next
    case 3
    then show ?thesis using core_no_joiners_meet[OF c assms(2), of sc] len by (simp add: at_core)
  qed
qed

lemma mutual_upd:
  fixes C :: "nat \<Rightarrow> nat option"
  assumes "C j = None" "i \<noteq> j"
  defines "mutual \<equiv> \<lambda>C x. \<exists>k. C x = Some k \<and> C k = Some x"
  shows "C i = None \<Longrightarrow> mutual (C(j \<mapsto> i)) x = mutual C x"
    "C i = Some j \<Longrightarrow> mutual (C(j \<mapsto> i)) x = (x = i \<or> x = j \<or> mutual C x)"
proof -
  show "C i = None \<Longrightarrow> mutual (C(j \<mapsto> i)) x = mutual C x"
    using assms(1,2) unfolding mutual_def by (cases "x = j"; cases "C x"; cases "C x = Some j") auto
  show "C i = Some j \<Longrightarrow> mutual (C(j \<mapsto> i)) x = (x = i \<or> x = j \<or> mutual C x)"
    using assms(1,2) unfolding mutual_def by (cases "x = j"; cases "C x"; cases "C x = Some j") auto
qed

lemma meet_metrics:
  assumes ok: "metrics_ok s m" and m: "i \<noteq> j" "sends_on sc i s" "receives_on sc j s"
  shows "metrics_ok (meet sc i j s) (meet_counts i j s m)"
proof -
  have sok: "server_ok s" and old: "rendezvous_attempts m ''success'' = card (paired_up s)"
    "rendezvous_total m \<le> card (set_up s)" "webrtc_total m \<le> card (hung_up s)"
    using ok by (simp_all add: metrics_ok_def)
  note mo = meet_ok[OF sok m]
  let ?s = "meet sc i j s"
  have len: "i < length (hs s)" "j < length (hs s)" using m by (simp_all add: sends_on_def receives_on_def)
  have P: "P_of ?s = (P_of s)(i \<mapsto> phase (after_send (hs s ! i)), j \<mapsto> phase (after_receive sc i (hs s ! j)))"
    using len m(1) by (auto simp: meet_def P_of_def after_send_def after_receive_def set_h_def nth_list_update fun_eq_iff)
  have "hs (set_h i h s) ! j = hs s ! j" for h using m(1) by (simp add: set_h_def)
  then have "hung_up ?s = hung_up s" using len by (simp add: meet_def after_send_def after_receive_def)
  then have w: "webrtc_total m \<le> card (hung_up ?s)" using old(3) by simp
  from sok m show ?thesis
  proof (cases rule: meet_kind)
    case owner
    then have "paired_up ?s = paired_up s"
      using mutual_upd(1)[of "C_of s" j i] mo(3) m(1) by (simp add: paired_up_def mo(2))
    moreover have "set_up ?s = set_up s"
      using owner len by (auto simp: set_up_def P after_send_def after_receive_def at_core split: if_splits)
    ultimately show ?thesis using owner old mo(1) w by (simp add: metrics_ok_def meet_counts_def)
  next
    case joiner
    have new: "i \<notin> paired_up s" "j \<notin> paired_up s" using joiner(3) mo(3) by (auto simp: paired_up_def)
    have "paired_up ?s = insert i (insert j (paired_up s))"
      using mutual_upd(2)[of "C_of s" j i] joiner(3) mo(3) m(1) by (auto simp: paired_up_def mo(2))
    then have pu: "card (paired_up ?s) = card (paired_up s) + 2" using new m(1) finite_of(1)[of s] by simp
    have ns: "i \<notin> set_up s" "j \<notin> set_up s" using joiner len by (simp_all add: set_up_def at_core)
    have "set_up ?s = insert i (insert j (set_up s))"
      using joiner len by (auto simp: set_up_def P after_send_def after_receive_def split: if_splits)
    then have "card (set_up ?s) = card (set_up s) + 2" using ns m(1) finite_of(2)[of s] by simp
    then show ?thesis using joiner old pu mo(1) w by (simp add: metrics_ok_def meet_counts_def)
  qed
qed

lemma mstep_metrics:
  assumes "mstep (s, m) (s', m')" "metrics_ok s m"
  shows "metrics_ok s' m'"
proof -
  have sok: "server_ok s" and old: "rendezvous_attempts m ''success'' = card (paired_up s)"
    "rendezvous_total m \<le> card (set_up s)" "webrtc_total m \<le> card (hung_up s)"
    using assms(2) by (simp_all add: metrics_ok_def)
  from assms(1) show ?thesis
  proof cases
    case (m_arrive ok key e)
    have s': "P_of s' = (P_of s)(length (hs s) \<mapsto> (if ok then SStart else SEnd))" "hung_up s \<subseteq> hung_up s'"
      using m_arrive(2) by (auto simp: arrive_def Let_def P_of_def hung_up_def fun_eq_iff nth_append less_Suc_eq)
    have "set_up s \<subseteq> set_up s'" by (auto simp: set_up_def s'(1) P_of_def)
    then show ?thesis
      using arrive_ok[OF sok m_arrive(2)] old s'(2) m_arrive(1) finite_of
      by (auto simp: metrics_ok_def arrive_counts_def paired_up_def intro: card_le)
  next
    case (m_setup j e rnd)
    obtain u where u: "P_of s' = (P_of s)(j \<mapsto> u)" "P_of s j \<noteq> Some SEnd"
      "setup_counts j e s m = m \<or> u = SEnd \<and> (\<exists>l. l \<noteq> ''success'' \<and> setup_counts j e s m = count_rendezvous l m)"
      using setup_phases(1)[OF m_setup(2,3), of m] by blast
    have "set_up s \<subseteq> set_up s'" "j \<notin> set_up s" "u = SEnd \<Longrightarrow> j \<in> set_up s'"
      using u(2) by (auto simp: set_up_def u(1))
    then have "rendezvous_total m' \<le> card (set_up s')"
      using u(3) m_setup(1) old(2) finite_of(2)[of s'] card_more[of "set_up s'" "set_up s" j] card_le[of "set_up s'" "set_up s"]
      by auto
    moreover have "rendezvous_attempts m' ''success'' = rendezvous_attempts m ''success''" "webrtc_total m' = webrtc_total m"
      using u(3) m_setup(1) by auto
    ultimately show ?thesis
      using setup_ok[OF sok m_setup(2,3)] setup_phases(2)[OF m_setup(2,3)] old by (simp add: metrics_ok_def paired_up_def)
  next
    case (m_meet i j sc)
    then show ?thesis using meet_metrics[OF assms(2)] by blast
  next
    case (m_read j r wrote e)
    have ok': "server_ok s'" "C_of s' = C_of s" using read_ok[OF sok m_read(2,4)] by simp_all
    have stop: "P_of (stop_reading j s) = P_of s" "hung_up (stop_reading j s) = insert j (hung_up s)"
      using m_read(2) by (auto simp: stop_reading_def set_h_core upd_same)
        (auto simp: hung_up_def set_h_def nth_list_update split: if_splits)
    have s': "s' = s \<and> \<not> isl r \<or> s' = stop_reading j s"
      using m_read(4) by (auto simp: on_read_def split: sum.splits option.splits if_splits)
    then have P: "P_of s' = P_of s" using stop by auto
    have "j \<notin> hung_up s" using m_read(3) by (simp add: hung_up_def)
    then have "webrtc_total m' \<le> card (hung_up s')"
      using s' stop(2) old(3) finite_of(3)[of s] m_read(1) by (auto simp: read_counts_simps)
    then show ?thesis using ok' old P m_read(1)
      by (simp add: metrics_ok_def paired_up_def set_up_def read_counts_simps)
  next
    case (m_expire j)
    have "P_of s' = P_of s" "hung_up s' = hung_up s"
      using m_expire by (simp_all add: set_h_core upd_same)
    then show ?thesis using expire_ok[OF sok m_expire(3), of True] m_expire old
      by (simp add: metrics_ok_def paired_up_def set_up_def)
  next
    case (m_page rep)
    then show ?thesis using assms(2) by (auto simp: metrics_ok_def page_counts_def split: reply.split body.split)
  qed
qed

lemma counted_ok: "counted s m \<Longrightarrow> metrics_ok s m"
proof (induction "(s, m)" arbitrary: s m rule: rtranclp_induct)
  case base
  then show ?case
    using no_slots_ok by (simp add: metrics_ok_def no_metrics_def paired_up_def C_of_def no_slots_def
        rendezvous_total_def webrtc_total_def)
next
  case (step y)
  obtain t n where "y = (t, n)" by fastforce
  then show ?case using step mstep_metrics by blast
qed

section \<open>Runs from a schedule\<close>

text \<open>What a move of the relay's schedules counts.\<close>
definition move_counts :: "rmove \<Rightarrow> revent \<Rightarrow> server \<Rightarrow> metrics \<Rightarrow> metrics" where
  "move_counts mv e s m = (case mv of
     MArrive ok key \<Rightarrow> arrive_counts ok m
   | MSetup n j i \<Rightarrow> setup_counts j e s m
   | MMeet sc i j \<Rightarrow> meet_counts i j s m
   | MOnRead j r wrote \<Rightarrow> read_counts r m
   | MExpire j \<Rightarrow> m)"

fun mplay :: "rmove list \<Rightarrow> server \<times> metrics \<Rightarrow> (server \<times> metrics) option" where
  "mplay [] x = Some x"
| "mplay (mv # mvs) (s, m) = (case do_rmove mv s of None \<Rightarrow> None | Some (e, s') \<Rightarrow> mplay mvs (s', move_counts mv e s m))"

lemma do_rmove_counts: "do_rmove mv s = Some (e, s') \<Longrightarrow> mstep (s, m) (s', move_counts mv e s m)"
proof (cases mv)
  case (MSetup n j i)
  assume "do_rmove mv s = Some (e, s')"
  with MSetup have "j < length (hs s)" "(e, s') \<in> set (setup_steps (\<lambda>_. n) j s)"
    by (auto simp: do_rmove_def Let_def split: if_splits dest: nth_mem)
  from m_setup[OF this] show ?thesis by (simp add: move_counts_def MSetup)
qed (auto simp: do_rmove_def move_counts_def split: if_splits intro: mstep.intros)

lemma mplay_counted: "mplay mvs (s, m) = Some (s', m') \<Longrightarrow> counted s m \<Longrightarrow> counted s' m'"
proof (induction mvs arbitrary: s m)
  case (Cons mv mvs)
  then show ?case
    by (auto split: option.splits dest!: do_rmove_counts[of mv s _ _ m] intro: rtranclp.rtrancl_into_rtrancl)
qed simp

section \<open>Properties\<close>



text \<open>A joiner whose time runs out before it meets the owner is told so, and counted nowhere.\<close>
theorem joiner_timeout_uncounted:
  "\<exists>s m. counted s m \<and> ctx_done (hs s ! 1) \<and> phase (hs s ! 1) = JSend 0 \<and> rconn (hs s ! 1) = None
     \<and> rendezvous_total m = 0"
proof -
  have "case mplay (take 6 meeting @ [MExpire 1, MSetup 0 1 0]) (no_slots, no_metrics) of None \<Rightarrow> False
    | Some (s, m) \<Rightarrow> ctx_done (hs s ! 1) \<and> phase (hs s ! 1) = JSend 0 \<and> rconn (hs s ! 1) = None
        \<and> rendezvous_total m = 0" by code_simp
  then obtain s m where m: "mplay (take 6 meeting @ [MExpire 1, MSetup 0 1 0]) (no_slots, no_metrics) = Some (s, m)"
    "ctx_done (hs s ! 1)" "phase (hs s ! 1) = JSend 0" "rconn (hs s ! 1) = None" "rendezvous_total m = 0"
    by (auto split: option.splits)
  have "counted s m" by (rule mplay_counted[OF m(1)]) simp
  then show ?thesis using m(2-5) by blast
qed

end
