(* ===== verification/Examples.thy ===== *)
theory Examples
  imports Commands Forwarding
begin

text \<open>
  The two example programs, \<open>src/examples/ww-tunnel-dial/main.go\<close> and
  \<open>src/examples/ww-tunnel-bind/main.go\<close>, from their arguments to the tunnel: the first serves a page
  and shows a code, the second takes the code, binds an address and gets the page through it. \<open>Inl\<close>
  is the status an argument list ends the program with, or what \<open>log.Fatalf\<close> begins with.
\<close>

section \<open>The dialing side\<close>

definition dial_flags :: flags where
  "dial_flags = [(''code'', StringV ''''), (''dial'', StringV '':8080''), (''signal'', StringV DefaultSignalServer)]"

text \<open>The body of every answer of the local server.\<close>
definition dial_page :: string where
  "dial_page = ''hello from webwormhole tunnel'' @ [CHR 0x0A]"

text \<open>The address it serves and the program up to the code it shows, with what it does then.\<close>
definition dial_main :: "goctx \<Rightarrow> ('d, 'c) lib \<Rightarrow> string list
    \<Rightarrow> nat + string \<times> ('d, 'c, string + string \<times> ('d, 'c, string + unit) proc) proc" where
  "dial_main ctx L args = (case Parse dial_flags args of
     Inl n \<Rightarrow> Inl n
   | Inr (vs, _) \<Rightarrow>
       Inr (string_flag vs ''dial'',
         andthen (PrepareTunnel ctx L (string_flag vs ''signal'') (string_flag vs ''code'')) (\<lambda>r.
           Return (case r of
             Inl err \<Rightarrow> Inl ''prepare tunnel''
           | Inr (generatedCode, go) \<Rightarrow>
               Inr (generatedCode, andthen go (\<lambda>t.
                 Return (case t of Inl err \<Rightarrow> Inl ''connect tunnel'' | Inr _ \<Rightarrow> Inr ())))))))"

text \<open>
  How it ends once \<open>Serve\<close> returns, \<open>cancelled\<close> being whether the context is done; \<open>None\<close> while it serves.
\<close>
definition dial_end :: "bool \<Rightarrow> accepted list \<Rightarrow> (string + unit) option" where
  "dial_end cancelled results =
     map_option (\<lambda>err. if err \<noteq> None \<and> \<not> cancelled then Inl ''dial'' else Inr ()) (snd (Serve results))"

section \<open>The binding side\<close>

definition bind_flags :: flags where
  "bind_flags = [(''code'', StringV ''''), (''bind'', StringV '':8081''), (''signal'', StringV DefaultSignalServer)]"

text \<open>The address it binds and the program up to the tunnel. It needs a code.\<close>
definition bind_main :: "goctx \<Rightarrow> ('d, 'c) lib \<Rightarrow> string list \<Rightarrow> nat + string \<times> ('d, 'c, string + unit) proc" where
  "bind_main ctx L args = (case Parse bind_flags args of
     Inl n \<Rightarrow> Inl n
   | Inr (vs, _) \<Rightarrow>
       if string_flag vs ''code'' = '''' then Inl 1
       else Inr (string_flag vs ''bind'',
         andthen (Client_JoinTunnel ctx L (string_flag vs ''signal'') (string_flag vs ''code'')) (\<lambda>r.
           Return (case r of Inl err \<Rightarrow> Inl ''join tunnel'' | Inr _ \<Rightarrow> Inr ()))))"

text \<open>The page it gets, \<open>get\<close> being the answer of \<open>http.Get\<close>, whose body may break off.\<close>
definition bind_get :: "(string \<Rightarrow> string + (string + byte list)) \<Rightarrow> string \<Rightarrow> string + byte list" where
  "bind_get get addr = (case get (''http://'' @ addr @ ''/'') of
     Inl err \<Rightarrow> Inl ''GET''
   | Inr (Inl err) \<Rightarrow> Inl ''read body''
   | Inr (Inr body) \<Rightarrow> Inr body)"

text \<open>Its goroutine ends the program when \<open>Forward\<close> fails while the program sleeps.\<close>
definition bind_end :: "bool \<Rightarrow> string option option \<Rightarrow> (string \<Rightarrow> string + (string + byte list)) \<Rightarrow> string
    \<Rightarrow> string + byte list" where
  "bind_end cancelled forwarded get addr =
     (case forwarded of
        Some (Some err) \<Rightarrow> if cancelled then bind_get get addr else Inl ''forward''
      | _ \<Rightarrow> bind_get get addr)"

section \<open>Properties\<close>

text \<open>What the binding side runs for the code it is given, whatever else its defaults are.\<close>
lemma bind_main_code:
  assumes "code \<noteq> ''''"
  shows "bind_main ctx L [flag_arg (''code'', code)] = Inr ('':8081'',
     andthen (Client_JoinTunnel ctx L DefaultSignalServer code) (\<lambda>r.
       Return (case r of Inl err \<Rightarrow> Inl ''join tunnel'' | Inr _ \<Rightarrow> Inr ())))"
proof -
  have "Parse bind_flags [flag_arg (''code'', code)] =
      Inr ([(''code'', StringV code), (''bind'', StringV '':8081''), (''signal'', StringV DefaultSignalServer)], [])"
    using Parse_settle[of bind_flags "[(''code'', code)]" _ "[]"]
    by (simp add: bind_flags_def fset_def flag_name_def Parse_plain plain_args_def)
  then show ?thesis using assms by (simp add: bind_main_def string_flag_def)
qed

lemma dial_main_code:
  "dial_main ctx L [flag_arg (''code'', code)] = Inr ('':8080'',
     andthen (PrepareTunnel ctx L DefaultSignalServer code) (\<lambda>r.
       Return (case r of
         Inl err \<Rightarrow> Inl ''prepare tunnel''
       | Inr (generatedCode, go) \<Rightarrow>
           Inr (generatedCode, andthen go (\<lambda>t.
             Return (case t of Inl err \<Rightarrow> Inl ''connect tunnel'' | Inr _ \<Rightarrow> Inr ()))))))"
proof -
  have "Parse dial_flags [flag_arg (''code'', code)] =
      Inr ([(''code'', StringV code), (''dial'', StringV '':8080''), (''signal'', StringV DefaultSignalServer)], [])"
    using Parse_settle[of dial_flags "[(''code'', code)]" _ "[]"]
    by (simp add: dial_flags_def fset_def flag_name_def Parse_plain plain_args_def)
  then show ?thesis by (simp add: dial_main_def string_flag_def)
qed

text \<open>
  The code the dialing example shows for a slot brings the binding example to this slot with this
  password. The two listen at different addresses unless told otherwise.
\<close>
theorem examples_share_code:
  fixes L :: "('d, 'c) lib"
  assumes "freeslot taken_slots rnd = Some s" "Atoi s = Some slot" "pass \<noteq> []" "typed_as typed (wl_Encode slot pass)"
    "typed \<noteq> ''''"
  shows "bind_main ctx L [flag_arg (''code'', typed)] = Inr ('':8081'',
     andthen (JoinTunnelCtx ctx L s (string_of pass) DefaultSignalServer) (\<lambda>r.
       Return (case r of Inl err \<Rightarrow> Inl ''join tunnel'' | Inr _ \<Rightarrow> Inr ())))"
proof -
  obtain slot' where slot: "s = Itoa slot'" "Atoi s = Some slot'" by (rule freeslot_number[OF assms(1)])
  have server: "signalServer DefaultSignalServer = DefaultSignalServer"
    by (simp add: signalServer_def)
  have "andthen (attempt p (\<lambda>_. Return (Inr typed))) (\<lambda>r. Return (case r of Inl err \<Rightarrow> Inl ''join tunnel'' | Inr _ \<Rightarrow> Inr ()))
      = andthen p (\<lambda>r. Return (case r of Inl err \<Rightarrow> Inl ''join tunnel'' | Inr _ \<Rightarrow> Inr ()))"
    for p :: "('d, 'c, dial_err + unit) proc"
    unfolding attempt_def andthen_assoc
    by (rule arg_cong[where f = "andthen p"]) (auto simp: orfail_def fail_def fun_eq_iff split: sum.split)
  then show ?thesis
    using code_decodes[OF assms(3,4)] slot assms(2) server
    by (simp add: bind_main_code[OF assms(5)] Client_JoinTunnel_def)
qed

text \<open>The dialing example also takes a code, which it does not check and shows again.\<close>
lemma dial_shows_code:
  assumes "wl_Decode code = Some (slot, pass)" "code \<noteq> ''''"
  shows "\<exists>c. dial_main ctx L [flag_arg (''code'', code)] = Inr ('':8080'', Return (Inr (code, c)))"
  using assms by (simp add: dial_main_code PrepareTunnel_def)

end
