(* ===== verification/Spec2Isabelle.thy ===== *)
theory Spec2Isabelle
  imports Protocol Sockets Closing Browser Sending Pipe Tunnels Writing Serving Metrics Examples
begin

text \<open>
  WebWormhole connects two computers that share a one-time code. The server keeps numbered slots;
  the owner of a slot shows a code made of the slot and a random password; whoever types the code
  joins the slot. Over it the two clients run a password-authenticated key exchange, send each other
  their WebRTC session descriptions sealed under the key, and end up with a data channel. Over the
  channel run a file transfer or a tunnel, which multiplexes many connections. This development models
  the Go code of these parts and states what makes each correct; every theory's opening text says how
  it stands to the code, and the theorems that are properties carry a number \<open>C<n>\<close>.

  Shared: \<open>Prelude\<close> has Go's integer types as words, slices and the byte layouts; \<open>GoStrings\<close> and
  \<open>Base64\<close> have what the code uses of \<open>strings\<close>, \<open>strconv\<close>, \<open>fmt\<close>, \<open>utf8\<close> and \<open>base64\<close>.

  Codes. \<open>Tables\<close> and \<open>Wordlist\<close> are \<open>src/wordlist/wordlist.go\<close>: two word tables, three encodings,
  the chain of decoders and prefix completion. Each encoding is an instance of the locale
  \<open>code_book\<close>, whose laws give the round trips: every code decodes to its slot and password in any
  case and with any separators, and one with a word missing or two swapped is refused.

  Signalling server. \<open>Status\<close> has the close statuses of \<open>src/wormhole/dial.go\<close>. \<open>Slots\<close> is slot
  allocation and the HTTP dispatch of \<open>src/cmd/ww/server.go\<close>; \<open>freeslot\<close> equals a plain search.
  \<open>Relay\<close> is the function \<open>relay\<close>: a step relation over any number of connections, each with the
  goroutine that books or joins (its phases are the program points) and the loop that forwards. Its
  invariant ties the phases, the stored connections and the table of slots; it gives the refinement
  of a matchmaker, the privacy of conversations, and two runs that show what goes wrong when a
  client goes away between the two hand-overs. \<open>Metrics\<close> adds the counters of the same file to its steps:
  a counted run is a run of the relay and every run can be counted, and what the counters and the gauge
  show is tied to the state.

  Handshake. A client is an interaction tree (\<open>Proc\<close>): it returns, panics, or asks for an effect (a
  WebSocket operation, a call into WebRTC, randomness, waiting) and goes on with the answer. The
  libraries without effects are the fields of the record \<open>lib\<close>. \<open>Handshake\<close> is \<open>New\<close>, \<open>Join\<close> and
  their message functions of \<open>src/wormhole/dial.go\<close> in the order of the statements; \<open>HandshakeCtx\<close>
  the copy in \<open>src/wormhole/dial_ctx.go\<close>, equal to it once the context is erased. \<open>Pairing\<close> runs two
  clients against each other: a side has a program and an inbox, and a close status is seen by the
  other as the relay reports it. The locale \<open>commuting\<close> (two processes whose steps commute) shows that
  one maximal run decides all of them, so \<open>Agreement\<close> proves by one symbolic run each that, over every
  interleaving, clients with one password agree and clients with two passwords both fail, within 31
  steps: 16 of \<open>New\<close> and 15 of \<open>Join\<close>. The laws of CPACE, HKDF, secretbox and JSON are hypotheses,
  and \<open>plain_lib\<close> is an instance they hold for. The keys' being equal or not is a hypothesis on the
  run at hand: no function with keys of 32 bytes separates all passwords.
  \<open>Client\<close> is the tunnel constructors, \<open>src/wormhole/client_ctx.go\<close> and \<open>newConn\<close> of
  \<open>src/cmd/ww/main.go\<close>; it joins the parts: the code made for a slot the server handed out makes
  whoever types it dial that slot with that password. \<open>Network\<close> puts two clients and the server of
  \<open>Relay\<close> together: a client sends to its connection, the server reads, forwards and closes, with any
  number of other clients in between. Its simulation shows that a run through the server is a run of
  \<open>Pairing\<close>, so that both outcomes of the handshake hold of it; \<open>Rendezvous\<close> lifts this to the two commands
  that \<open>ww\<close> runs, the code of one typed to the other, and \<open>Tunnels\<close> to two programs that call
  \<open>PrepareTunnel\<close> and \<open>JoinTunnel\<close>, by a lemma that a run without contexts is a run with contexts that
  are not done. \<open>Browser\<close> is \<open>src/web/webwormhole.go\<close>, the same
  exchange behind functions a page calls: its keys and messages are those of the command line.

  Commands. \<open>Flags\<close> is what the programs use of Go's \<open>flag\<close> package, with the lemma that flags written
  with their values are read back. \<open>Commands\<close> is the dispatch of \<open>src/cmd/ww/main.go\<close>, the flags of the
  four subcommands, the listeners the server starts, and the picture of the code, whose theorem says
  that it can be scanned. \<open>Serving\<close> is what each listener of the server answers. \<open>Examples\<close> is the two programs of \<open>src/examples\<close>.

  Data. \<open>Closing\<close> is the callbacks that open the channel, \<open>Close\<close> and \<open>CloseCtx\<close>, their flush loops
  partial functions where \<open>None\<close> is not returning, and the record interface of the tunnel. \<open>Writing\<close> is
  the flow control of \<open>Write\<close>: the lock, the condition variable and the callback that wakes writers, as
  a step relation; one writer is never forgotten, the second of two may be. \<open>Pipe\<close> is
  \<open>src/cmd/ww/pipe.go\<close>, two of the copies of \<open>Forwarding\<close> and the end of the program. \<open>FileTransfer\<close> is \<open>send\<close> and \<open>receive\<close> of
  \<open>src/cmd/ww/file.go\<close> with the path functions they use: what is sent arrives whole, a transfer that
  breaks off is noticed, and no name leaves the directory. \<open>Sending\<close> puts the whole chain together: from
  what is typed after \<open>ww send\<close> and \<open>ww receive\<close> to the files on the other disk.

  Tunnel. \<open>Protocol\<close> is the wire format, \<open>src/wormhole/tunnel/protocol.go\<close>, with the decoder's
  arithmetic at the width of \<open>int\<close>. \<open>Conn\<close> is a virtual connection, an instance of the locale
  \<open>byte_stream\<close>. \<open>Session\<close> is \<open>src/wormhole/tunnel/session.go\<close>: the state record, one function per
  handler, and a step relation that interleaves any number of callers, the read loop and the write
  loop, with every channel, select and once; \<open>play\<close> executes a schedule of it. \<open>Threads\<close> has the locales
  \<open>rely\<close> and \<open>relative\<close>, which turn one obligation per kind of step into an invariant of all runs, and
  the well-formedness of the state as their first instance. \<open>Streams\<close> (what a caller reads),
  \<open>Service\<close> (order and success of requests) and \<open>Sessions\<close> (ids, closing, capacities, stopping, and
  runs that show the limits) are further instances. \<open>Link\<close> joins two sessions, each of whose records
  the other receives in order, and proves what one end reads to be what the other end wrote.
  \<open>Forwarding\<close> is \<open>src/wormhole/tunnel/tunnel.go\<close>,
  which joins TCP sockets to tunnel connections; \<open>Proxy\<close> is a step relation of its two copies.
  \<open>Arrivals\<close> shows that a connection is opened before it is used, \<open>Feeding\<close> runs a copy from a socket
  into a tunnel connection and finds each chunk with the copy, queued, or written, and \<open>Sockets\<close> adds the
  copy at the other end: what comes out of the second socket is what went into the first.

  Fuel. Nothing runs out of fuel: loops are structural, have a measure, are partial functions with a
  theorem that they return, or are step relations. \<open>handleRemoteCandidates\<close> takes the number of rounds
  to unfold of a loop that ends only with the connection.

  Not modelled: usage texts, log lines, progress output and pings; \<open>autocert\<close> and the file
  server, which are libraries; the registration of the
  browser's functions by name; \<open>Ready\<close>, \<open>Dial\<close>, \<open>Listen\<close> and \<open>Close\<close> of \<open>src/wormhole/tunnel/tunnel.go\<close>, which call the session;
  the web application, in TypeScript, and the tests. The QR encoder, the HTTP client, \<open>net/url\<close> and the
  JSON of messages are parameters, as their code or their types come from other packages. WebRTC
  carries the data between two ends in order, an assumption of \<open>Link\<close> and \<open>FileTransfer\<close> that the data
  channel documents.
\<close>

end
